(* ===== verification/Prelude.thy ===== *)
theory Prelude
  imports Main "HOL-Library.Word"
begin

text \<open>
  Shared vocabulary of the development: the names of the machine types, the result type of
  fallible Go functions, byte search, and the generic lemmas the components use.

  \<^item> A Go \<open>string\<close> or \<open>[]byte\<close> is a list of bytes; a byte is a HOL \<open>char\<close>.
  \<^item> \<open>uint64\<close> and \<open>int64\<close> are 64-bit words; \<open>int64\<close> values are read with \<open>sint\<close> and
    compared with the signed orders of the Word library.
  \<^item> A function returning \<open>(T, error)\<close> returns \<open>'e + T\<close>, with \<open>Inl\<close> for the error.
\<close>

unbundle bit_operations_syntax

type_synonym byte = char
type_synonym bytes = "char list"
type_synonym u8 = "8 word"
type_synonym u64 = "64 word"
type_synonym i64 = "64 word"

named_theorems wf_intros \<open>introduction rules for well-formedness invariants\<close>
named_theorems model_defs \<open>definitions unfolded by the component proofs\<close>

section \<open>Fallible computations\<close>

definition res_bind :: "'e + 'a \<Rightarrow> ('a \<Rightarrow> 'e + 'b) \<Rightarrow> 'e + 'b" where
  "res_bind r f = (case r of Inl e \<Rightarrow> Inl e | Inr a \<Rightarrow> f a)"

lemma res_bind_simps [simp]:
  "res_bind (Inl e) f = Inl e"
  "res_bind (Inr a) f = f a"
  by (simp_all add: res_bind_def)

lemma res_bind_Inr_iff: "res_bind r f = Inr b \<longleftrightarrow> (\<exists>a. r = Inr a \<and> f a = Inr b)"
  by (cases r) auto

text \<open>
  The loop "convert every element, stop at the first error", which the code writes out once
  per slice type.
\<close>

fun traverse :: "('a \<Rightarrow> 'e + 'b) \<Rightarrow> 'a list \<Rightarrow> 'e + 'b list" where
  "traverse f [] = Inr []"
| "traverse f (x # xs) =
     (case f x of Inl e \<Rightarrow> Inl e
      | Inr y \<Rightarrow> (case traverse f xs of Inl e \<Rightarrow> Inl e | Inr ys \<Rightarrow> Inr (y # ys)))"

lemma traverse_cong_set: "(\<And>x. x \<in> set xs \<Longrightarrow> f x = g x) \<Longrightarrow> traverse f xs = traverse g xs"
  by (induction xs) (auto split: sum.splits)

lemma traverse_cong [fundef_cong]:
  "xs = ys \<Longrightarrow> (\<And>x. x \<in> set ys \<Longrightarrow> f x = g x) \<Longrightarrow> traverse f xs = traverse g ys"
  using traverse_cong_set by blast

lemma traverse_Inr_iff:
  "traverse f xs = Inr ys \<longleftrightarrow> list_all2 (\<lambda>x y. f x = Inr y) xs ys"
proof (induction xs arbitrary: ys)
  case Nil
  then show ?case by auto
next
  case (Cons x xs)
  show ?case
    using Cons.IH by (cases ys; cases "f x"; cases "traverse f xs") auto
qed

lemma traverse_length: "traverse f xs = Inr ys \<Longrightarrow> length ys = length xs"
  by (auto simp: traverse_Inr_iff dest: list_all2_lengthD)

lemma traverse_Inl: "traverse f xs = Inl e \<Longrightarrow> \<exists>x \<in> set xs. f x = Inl e"
  by (induction xs) (auto split: sum.splits)

text \<open>A first failing element decides the result.\<close>

lemma traverse_first_error:
  "(\<And>x. x \<in> set xs \<Longrightarrow> \<exists>y. f x = Inr y) \<Longrightarrow> f z = Inl e \<Longrightarrow> traverse f (xs @ z # zs) = Inl e"
  by (induction xs) (fastforce split: sum.splits)+

lemma traverse_map_Inr: "(\<And>x. x \<in> set xs \<Longrightarrow> f x = Inr (g x)) \<Longrightarrow> traverse f xs = Inr (map g xs)"
  by (induction xs) auto

text \<open>Round trips lift from elements to lists.\<close>

lemma traverse_roundtrip:
  assumes "\<And>x y. x \<in> set xs \<Longrightarrow> f x = Inr y \<Longrightarrow> g y = Inr x" and "traverse f xs = Inr ys"
  shows "traverse g ys = Inr xs"
proof -
  from assms(2) have "list_all2 (\<lambda>x y. f x = Inr y) xs ys"
    by (simp add: traverse_Inr_iff)
  then have "list_all2 (\<lambda>y x. g y = Inr x) ys xs"
    unfolding list_all2_conv_all_nth using assms(1) by (metis nth_mem)
  then show ?thesis by (simp add: traverse_Inr_iff)
qed

lemma traverse_total: "(\<And>x. x \<in> set xs \<Longrightarrow> \<exists>y. f x = Inr y) \<Longrightarrow> \<exists>ys. traverse f xs = Inr ys"
proof (induction xs)
  case Nil
  then show ?case by simp
next
  case (Cons x xs)
  from Cons.prems obtain y where "f x = Inr y" by force
  moreover from Cons obtain ys where "traverse f xs = Inr ys" by force
  ultimately show ?case by simp
qed

section \<open>Byte search\<close>

text \<open>\<open>bytes.IndexByte\<close>: the offset of the first occurrence, \<open>None\<close> for the code's \<open>-1\<close>.\<close>

fun index_byte :: "bytes \<Rightarrow> byte \<Rightarrow> nat option" where
  "index_byte [] c = None"
| "index_byte (x # xs) c = (if x = c then Some 0 else map_option Suc (index_byte xs c))"

lemma index_byte_None: "index_byte xs c = None \<longleftrightarrow> c \<notin> set xs"
  by (induction xs) auto

lemma index_byte_Some:
  "index_byte xs c = Some i \<longleftrightarrow> i < length xs \<and> xs ! i = c \<and> c \<notin> set (take i xs)"
proof (induction xs arbitrary: i)
  case Nil
  then show ?case by simp
next
  case (Cons x xs)
  then show ?case by (cases i) (auto split: if_splits)
qed

lemma index_byte_lt [dest]: "index_byte xs c = Some i \<Longrightarrow> i < length xs"
  by (simp add: index_byte_Some)

lemma index_byte_append_notin:
  "c \<notin> set xs \<Longrightarrow> index_byte (xs @ ys) c = map_option (\<lambda>i. i + length xs) (index_byte ys c)"
  by (induction xs) (auto simp: option.map_comp comp_def option.map_ident)

lemma index_byte_append_Some: "index_byte xs c = Some i \<Longrightarrow> index_byte (xs @ ys) c = Some i"
  by (induction xs arbitrary: i) (auto split: if_splits)

lemma index_byte_take: "index_byte (take n xs) c = Some i \<Longrightarrow> index_byte xs c = Some i"
  using index_byte_append_Some [of "take n xs" c i "drop n xs"] by simp

lemma index_byte_NoneI [simp]: "c \<notin> set xs \<Longrightarrow> index_byte xs c = None"
  by (simp add: index_byte_None)

lemma index_byte_append_here [simp]: "c \<notin> set xs \<Longrightarrow> index_byte (xs @ c # ys) c = Some (length xs)"
  by (simp add: index_byte_append_notin)

lemma index_byte_split:
  assumes "index_byte xs c = Some i"
  shows "xs = take i xs @ c # drop (Suc i) xs" and "c \<notin> set (take i xs)"
  using assms by (auto simp: index_byte_Some id_take_nth_drop [symmetric])

section \<open>Splitting at a separator\<close>

text \<open>
  The specification of splitting: maximal separator-free pieces. \<open>split_on\<close> is what
  \<open>strings.Split\<close> with a one-byte separator and \<open>splitFields\<close> are compared with.
\<close>

fun split_on :: "byte \<Rightarrow> bytes \<Rightarrow> bytes list" where
  "split_on d [] = [[]]"
| "split_on d (x # xs) =
     (if x = d then [] # split_on d xs
      else (case split_on d xs of [] \<Rightarrow> [[x]] | p # ps \<Rightarrow> (x # p) # ps))"

fun join_with :: "byte \<Rightarrow> bytes list \<Rightarrow> bytes" where
  "join_with d [] = []"
| "join_with d [p] = p"
| "join_with d (p # q # ps) = p @ d # join_with d (q # ps)"

lemma split_on_nonempty [simp]: "split_on d xs \<noteq> []"
  by (induction xs) (auto split: list.splits)

lemma join_split_on: "join_with d (split_on d xs) = xs"
proof (induction xs)
  case Nil
  then show ?case by simp
next
  case (Cons x xs)
  then show ?case
    by (cases "split_on d xs"; cases "tl (split_on d xs)") auto
qed

lemma split_on_pieces: "p \<in> set (split_on d xs) \<Longrightarrow> d \<notin> set p"
  by (induction xs arbitrary: p) (auto split: list.splits if_splits)

lemma split_on_append_sep:
  "d \<notin> set p \<Longrightarrow> split_on d (p @ d # xs) = p # split_on d xs"
  by (induction p) auto

lemma split_on_notin [simp]: "d \<notin> set xs \<Longrightarrow> split_on d xs = [xs]"
  by (induction xs) auto

lemma length_split_on: "length (split_on d xs) = Suc (count_list xs d)"
  by (induction xs) (auto split: list.splits)

lemma split_join:
  "ps \<noteq> [] \<Longrightarrow> (\<And>p. p \<in> set ps \<Longrightarrow> d \<notin> set p) \<Longrightarrow> split_on d (join_with d ps) = ps"
  by (induction d ps rule: join_with.induct) (auto simp: split_on_append_sep)

section \<open>Lists\<close>

lemma fold_append_map:
  "fold (\<lambda>x acc. acc @ [f x]) xs acc = acc @ map f xs"
  by (induction xs arbitrary: acc) auto

lemma sum_list_take_nth:
  "i < length xs \<Longrightarrow> sum_list (take (Suc i) xs) = sum_list (take i xs) + (xs ! i :: 'a::monoid_add)"
  by (simp add: take_Suc_conv_app_nth)

text \<open>A sum over a list in which one entry changes, or one entry and the function where the others do not see it.\<close>

lemma sum_list_map_upd:
  fixes f :: "'a \<Rightarrow> 'b::comm_monoid_add"
  assumes "i < length xs"
  shows "sum_list (map f (xs[i := x])) + f (xs ! i) = sum_list (map f xs) + f x"
  using assms by (induction xs arbitrary: i) (auto simp: nth_Cons ac_simps split: nat.splits)

lemma map_upd_frame:
  assumes "\<And>k. k < length xs \<Longrightarrow> k \<noteq> i \<Longrightarrow> g (xs ! k) = f (xs ! k)"
  shows "map g (xs[i := x]) = (map f xs)[i := g x]"
proof (rule nth_equalityI)
  fix k assume "k < length (map g (xs[i := x]))"
  then show "map g (xs[i := x]) ! k = (map f xs)[i := g x] ! k" using assms by (cases "k = i") simp_all
qed simp

lemma sum_list_frame:
  fixes f g :: "'a \<Rightarrow> 'b::comm_monoid_add"
  assumes "i < length xs" and "\<And>k. k < length xs \<Longrightarrow> k \<noteq> i \<Longrightarrow> g (xs ! k) = f (xs ! k)"
  shows "sum_list (map g (xs[i := x])) + f (xs ! i) = sum_list (map f xs) + g x"
  using sum_list_map_upd [of i "map f xs" id "g x"] assms(1) map_upd_frame [of xs i g f, OF assms(2)] by simp

end
