(* ===== verification/Float64.thy ===== *)
theory Float64
  imports Prelude
begin

text \<open>
  Go's \<open>float64\<close>: IEEE-754 binary64 as its 64-bit pattern, with the arithmetic the code uses
  (\<open>+\<close>, \<open>-\<close>, \<open>*\<close>, \<open>/\<close>, \<open><\<close>, conversions, \<open>math.Min\<close>, \<open>math.Max\<close>, \<open>cmp.Compare\<close>)
  computed exactly on integers and rounded to nearest, ties to even. Everything is executable.

  A finite value is an integer multiple of \<open>2^-1074\<close>; \<open>f64_scaled\<close> is that integer. Go does not
  specify the payload of a NaN produced by arithmetic; the model returns the one of \<open>math.NaN()\<close>,
  and no theorem depends on it.
\<close>

section \<open>Bit lengths\<close>

function bit_length :: "int \<Rightarrow> nat" where
  "bit_length n = (if n \<le> 0 then 0 else Suc (bit_length (n div 2)))"
  by pat_completeness auto
termination
  by (relation "measure nat") auto

declare bit_length.simps [simp del]

lemma bit_length_0 [simp]: "n \<le> 0 \<Longrightarrow> bit_length n = 0"
  by (simp add: bit_length.simps)

lemma bit_length_pos: "0 < n \<Longrightarrow> bit_length n = Suc (bit_length (n div 2))"
  by (simp add: bit_length.simps [of n])

lemma bit_length_upper: "n < 2 ^ bit_length n"
proof (induction n rule: bit_length.induct)
  case (1 n)
  show ?case
  proof (cases "n \<le> 0")
    case False
    with 1 have "n div 2 < 2 ^ bit_length (n div 2)" by simp
    with False show ?thesis by (simp add: bit_length_pos [of n])
  qed (simp add: order_le_less_trans)
qed

lemma bit_length_lower: "0 < n \<Longrightarrow> 2 ^ (bit_length n - 1) \<le> n"
proof (induction n rule: bit_length.induct)
  case (1 n)
  show ?case
  proof (cases "n div 2 \<le> 0")
    case True
    with 1 show ?thesis by (simp add: bit_length_pos [of n])
  next
    case False
    with 1 have "2 ^ (bit_length (n div 2) - 1) \<le> n div 2" by simp
    then have "2 * 2 ^ (bit_length (n div 2) - 1) \<le> n" by linarith
    moreover from False have "0 < bit_length (n div 2)" by (simp add: bit_length_pos)
    ultimately show ?thesis
      using 1 by (simp add: bit_length_pos [of n] power_eq_if split: if_splits)
  qed
qed

lemma bit_length_le_iff: "bit_length n \<le> k \<longleftrightarrow> n < 2 ^ k"
proof
  assume "bit_length n \<le> k"
  then have "(2::int) ^ bit_length n \<le> 2 ^ k" by simp
  then show "n < 2 ^ k" using bit_length_upper less_le_trans by blast
next
  assume n: "n < 2 ^ k"
  show "bit_length n \<le> k"
  proof (rule ccontr)
    assume "\<not> bit_length n \<le> k"
    then have k: "k \<le> bit_length n - 1" and "0 < n"
      by (auto intro: ccontr)
    have "(2::int) ^ k \<le> 2 ^ (bit_length n - 1)" using k by simp
    also have "\<dots> \<le> n" using \<open>0 < n\<close> by (rule bit_length_lower)
    finally show False using n by simp
  qed
qed

section \<open>Representation\<close>

datatype f64 = F64 (f64_bits: u64)

definition inf_mag :: int where
  "inf_mag = 2047 * 2 ^ 52"

definition f64_sign :: "f64 \<Rightarrow> bool" where
  "f64_sign x \<longleftrightarrow> 2 ^ 63 \<le> uint (f64_bits x)"

definition f64_mag :: "f64 \<Rightarrow> int" where
  "f64_mag x = uint (f64_bits x) mod 2 ^ 63"

definition mk_f64 :: "bool \<Rightarrow> int \<Rightarrow> f64" where
  "mk_f64 s m = F64 (word_of_int (m + (if s then 2 ^ 63 else 0)))"

lemma f64_mag_range: "0 \<le> f64_mag x" "f64_mag x < 2 ^ 63"
  by (simp_all add: f64_mag_def)

lemma f64_bits_mk:
  "0 \<le> m \<Longrightarrow> m < 2 ^ 63 \<Longrightarrow> uint (f64_bits (mk_f64 s m)) = m + (if s then 2 ^ 63 else 0)"
  unfolding mk_f64_def f64.sel uint_word_of_int by (subst mod_pos_pos_trivial) auto

lemma f64_sign_mk: "0 \<le> m \<Longrightarrow> m < 2 ^ 63 \<Longrightarrow> f64_sign (mk_f64 s m) = s"
  using f64_bits_mk [of m s] by (auto simp: f64_sign_def)

lemma f64_mag_mk: "0 \<le> m \<Longrightarrow> m < 2 ^ 63 \<Longrightarrow> f64_mag (mk_f64 s m) = m"
  using f64_bits_mk [of m s] by (auto simp: f64_mag_def)

lemmas f64_mk = f64_sign_mk f64_mag_mk

lemma f64_bits_split: "uint (f64_bits x) = f64_mag x + (if f64_sign x then 2 ^ 63 else 0)"
proof -
  have lt: "uint (f64_bits x) < 2 ^ 64" using uint_bounded [of "f64_bits x"] by simp
  show ?thesis
  proof (cases "f64_sign x")
    case True
    have "uint (f64_bits x) mod 2 ^ 63 = (uint (f64_bits x) - 2 ^ 63) mod 2 ^ 63" by simp
    also have "\<dots> = uint (f64_bits x) - 2 ^ 63"
      using True lt by (intro mod_pos_pos_trivial) (auto simp: f64_sign_def)
    finally show ?thesis using True by (simp add: f64_mag_def)
  next
    case False
    then have "uint (f64_bits x) mod 2 ^ 63 = uint (f64_bits x)"
      by (intro mod_pos_pos_trivial) (auto simp: f64_sign_def)
    with False show ?thesis by (simp add: f64_mag_def)
  qed
qed

lemma mk_f64_id [simp]: "mk_f64 (f64_sign x) (f64_mag x) = x"
  by (simp add: mk_f64_def f64_bits_split [symmetric])

lemma f64_eqI:
  assumes "f64_sign x = f64_sign y" and "f64_mag x = f64_mag y"
  shows "x = y"
proof -
  have "x = mk_f64 (f64_sign x) (f64_mag x)" by simp
  also have "\<dots> = mk_f64 (f64_sign y) (f64_mag y)" by (simp only: assms)
  also have "\<dots> = y" by simp
  finally show ?thesis .
qed

section \<open>Classes of values\<close>

definition is_nan :: "f64 \<Rightarrow> bool" where
  "is_nan x \<longleftrightarrow> inf_mag < f64_mag x"

definition is_inf :: "f64 \<Rightarrow> bool" where
  "is_inf x \<longleftrightarrow> f64_mag x = inf_mag"

definition is_zero :: "f64 \<Rightarrow> bool" where
  "is_zero x \<longleftrightarrow> f64_mag x = 0"

definition f64_zero :: f64 where
  "f64_zero = F64 0"

definition f64_inf :: "bool \<Rightarrow> f64" where
  "f64_inf neg = mk_f64 neg inf_mag"

text \<open>\<open>math.NaN()\<close> is the pattern \<open>0x7FF8000000000001\<close>.\<close>

definition f64_nan :: f64 where
  "f64_nan = F64 0x7FF8000000000001"

lemma inf_mag_range [simp]: "0 < inf_mag" "0 \<le> inf_mag" "inf_mag < 9223372036854775808"
  by (simp_all add: inf_mag_def)

lemma is_nan_nan [simp]: "is_nan f64_nan"
  by (simp add: is_nan_def f64_nan_def f64_mag_def inf_mag_def)

lemma is_inf_inf [simp]: "is_inf (f64_inf s)" "f64_sign (f64_inf s) = s" "\<not> is_nan (f64_inf s)"
  by (simp_all add: is_inf_def is_nan_def f64_inf_def f64_mk)

lemma is_inf_eq: "is_inf x \<Longrightarrow> x = f64_inf (f64_sign x)"
  by (rule f64_eqI) (simp_all add: is_inf_def f64_inf_def f64_mk)

text \<open>One, in units of the smallest positive value.\<close>

definition f64_unit :: int where
  "f64_unit = 2 ^ 1074"

lemma f64_unit_pos [simp]: "0 < f64_unit" "0 \<le> f64_unit" "f64_unit \<noteq> 0"
  by (simp_all add: f64_unit_def)

text \<open>The magnitude of a finite value in units of \<open>2^-1074\<close>, from its exponent and fraction.\<close>

definition scaled_mag :: "int \<Rightarrow> int" where
  "scaled_mag m = (let e = nat (m div 2 ^ 52); f = m mod 2 ^ 52
     in if e = 0 then f else (2 ^ 52 + f) * 2 ^ (e - 1))"

definition f64_scaled :: "f64 \<Rightarrow> int" where
  "f64_scaled x = (if f64_sign x then - scaled_mag (f64_mag x) else scaled_mag (f64_mag x))"

lemma scaled_mag_nonneg: "0 \<le> scaled_mag m"
  by (simp add: scaled_mag_def Let_def)

section \<open>Rounding to nearest, ties to even\<close>

text \<open>
  The magnitude whose value is nearest to \<open>n / d\<close> units. \<open>e\<close> is chosen so that the integer
  quotient has at most 53 bits; the encoding \<open>e * 2^52 + q\<close> then also covers the subnormal
  range (\<open>e = 0\<close>) and a rounding carry into the next binade. Overflow gives infinity.
\<close>

definition round_mag :: "int \<Rightarrow> int \<Rightarrow> int" where
  "round_mag n d = (let e = bit_length (n div d) - 53; D = d * 2 ^ e; q = n div D; r = n mod D;
     q' = (if D < 2 * r \<or> (2 * r = D \<and> odd q) then q + 1 else q)
     in min inf_mag (int e * 2 ^ 52 + q'))"

lemma round_mag_le: "round_mag n d \<le> inf_mag"
  by (simp add: round_mag_def Let_def)

lemma round_mag_nonneg: "0 \<le> n \<Longrightarrow> 0 < d \<Longrightarrow> 0 \<le> round_mag n d"
  by (auto simp: round_mag_def Let_def pos_imp_zdiv_nonneg_iff)

definition f64_of_ratio :: "bool \<Rightarrow> int \<Rightarrow> int \<Rightarrow> f64" where
  "f64_of_ratio neg n d = mk_f64 neg (round_mag n d)"

section \<open>Arithmetic\<close>

definition f64_neg :: "f64 \<Rightarrow> f64" where
  "f64_neg x = mk_f64 (\<not> f64_sign x) (f64_mag x)"

definition f64_add :: "f64 \<Rightarrow> f64 \<Rightarrow> f64" where
  "f64_add x y =
     (if is_nan x \<or> is_nan y then f64_nan
      else if is_inf x then (if is_inf y \<and> f64_sign x \<noteq> f64_sign y then f64_nan else x)
      else if is_inf y then y
      else (let s = f64_scaled x + f64_scaled y
            in if s = 0 then mk_f64 (f64_sign x \<and> f64_sign y) 0
               else f64_of_ratio (s < 0) \<bar>s\<bar> 1))"

definition f64_sub :: "f64 \<Rightarrow> f64 \<Rightarrow> f64" where
  "f64_sub x y = f64_add x (f64_neg y)"

definition f64_mul :: "f64 \<Rightarrow> f64 \<Rightarrow> f64" where
  "f64_mul x y = (let s = (f64_sign x \<noteq> f64_sign y) in
     (if is_nan x \<or> is_nan y then f64_nan
      else if is_inf x \<or> is_inf y then (if is_zero x \<or> is_zero y then f64_nan else f64_inf s)
      else f64_of_ratio s (scaled_mag (f64_mag x) * scaled_mag (f64_mag y)) (f64_unit)))"

definition f64_div :: "f64 \<Rightarrow> f64 \<Rightarrow> f64" where
  "f64_div x y = (let s = (f64_sign x \<noteq> f64_sign y) in
     (if is_nan x \<or> is_nan y then f64_nan
      else if is_inf x then (if is_inf y then f64_nan else f64_inf s)
      else if is_inf y then mk_f64 s 0
      else if is_zero y then (if is_zero x then f64_nan else f64_inf s)
      else f64_of_ratio s (scaled_mag (f64_mag x) * f64_unit) (scaled_mag (f64_mag y))))"

text \<open>Conversion of an integer: \<open>float64(n)\<close>.\<close>

definition f64_of_int :: "int \<Rightarrow> f64" where
  "f64_of_int i = f64_of_ratio (i < 0) (\<bar>i\<bar> * f64_unit) 1"

text \<open>\<open>math.Exp2(-r)\<close> for a register value: exact powers of two.\<close>

definition f64_exp2_neg :: "nat \<Rightarrow> f64" where
  "f64_exp2_neg r = f64_of_ratio False (f64_unit) (2 ^ r)"

text \<open>
  \<open>int64(math.Round(x))\<close>: halves round away from zero. Outside the range of \<open>int64\<close> (and for a
  NaN) the result of the conversion is implementation-specific; the model returns the amd64 value.
\<close>

definition f64_round_int :: "f64 \<Rightarrow> int option" where
  "f64_round_int x =
     (if is_nan x \<or> is_inf x then None
      else (let a = (2 * scaled_mag (f64_mag x) + f64_unit) div (2 * f64_unit)
            in Some (if f64_sign x then - a else a)))"

definition i64_of_rounded :: "f64 \<Rightarrow> i64" where
  "i64_of_rounded x = (case f64_round_int x of
      None \<Rightarrow> of_int (- (2 ^ 63))
    | Some i \<Rightarrow> (if - (2 ^ 63) \<le> i \<and> i < 2 ^ 63 then of_int i else of_int (- (2 ^ 63))))"

section \<open>Order\<close>

definition f64_key :: "f64 \<Rightarrow> int" where
  "f64_key x = (if f64_sign x then - f64_mag x else f64_mag x)"

definition f64_lt :: "f64 \<Rightarrow> f64 \<Rightarrow> bool" where
  "f64_lt x y \<longleftrightarrow> \<not> is_nan x \<and> \<not> is_nan y \<and> f64_key x < f64_key y"

definition f64_le :: "f64 \<Rightarrow> f64 \<Rightarrow> bool" where
  "f64_le x y \<longleftrightarrow> \<not> is_nan x \<and> \<not> is_nan y \<and> f64_key x \<le> f64_key y"

definition f64_eq :: "f64 \<Rightarrow> f64 \<Rightarrow> bool" where
  "f64_eq x y \<longleftrightarrow> \<not> is_nan x \<and> \<not> is_nan y \<and> f64_key x = f64_key y"

text \<open>\<open>math.Min\<close> and \<open>math.Max\<close>, branch by branch.\<close>

definition math_min :: "f64 \<Rightarrow> f64 \<Rightarrow> f64" where
  "math_min x y =
     (if (is_inf x \<and> f64_sign x) \<or> (is_inf y \<and> f64_sign y) then f64_inf True
      else if is_nan x \<or> is_nan y then f64_nan
      else if is_zero x \<and> is_zero y then (if f64_sign x then x else y)
      else if f64_lt x y then x else y)"

definition math_max :: "f64 \<Rightarrow> f64 \<Rightarrow> f64" where
  "math_max x y =
     (if (is_inf x \<and> \<not> f64_sign x) \<or> (is_inf y \<and> \<not> f64_sign y) then f64_inf False
      else if is_nan x \<or> is_nan y then f64_nan
      else if is_zero x \<and> is_zero y then (if f64_sign x then y else x)
      else if f64_lt y x then x else y)"

text \<open>\<open>cmp.Compare\<close> on \<open>float64\<close>: a NaN is below every other value and equal to a NaN.\<close>

definition cmp_f64 :: "f64 \<Rightarrow> f64 \<Rightarrow> int" where
  "cmp_f64 x y =
     (if is_nan x then (if is_nan y then 0 else -1)
      else if is_nan y then 1
      else if f64_lt x y then -1 else if f64_lt y x then 1 else 0)"

section \<open>Algebra of minimum and maximum\<close>

text \<open>
  \<open>canon\<close> replaces the payload of a NaN by that of \<open>math.NaN()\<close>. \<open>min_rank\<close> orders the
  classes \<open>math.Min\<close> distinguishes: minus infinity, NaN, then the finite values with \<open>-0\<close>
  below \<open>+0\<close>; \<open>math.Min\<close> returns an argument of least rank. \<open>max_rank\<close> is its mirror image.
\<close>

definition canon :: "f64 \<Rightarrow> f64" where
  "canon x = (if is_nan x then f64_nan else x)"

definition signed_rank :: "f64 \<Rightarrow> int" where
  "signed_rank x = (if f64_sign x then - f64_mag x - 1 else f64_mag x)"

definition min_rank :: "f64 \<Rightarrow> int" where
  "min_rank x = (if is_nan x then 2 * (- inf_mag - 1) + 1 else 2 * signed_rank x)"

definition max_rank :: "f64 \<Rightarrow> int" where
  "max_rank x = (if is_nan x then 2 * inf_mag - 1 else 2 * signed_rank x)"

lemma canon_idem [simp]: "canon (canon x) = canon x"
  by (simp add: canon_def)

lemma is_nan_canon [simp]: "is_nan (canon x) = is_nan x"
  by (simp add: canon_def)

lemma signed_rank_eqI: "signed_rank x = signed_rank y \<Longrightarrow> x = y"
  using f64_mag_range(1) [of x] f64_mag_range(1) [of y]
  by (intro f64_eqI) (auto simp: signed_rank_def split: if_splits)

lemma min_rank_canon: "min_rank x = min_rank y \<Longrightarrow> canon x = canon y"
  by (auto simp: min_rank_def canon_def split: if_splits dest: signed_rank_eqI; presburger)

lemma max_rank_canon: "max_rank x = max_rank y \<Longrightarrow> canon x = canon y"
  by (auto simp: max_rank_def canon_def split: if_splits dest: signed_rank_eqI; presburger)

lemma canon_math_min [simp]: "canon (math_min x y) = math_min x y"
  by (auto simp: canon_def math_min_def)

lemma canon_math_max [simp]: "canon (math_max x y) = math_max x y"
  by (auto simp: canon_def math_max_def)

lemma signed_rank_inf: "signed_rank (f64_inf s) = (if s then - inf_mag - 1 else inf_mag)"
  by (simp add: signed_rank_def f64_inf_def f64_mk)

lemma signed_rank_bounds:
  "\<not> is_nan x \<Longrightarrow> - inf_mag - 1 \<le> signed_rank x \<and> signed_rank x \<le> inf_mag"
  using f64_mag_range(1) [of x] inf_mag_range(1)
  by (auto simp: signed_rank_def is_nan_def simp del: inf_mag_range)

lemma min_rank_math_min: "min_rank (math_min x y) = min (min_rank x) (min_rank y)"
proof -
  have inf: "min_rank (f64_inf True) = 2 * (- inf_mag - 1)"
    by (simp add: min_rank_def signed_rank_inf)
  have low: "2 * (- inf_mag - 1) \<le> min_rank z" for z
    using signed_rank_bounds [of z] by (auto simp: min_rank_def)
  show ?thesis
  proof (cases "(is_inf x \<and> f64_sign x) \<or> (is_inf y \<and> f64_sign y)")
    case True
    then show ?thesis
      using low [of x] low [of y] inf is_inf_eq [of x] is_inf_eq [of y]
      by (auto simp: math_min_def min_def)
  next
    case False
    have above: "2 * (- inf_mag - 1) + 1 \<le> min_rank z" if "\<not> (is_inf z \<and> f64_sign z)" for z
      using that signed_rank_bounds [of z] f64_mag_range(1) [of z]
      by (auto simp: min_rank_def signed_rank_def is_inf_def is_nan_def split: if_splits)
    show ?thesis
      using False above [of x] above [of y] f64_mag_range(1) [of x] f64_mag_range(1) [of y]
      by (auto simp: math_min_def f64_lt_def f64_key_def is_zero_def min_rank_def signed_rank_def
          min_def split: if_splits)
  qed
qed

lemma max_rank_math_max: "max_rank (math_max x y) = max (max_rank x) (max_rank y)"
proof -
  have inf: "max_rank (f64_inf False) = 2 * inf_mag"
    by (simp add: max_rank_def signed_rank_inf)
  have high: "max_rank z \<le> 2 * inf_mag" for z
    using signed_rank_bounds [of z] by (auto simp: max_rank_def)
  show ?thesis
  proof (cases "(is_inf x \<and> \<not> f64_sign x) \<or> (is_inf y \<and> \<not> f64_sign y)")
    case True
    then show ?thesis
      using high [of x] high [of y] inf is_inf_eq [of x] is_inf_eq [of y]
      by (auto simp: math_max_def max_def)
  next
    case False
    have below: "max_rank z \<le> 2 * inf_mag - 1" if "\<not> (is_inf z \<and> \<not> f64_sign z)" for z
      using that signed_rank_bounds [of z] f64_mag_range(1) [of z]
      by (auto simp: max_rank_def signed_rank_def is_inf_def is_nan_def split: if_splits)
    show ?thesis
      using False below [of x] below [of y] f64_mag_range(1) [of x] f64_mag_range(1) [of y]
      by (auto simp: math_max_def f64_lt_def f64_key_def is_zero_def max_rank_def signed_rank_def
          max_def split: if_splits)
  qed
qed

lemma math_min_commute: "math_min x y = math_min y x"
  using min_rank_canon [of "math_min x y" "math_min y x"] by (simp add: min_rank_math_min min.commute)

lemma math_min_assoc: "math_min (math_min x y) z = math_min x (math_min y z)"
  using min_rank_canon [of "math_min (math_min x y) z" "math_min x (math_min y z)"]
  by (simp add: min_rank_math_min min.assoc)

lemma math_max_commute: "math_max x y = math_max y x"
  using max_rank_canon [of "math_max x y" "math_max y x"] by (simp add: max_rank_math_max max.commute)

lemma math_max_assoc: "math_max (math_max x y) z = math_max x (math_max y z)"
  using max_rank_canon [of "math_max (math_max x y) z" "math_max x (math_max y z)"]
  by (simp add: max_rank_math_max max.assoc)

lemma min_rank_of_canon [simp]: "min_rank (canon x) = min_rank x"
  by (simp add: min_rank_def canon_def)

lemma max_rank_of_canon [simp]: "max_rank (canon x) = max_rank x"
  by (simp add: max_rank_def canon_def)

lemma math_min_canon_left [simp]: "math_min (canon x) y = math_min x y"
  using min_rank_canon [of "math_min (canon x) y" "math_min x y"] by (simp add: min_rank_math_min)

lemma math_min_canon_right [simp]: "math_min x (canon y) = math_min x y"
  by (metis math_min_canon_left math_min_commute)

lemma math_max_canon_left [simp]: "math_max (canon x) y = math_max x y"
  using max_rank_canon [of "math_max (canon x) y" "math_max x y"] by (simp add: max_rank_math_max)

lemma math_max_canon_right [simp]: "math_max x (canon y) = math_max x y"
  by (metis math_max_canon_left math_max_commute)

section \<open>Algebra of addition and comparison\<close>

lemma f64_add_commute: "f64_add x y = f64_add y x"
  using is_inf_eq [of x] is_inf_eq [of y]
  by (auto simp: f64_add_def Let_def add.commute conj_commute split: if_splits)

text \<open>A NaN operand poisons a sum.\<close>

lemma f64_add_nan [simp]: "is_nan x \<Longrightarrow> f64_add x y = f64_nan" "is_nan y \<Longrightarrow> f64_add x y = f64_nan"
  by (simp_all add: f64_add_def)

definition cmp_rank :: "f64 \<Rightarrow> int" where
  "cmp_rank x = (if is_nan x then - inf_mag - 1 else f64_key x)"

lemma cmp_f64_rank: "cmp_f64 x y = sgn (cmp_rank x - cmp_rank y)"
  using f64_mag_range(1) [of x] f64_mag_range(1) [of y]
  by (auto simp: cmp_f64_def cmp_rank_def f64_lt_def f64_key_def is_nan_def sgn_if)

section \<open>Exactness of rounding\<close>

lemma bit_length_shift: "0 < n \<Longrightarrow> bit_length (n * 2 ^ k) = bit_length n + k"
proof (induction k)
  case 0
  then show ?case by simp
next
  case (Suc k)
  have "bit_length (n * 2 ^ Suc k) = Suc (bit_length (n * 2 ^ Suc k div 2))"
    using Suc.prems by (intro bit_length_pos) simp
  also have "n * 2 ^ Suc k div 2 = n * 2 ^ k" by (simp add: ac_simps)
  finally show ?case using Suc by simp
qed

lemma bit_length_eqI: "2 ^ k \<le> n \<Longrightarrow> n < 2 ^ Suc k \<Longrightarrow> bit_length n = Suc k"
  using bit_length_le_iff [of n k] bit_length_le_iff [of n "Suc k"] by linarith

text \<open>A value with a 53-bit significand is its own rounding.\<close>

lemma round_mag_dyadic:
  assumes "2 ^ 52 \<le> q" and "q < 2 ^ 53" and "int e * 2 ^ 52 + q \<le> inf_mag"
  shows "round_mag (q * 2 ^ e) 1 = int e * 2 ^ 52 + q"
proof -
  have "bit_length q = 53" using assms(1,2) bit_length_eqI [of 52 q] by simp
  with assms(1) have "bit_length (q * 2 ^ e) = 53 + e"
    by (subst bit_length_shift) (simp_all add: less_le_trans [of 0 "2 ^ 52"])
  then show ?thesis using assms(3) by (simp add: round_mag_def Let_def min_absorb2)
qed

lemma round_mag_small: "0 \<le> q \<Longrightarrow> q < 2 ^ 53 \<Longrightarrow> round_mag q 1 = q"
proof -
  assume q: "0 \<le> q" "q < 2 ^ 53"
  then have "bit_length q - 53 = 0" using bit_length_le_iff [of q 53] by simp
  then show ?thesis using q by (simp add: round_mag_def Let_def inf_mag_def min_def)
qed

lemma scaled_mag_dyadic:
  assumes "2 ^ 52 \<le> q" and "q < 2 ^ 53"
  shows "scaled_mag (int e * 2 ^ 52 + q) = q * 2 ^ e"
proof -
  define f where "f = q - 2 ^ 52"
  have f: "0 \<le> f" "f < 2 ^ 52" using assms by (simp_all add: f_def)
  have "int e * 2 ^ 52 + q = f + (int e + 1) * 2 ^ 52" by (simp add: f_def algebra_simps)
  then have "(int e * 2 ^ 52 + q) div 2 ^ 52 = int e + 1" "(int e * 2 ^ 52 + q) mod 2 ^ 52 = f"
    using f by (simp_all only: div_mult_self1 mod_mult_self1) (simp_all add: div_pos_pos_trivial)
  then show ?thesis by (simp add: scaled_mag_def nat_add_distrib f_def)
qed

text \<open>Rounding a representable magnitude gives it back.\<close>

lemma round_mag_scaled:
  assumes "0 \<le> m" and "m \<le> inf_mag"
  shows "round_mag (scaled_mag m) 1 = m"
proof (cases "m < 2 ^ 53")
  case True
  have "scaled_mag m = m"
  proof (cases "m < 2 ^ 52")
    case True
    with assms(1) show ?thesis by (simp add: scaled_mag_def Let_def)
  next
    case False
    with True scaled_mag_dyadic [of m 0] show ?thesis by simp
  qed
  with True assms show ?thesis by (simp add: round_mag_small)
next
  case False
  define e q where "e = nat (m div 2 ^ 52 - 1)" and "q = m mod 2 ^ 52 + 2 ^ 52"
  have "1 \<le> m div 2 ^ 52"
    using False by (simp add: pos_imp_zdiv_pos_iff int_one_le_iff_zero_less)
  then have m: "m = int e * 2 ^ 52 + q"
    unfolding e_def q_def by (simp add: algebra_simps)
  have q: "2 ^ 52 \<le> q" "q < 2 ^ 53"
    unfolding q_def using pos_mod_bound [of "2 ^ 52" m] by simp_all
  have "round_mag (scaled_mag m) 1 = round_mag (q * 2 ^ e) 1"
    unfolding m by (simp only: scaled_mag_dyadic [OF q])
  also have "\<dots> = m" unfolding m using q assms(2) m by (intro round_mag_dyadic) auto
  finally show ?thesis .
qed

text \<open>Integers of at most 53 bits convert exactly.\<close>

lemma f64_sign_of_int [simp]: "f64_sign (f64_of_int i) = (i < 0)"
  and f64_mag_of_int: "f64_mag (f64_of_int i) = round_mag (\<bar>i\<bar> * f64_unit) 1"
  unfolding f64_of_int_def f64_of_ratio_def
  using round_mag_nonneg [of "\<bar>i\<bar> * f64_unit" 1] le_less_trans [OF round_mag_le inf_mag_range(3)]
  by (simp_all add: f64_mk)

lemma f64_scaled_of_int:
  assumes "\<bar>i\<bar> < 2 ^ 53"
  shows "f64_scaled (f64_of_int i) = i * f64_unit" and "f64_mag (f64_of_int i) < inf_mag"
proof -
  have "scaled_mag (round_mag (\<bar>i\<bar> * f64_unit) 1) = \<bar>i\<bar> * f64_unit \<and> round_mag (\<bar>i\<bar> * f64_unit) 1 < inf_mag"
  proof (cases "i = 0")
    case True
    then show ?thesis by (simp add: round_mag_small scaled_mag_def)
  next
    case False
    define b e q where "b = bit_length \<bar>i\<bar>" and "e = b + 1021" and "q = \<bar>i\<bar> * 2 ^ (53 - b)"
    have b: "b \<le> 53" "0 < b" using assms False bit_length_le_iff [of "\<bar>i\<bar>" 53]
      by (auto simp: b_def bit_length_pos)
    have eq: "\<bar>i\<bar> * f64_unit = q * 2 ^ e"
      unfolding q_def e_def f64_unit_def using b
    by (simp only: mult.assoc power_add [symmetric]) simp
    have "bit_length q = 53" unfolding q_def using False b by (simp add: bit_length_shift b_def [symmetric])
    then have q: "2 ^ 52 \<le> q" "q < 2 ^ 53"
      using bit_length_lower [of q] bit_length_upper [of q] False by (auto simp: q_def)
    have le: "int e * 2 ^ 52 + q < inf_mag"
      using q(2) b(1) by (simp add: inf_mag_def e_def)
    show ?thesis
      unfolding eq using round_mag_dyadic [OF q, of e] scaled_mag_dyadic [OF q, of e] le by simp
  qed
  then have r: "scaled_mag (round_mag (\<bar>i\<bar> * f64_unit) 1) = \<bar>i\<bar> * f64_unit"
    and lt: "round_mag (\<bar>i\<bar> * f64_unit) 1 < inf_mag" by auto
  have mk: "f64_mag (f64_of_int i) = round_mag (\<bar>i\<bar> * f64_unit) 1" "f64_sign (f64_of_int i) = (i < 0)"
    by (simp_all add: f64_mag_of_int)
  show "f64_scaled (f64_of_int i) = i * f64_unit" using mk r by (simp only: f64_scaled_def) auto
  show "f64_mag (f64_of_int i) < inf_mag" using mk lt by simp
qed

lemma f64_add_of_int:
  assumes "\<bar>i\<bar> < 2 ^ 53" and "\<bar>j\<bar> < 2 ^ 53"
  shows "f64_add (f64_of_int i) (f64_of_int j) = f64_of_int (i + j)"
proof -
  have sc: "f64_scaled (f64_of_int i) + f64_scaled (f64_of_int j) = (i + j) * f64_unit"
    using assms by (simp only: f64_scaled_of_int distrib_right)
  have "\<not> is_nan (f64_of_int i)" "\<not> is_inf (f64_of_int i)" "\<not> is_nan (f64_of_int j)" "\<not> is_inf (f64_of_int j)"
    using f64_scaled_of_int(2) [of i] f64_scaled_of_int(2) [of j] assms by (auto simp: is_nan_def is_inf_def)
  then have "f64_add (f64_of_int i) (f64_of_int j) =
      (if (i + j) * f64_unit = 0 then mk_f64 (i < 0 \<and> j < 0) 0
       else f64_of_ratio ((i + j) * f64_unit < 0) \<bar>(i + j) * f64_unit\<bar> 1)"
    unfolding f64_add_def Let_def by (simp only: sc f64_sign_of_int if_False simp_thms)
  moreover have "((i + j) * f64_unit < 0) = (i + j < 0)" "\<bar>(i + j) * f64_unit\<bar> = \<bar>i + j\<bar> * f64_unit"
    using f64_unit_pos(1) by (auto simp: mult_less_0_iff abs_mult simp del: f64_unit_pos)
  moreover have "mk_f64 (i < 0 \<and> j < 0) 0 = mk_f64 False 0" if "i + j = 0"
  proof -
    from that have "(i < 0 \<and> j < 0) = False" by auto
    then show ?thesis by (simp only:)
  qed
  ultimately show ?thesis
    by (simp add: f64_of_int_def [of "i + j"] f64_of_ratio_def round_mag_small)
qed

end
