(* ===== verification/StrConv.thy ===== *)
theory StrConv
  imports Float64 "HOL-Library.Char_ord" "HOL-Library.List_Lexorder"
begin

text \<open>
  The parts of Go's \<open>strings\<close>, \<open>strconv\<close> and \<open>cmp\<close> packages the code calls, on byte strings:
  \<open>ParseInt\<close> and \<open>FormatInt\<close> (base 10, 64 bits), \<open>ParseFloat\<close> (decimal and hexadecimal
  syntax, underscores, infinities and NaN, correctly rounded), \<open>ToLower\<close>, \<open>TrimSpace\<close>,
  \<open>EqualFold\<close>, \<open>Cut\<close>, \<open>CutPrefix\<close>, \<open>Join\<close> and \<open>cmp.Compare\<close>. \<open>strings.Split\<close> with a
  one-byte separator is \<open>split_on\<close> of the prelude.
\<close>

section \<open>Characters\<close>

abbreviation code :: "char \<Rightarrow> nat" where
  "code c \<equiv> of_char c"

definition is_digit :: "char \<Rightarrow> bool" where
  "is_digit c \<longleftrightarrow> 48 \<le> code c \<and> code c \<le> 57"

definition digit_val :: "char \<Rightarrow> nat" where
  "digit_val c = code c - 48"

definition digit_char :: "nat \<Rightarrow> char" where
  "digit_char n = char_of (48 + n)"

definition ascii_lower :: "char \<Rightarrow> char" where
  "ascii_lower c = (if 65 \<le> code c \<and> code c \<le> 90 then char_of (code c + 32) else c)"

definition is_ascii :: "char \<Rightarrow> bool" where
  "is_ascii c \<longleftrightarrow> code c < 128"

lemma code_lt_256: "code c < 256"
  using of_char_mod_256 [of c] by (metis mod_less_divisor zero_less_numeral of_char_mod_256)

lemma code_digit_char [simp]: "n < 10 \<Longrightarrow> code (digit_char n) = 48 + n"
  by (simp add: digit_char_def)

lemma digit_char_props [simp]:
  "n < 10 \<Longrightarrow> is_digit (digit_char n)" "n < 10 \<Longrightarrow> digit_val (digit_char n) = n"
  by (simp_all add: is_digit_def digit_val_def)

lemma digit_val_less: "is_digit c \<Longrightarrow> digit_val c < 10"
  unfolding is_digit_def digit_val_def by linarith

section \<open>Integers\<close>

datatype num_error = ErrSyntax | ErrRange

fun format_nat :: "nat \<Rightarrow> string" where
  "format_nat n = (if n < 10 then [digit_char n] else format_nat (n div 10) @ [digit_char (n mod 10)])"

declare format_nat.simps [simp del]

definition format_int :: "int \<Rightarrow> string" where
  "format_int i = (if i < 0 then CHR ''-'' # format_nat (nat (- i)) else format_nat (nat i))"

text \<open>
  \<open>ParseUint\<close>: the digit loop stops at the first character that is not a digit (a syntax
  error) or at the first digit that leaves the 64-bit range (a range error), whichever is first.
\<close>

fun parse_uint_loop :: "nat \<Rightarrow> bytes \<Rightarrow> num_error + nat" where
  "parse_uint_loop n [] = Inr n"
| "parse_uint_loop n (c # cs) =
     (if \<not> is_digit c then Inl ErrSyntax
      else (let n' = 10 * n + digit_val c
            in if 2 ^ 64 \<le> n' then Inl ErrRange else parse_uint_loop n' cs))"

definition parse_uint :: "bytes \<Rightarrow> num_error + nat" where
  "parse_uint s = (if s = [] then Inl ErrSyntax else parse_uint_loop 0 s)"

definition parse_int :: "bytes \<Rightarrow> num_error + int" where
  "parse_int s =
     (case s of [] \<Rightarrow> Inl ErrSyntax
      | c # cs \<Rightarrow>
          (let neg = (c = CHR ''-''); digits = (if c = CHR ''+'' \<or> c = CHR ''-'' then cs else s)
           in res_bind (parse_uint digits) (\<lambda>un.
             if \<not> neg \<and> 2 ^ 63 \<le> un then Inl ErrRange
             else if neg \<and> 2 ^ 63 < un then Inl ErrRange
             else Inr (if neg then - int un else int un))))"

lemma format_nat_digits: "c \<in> set (format_nat n) \<Longrightarrow> is_digit c"
proof (induction n rule: format_nat.induct)
  case (1 n)
  then show ?case
    by (cases "n < 10") (auto simp: format_nat.simps [of n])
qed

lemma format_nat_nonempty [simp]: "format_nat n \<noteq> []"
  by (simp add: format_nat.simps)

lemma parse_uint_loop_append:
  "parse_uint_loop n (xs @ ys) = res_bind (parse_uint_loop n xs) (\<lambda>m. parse_uint_loop m ys)"
  by (induction n xs rule: parse_uint_loop.induct) (auto simp: Let_def)

lemma parse_uint_loop_format: "n < 2 ^ 64 \<Longrightarrow> parse_uint_loop 0 (format_nat n) = Inr n"
proof (induction n rule: format_nat.induct)
  case (1 n)
  show ?case
  proof (cases "n < 10")
    case True
    with 1 show ?thesis by (simp add: format_nat.simps [of n])
  next
    case False
    have "10 * (n div 10) + n mod 10 = n" by simp
    with 1 False show ?thesis
      by (simp add: format_nat.simps [of n] parse_uint_loop_append)
  qed
qed

lemma parse_int_format:
  assumes "- (2 ^ 63) \<le> i" and "i < 2 ^ 63"
  shows "parse_int (format_int i) = Inr i"
proof (cases "i < 0")
  case True
  then have "parse_uint (format_nat (nat (- i))) = Inr (nat (- i))"
    using assms by (simp add: parse_uint_def parse_uint_loop_format nat_less_iff)
  with True assms show ?thesis
    by (simp add: format_int_def parse_int_def nat_less_iff)
next
  case False
  then have p: "parse_uint (format_nat (nat i)) = Inr (nat i)"
    using assms by (simp add: parse_uint_def parse_uint_loop_format nat_less_iff)
  obtain c cs where f: "format_nat (nat i) = c # cs" by (cases "format_nat (nat i)") auto
  then have "is_digit c" using format_nat_digits [of c "nat i"] by simp
  then have "c \<noteq> CHR ''+''" "c \<noteq> CHR ''-''" by (auto simp: is_digit_def)
  with False p assms show ?thesis
    by (simp add: format_int_def parse_int_def f nat_le_iff le_nat_iff)
qed

lemma parse_uint_loop_bound: "parse_uint_loop n s = Inr m \<Longrightarrow> n < 2 ^ 64 \<Longrightarrow> m < 2 ^ 64"
  by (induction n s rule: parse_uint_loop.induct) (auto simp: Let_def split: if_splits)

lemma parse_int_bounds:
  "parse_int s = Inr i \<Longrightarrow> - (2 ^ 63) \<le> i \<and> i < 2 ^ 63"
  by (auto simp: parse_int_def Let_def res_bind_Inr_iff split: list.splits if_splits)

section \<open>Floating-point literals\<close>

text \<open>
  \<open>readFloat\<close> scans a mantissa of decimal (or, after \<open>0x\<close>, hexadecimal) digits with at most
  one dot, skipping underscores, then an optional exponent (mandatory in base 16). The scan
  keeps all digits: \<open>m\<close> is the integer they spell and \<open>fd\<close> how many came after the dot.
\<close>

definition is_hex_letter :: "char \<Rightarrow> bool" where
  "is_hex_letter c \<longleftrightarrow> (97 \<le> code c \<and> code c \<le> 102) \<or> (65 \<le> code c \<and> code c \<le> 70)"

definition hex_letter_val :: "char \<Rightarrow> nat" where
  "hex_letter_val c = code (ascii_lower c) - 97 + 10"

record mant_scan =
  ms_value :: nat
  ms_frac :: nat
  ms_digits :: bool
  ms_rest :: bytes

fun scan_mantissa :: "bool \<Rightarrow> bool \<Rightarrow> bool \<Rightarrow> nat \<Rightarrow> nat \<Rightarrow> bytes \<Rightarrow> mant_scan" where
  "scan_mantissa hex dot seen m fd [] = \<lparr>ms_value = m, ms_frac = fd, ms_digits = seen, ms_rest = []\<rparr>"
| "scan_mantissa hex dot seen m fd (c # cs) =
     (if c = CHR ''_'' then scan_mantissa hex dot seen m fd cs
      else if c = CHR ''.'' \<and> \<not> dot then scan_mantissa hex True seen m fd cs
      else if is_digit c
        then scan_mantissa hex dot True ((if hex then 16 else 10) * m + digit_val c) (if dot then fd + 1 else fd) cs
      else if hex \<and> is_hex_letter c
        then scan_mantissa hex dot True (16 * m + hex_letter_val c) (if dot then fd + 1 else fd) cs
      else \<lparr>ms_value = m, ms_frac = fd, ms_digits = seen, ms_rest = c # cs\<rparr>)"

text \<open>The exponent's digits: the accumulator stops growing at \<open>10000\<close>, as in the source.\<close>

fun scan_exponent :: "nat \<Rightarrow> bytes \<Rightarrow> nat \<times> bytes" where
  "scan_exponent e [] = (e, [])"
| "scan_exponent e (c # cs) =
     (if c = CHR ''_'' then scan_exponent e cs
      else if is_digit c then scan_exponent (if e < 10000 then 10 * e + digit_val c else e) cs
      else (e, c # cs))"

definition read_exponent :: "bytes \<Rightarrow> (int \<times> bytes) option" where
  "read_exponent cs =
     (case cs of [] \<Rightarrow> None
      | c # rest \<Rightarrow>
          (let ds = (if c = CHR ''+'' \<or> c = CHR ''-'' then rest else cs)
           in case ds of [] \<Rightarrow> None
              | d # _ \<Rightarrow> (if \<not> is_digit d then None
                         else (let (e, r) = scan_exponent 0 ds
                               in Some (if c = CHR ''-'' then - int e else int e, r)))))"

text \<open>\<open>underscoreOK\<close>: underscores only between digits, or between a base prefix and a digit.\<close>

datatype underscore_state = USBegin | USDigit | USUnder | USOther

fun underscore_scan :: "bool \<Rightarrow> underscore_state \<Rightarrow> bytes \<Rightarrow> bool" where
  "underscore_scan hex st [] = (st \<noteq> USUnder)"
| "underscore_scan hex st (c # cs) =
     (if is_digit c \<or> (hex \<and> is_hex_letter c) then underscore_scan hex USDigit cs
      else if c = CHR ''_'' then (st = USDigit \<and> underscore_scan hex USUnder cs)
      else (st \<noteq> USUnder \<and> underscore_scan hex USOther cs))"

definition strip_sign :: "bytes \<Rightarrow> bytes" where
  "strip_sign s = (case s of c # cs \<Rightarrow> (if c = CHR ''+'' \<or> c = CHR ''-'' then cs else s) | [] \<Rightarrow> [])"

definition underscore_ok :: "bytes \<Rightarrow> bool" where
  "underscore_ok s =
     (case strip_sign s of
        z # b # rest \<Rightarrow>
          (if z = CHR ''0'' \<and> ascii_lower b \<in> {CHR ''b'', CHR ''o'', CHR ''x''}
           then underscore_scan (ascii_lower b = CHR ''x'') USDigit rest
           else underscore_scan False USBegin (z # b # rest))
      | cs \<Rightarrow> underscore_scan False USBegin cs)"

text \<open>The value \<open>m * base ^ e\<close>, correctly rounded; \<open>ErrRange\<close> when it rounds to an infinity.\<close>

definition f64_of_literal :: "bool \<Rightarrow> int \<Rightarrow> int \<Rightarrow> int \<Rightarrow> num_error + f64" where
  "f64_of_literal neg m b e =
     (let v = (if 0 \<le> e then round_mag (m * b ^ nat e * f64_unit) 1 else round_mag (m * f64_unit) (b ^ nat (- e)))
      in if v = inf_mag then Inl ErrRange else Inr (mk_f64 neg v))"

definition special_float :: "bytes \<Rightarrow> f64 option" where
  "special_float s =
     (let t = map ascii_lower (strip_sign s); neg = (take 1 s = ''-'')
      in if t = ''inf'' \<or> t = ''infinity'' then Some (f64_inf neg)
         else if map ascii_lower s = ''nan'' then Some f64_nan else None)"

definition parse_float :: "bytes \<Rightarrow> num_error + f64" where
  "parse_float s =
     (case special_float s of Some x \<Rightarrow> Inr x
      | None \<Rightarrow>
          (let neg = (take 1 s = ''-''); body = strip_sign s;
               hex = (2 < length body \<and> body ! 0 = CHR ''0'' \<and> ascii_lower (body ! 1) = CHR ''x'');
               ms = scan_mantissa hex False False 0 0 (if hex then drop 2 body else body);
               under = (CHR ''_'' \<in> set s)
           in if \<not> ms_digits ms then Inl ErrSyntax
              else (case (case ms_rest ms of
                            [] \<Rightarrow> (if hex then None else Some (0, []))
                          | c # cs \<Rightarrow> (if ascii_lower c = (if hex then CHR ''p'' else CHR ''e'')
                                      then read_exponent cs else None)) of
                      None \<Rightarrow> Inl ErrSyntax
                    | Some (e, rest) \<Rightarrow>
                        (if rest \<noteq> [] \<or> (under \<and> \<not> underscore_ok s) then Inl ErrSyntax
                         else if hex then f64_of_literal neg (int (ms_value ms)) 2 (e - 4 * int (ms_frac ms))
                         else f64_of_literal neg (int (ms_value ms)) 10 (e - int (ms_frac ms))))))"

section \<open>Strings\<close>

text \<open>
  \<open>strings.ToLower\<close> maps ASCII letters; for a string with a non-ASCII byte it applies the
  Unicode tables, which are the parameter \<open>uni_lower\<close>.
\<close>

definition to_lower :: "(bytes \<Rightarrow> bytes) \<Rightarrow> bytes \<Rightarrow> bytes" where
  "to_lower uni_lower s = (if list_all is_ascii s then map ascii_lower s else uni_lower s)"

text \<open>\<open>strings.EqualFold\<close> on ASCII strings.\<close>

definition equal_fold :: "bytes \<Rightarrow> bytes \<Rightarrow> bool" where
  "equal_fold s t \<longleftrightarrow> map ascii_lower s = map ascii_lower t"

text \<open>The UTF-8 encodings of the characters of the Unicode property White Space.\<close>

definition byte_seq :: "nat list \<Rightarrow> bytes" where
  "byte_seq = map char_of"

definition space_encodings :: "bytes list" where
  "space_encodings = map byte_seq
     ([[9], [10], [11], [12], [13], [32], [194, 133], [194, 160], [225, 154, 128]]
      @ map (\<lambda>k. [226, 128, 128 + k]) [0, 1, 2, 3, 4, 5, 6, 7, 8, 9, 10, 40, 41, 47]
      @ [[226, 129, 159], [227, 128, 128]])"

definition strip_space_prefix :: "bytes \<Rightarrow> bytes option" where
  "strip_space_prefix s =
     map_option (\<lambda>w. drop (length w) s) (find (\<lambda>w. take (length w) s = w) space_encodings)"

lemma space_encodings_pos: "w \<in> set space_encodings \<Longrightarrow> 0 < length w"
  by (auto simp: space_encodings_def byte_seq_def)

lemma find_SomeD: "find P xs = Some w \<Longrightarrow> w \<in> set xs \<and> P w"
  by (induction xs) (auto split: if_splits)

lemma strip_space_prefix_shorter [dest]:
  assumes "strip_space_prefix s = Some t"
  shows "length t < length s"
proof -
  from assms obtain w where w: "w \<in> set space_encodings" "take (length w) s = w" "t = drop (length w) s"
    by (auto simp: strip_space_prefix_def dest!: find_SomeD)
  have pos: "0 < length w" using w(1) by (rule space_encodings_pos)
  have "length (take (length w) s) = length w" by (simp only: w(2))
  then have "length w \<le> length s" by (simp only: length_take min_def split: if_splits)
  then have "length s - length w < length s" using pos by arith
  with w(3) show ?thesis by simp
qed

function trim_left :: "bytes \<Rightarrow> bytes" where
  "trim_left s = (case strip_space_prefix s of None \<Rightarrow> s | Some t \<Rightarrow> trim_left t)"
  by pat_completeness auto
termination
  by (relation "measure length") auto

declare trim_left.simps [simp del]

definition strip_space_suffix :: "bytes \<Rightarrow> bytes option" where
  "strip_space_suffix s =
     map_option (\<lambda>w. take (length s - length w) s)
       (find (\<lambda>w. length w \<le> length s \<and> drop (length s - length w) s = w) space_encodings)"

lemma strip_space_suffix_shorter [dest]:
  assumes "strip_space_suffix s = Some t"
  shows "length t < length s"
proof -
  from assms obtain w where w: "w \<in> set space_encodings" "length w \<le> length s"
      "t = take (length s - length w) s"
    by (auto simp: strip_space_suffix_def dest!: find_SomeD)
  have "0 < length w" using w(1) by (rule space_encodings_pos)
  then have "length s - length w < length s" using w(2) by arith
  with w(3) show ?thesis by simp
qed

function trim_right :: "bytes \<Rightarrow> bytes" where
  "trim_right s = (case strip_space_suffix s of None \<Rightarrow> s | Some t \<Rightarrow> trim_right t)"
  by pat_completeness auto
termination
  by (relation "measure length") auto

declare trim_right.simps [simp del]

definition trim_space :: "bytes \<Rightarrow> bytes" where
  "trim_space s = trim_right (trim_left s)"

text \<open>\<open>strings.Cut\<close> at a one-byte separator, and \<open>strings.CutPrefix\<close>.\<close>

definition cut_at :: "bytes \<Rightarrow> byte \<Rightarrow> (bytes \<times> bytes) option" where
  "cut_at s c = map_option (\<lambda>i. (take i s, drop (i + 1) s)) (index_byte s c)"

definition cut_prefix :: "bytes \<Rightarrow> bytes \<Rightarrow> bytes option" where
  "cut_prefix s p = (if take (length p) s = p then Some (drop (length p) s) else None)"

section \<open>Comparison\<close>

text \<open>\<open>cmp.Compare\<close> on strings (bytewise lexicographic) and on signed integers.\<close>

definition cmp_ord :: "'a::linorder \<Rightarrow> 'a \<Rightarrow> int" where
  "cmp_ord x y = (if x < y then -1 else if y < x then 1 else 0)"

definition cmp_string :: "string \<Rightarrow> string \<Rightarrow> int" where
  "cmp_string s t = cmp_ord s t"

definition cmp_i64 :: "i64 \<Rightarrow> i64 \<Rightarrow> int" where
  "cmp_i64 x y = cmp_ord (sint x) (sint y)"

lemma cmp_ord_zero: "cmp_ord x y = 0 \<longleftrightarrow> x = y"
  by (auto simp: cmp_ord_def)

lemma cmp_ord_swap: "cmp_ord y x = - cmp_ord x y"
  by (auto simp: cmp_ord_def)

end
