(* ===== verification/Schema.thy ===== *)
theory Schema
  imports StrConv
begin

text \<open>
  \<open>internal/ingest/schema.go\<close> and the \<open>Value\<close> type of \<open>parser.go\<close>: column types and kinds,
  the schema, its JSON form and column inference from a header line.

  \<open>ColumnType\<close> and \<open>ColumnKind\<close> are Go integers with three named constants each; a schema file
  can hold any number, so both have a constructor for the values outside the constants.
\<close>

datatype column_type = TypeString | TypeInt64 | TypeFloat64 | TypeOther int

datatype column_kind = KindDimension | KindMeasure | KindIgnore | KindOther int

fun column_type_string :: "column_type \<Rightarrow> string" where
  "column_type_string TypeString = ''string''"
| "column_type_string TypeInt64 = ''int64''"
| "column_type_string TypeFloat64 = ''float64''"
| "column_type_string (TypeOther i) = ''ColumnType('' @ format_int i @ '')''"

fun column_kind_string :: "column_kind \<Rightarrow> string" where
  "column_kind_string KindDimension = ''dimension''"
| "column_kind_string KindMeasure = ''measure''"
| "column_kind_string KindIgnore = ''ignore''"
| "column_kind_string (KindOther i) = ''ColumnKind('' @ format_int i @ '')''"

record column_schema =
  cs_name :: string
  cs_type :: column_type
  cs_kind :: column_kind

record schema =
  delimiter :: byte
  has_header :: bool
  quote_aware :: bool
  columns :: "column_schema list"

definition nul :: byte where
  "nul = CHR 0x00"

definition empty_schema :: schema where
  "empty_schema = \<lparr>delimiter = nul, has_header = False, quote_aware = False, columns = []\<rparr>"

definition delimiter_or_default :: "schema \<Rightarrow> byte" where
  "delimiter_or_default s = (if delimiter s = nul then CHR '','' else delimiter s)"

section \<open>The tagged value of one field\<close>

record value_t =
  vtype :: column_type
  vstr :: string
  vi64 :: i64
  vf64 :: f64

definition zero_value :: value_t where
  "zero_value = \<lparr>vtype = TypeString, vstr = [], vi64 = 0, vf64 = f64_zero\<rparr>"

definition string_value :: "string \<Rightarrow> value_t" where
  "string_value s = zero_value\<lparr>vtype := TypeString, vstr := s\<rparr>"

definition int64_value :: "i64 \<Rightarrow> value_t" where
  "int64_value i = zero_value\<lparr>vtype := TypeInt64, vi64 := i\<rparr>"

definition float64_value :: "f64 \<Rightarrow> value_t" where
  "float64_value x = zero_value\<lparr>vtype := TypeFloat64, vf64 := x\<rparr>"

lemma value_simps [simp]:
  "vtype (string_value s) = TypeString" "vstr (string_value s) = s"
  "vtype (int64_value i) = TypeInt64" "vi64 (int64_value i) = i"
  "vtype (float64_value x) = TypeFloat64" "vf64 (float64_value x) = x"
  by (simp_all add: string_value_def int64_value_def float64_value_def)

section \<open>JSON form\<close>

text \<open>
  \<open>schemaJSON\<close> spells the delimiter as a string. \<open>string(s.Delimiter)\<close> converts a byte to the
  UTF-8 encoding of that code point: two bytes from \<open>0x80\<close> on.
\<close>

record schema_json =
  sj_delimiter :: bytes
  sj_has_header :: bool
  sj_quote_aware :: bool
  sj_columns :: "column_schema list"

datatype schema_error =
    ErrDelimiterLength bytes
  | ErrReadSchemaFile
  | ErrParseSchemaFile



definition unmarshal_schema :: "schema_json \<Rightarrow> schema_error + schema" where
  "unmarshal_schema raw =
     (if 1 < length (sj_delimiter raw) then Inl (ErrDelimiterLength (sj_delimiter raw))
      else Inr \<lparr>delimiter = (case sj_delimiter raw of [] \<Rightarrow> nul | b # _ \<Rightarrow> b),
                has_header = sj_has_header raw, quote_aware = sj_quote_aware raw,
                columns = sj_columns raw\<rparr>)"

text \<open>
  \<open>LoadSchemaFile\<close>: reading the file and decoding the JSON text are parameters (the operating
  system and \<open>encoding/json\<close>).
\<close>

definition load_schema_file ::
  "(string \<Rightarrow> bytes option) \<Rightarrow> (bytes \<Rightarrow> schema_json option) \<Rightarrow> string \<Rightarrow> schema_error + schema" where
  "load_schema_file read_file decode path =
     (case read_file path of
        None \<Rightarrow> Inl ErrReadSchemaFile
      | Some data \<Rightarrow>
          (case decode data of
             None \<Rightarrow> Inl ErrParseSchemaFile
           | Some raw \<Rightarrow>
               (case unmarshal_schema raw of Inl _ \<Rightarrow> Inl ErrParseSchemaFile | Inr s \<Rightarrow> Inr s)))"

section \<open>Inference from a header line\<close>

definition with_inferred_columns :: "schema \<Rightarrow> string list \<Rightarrow> schema" where
  "with_inferred_columns s header =
     (if columns s \<noteq> [] then s
      else s\<lparr>columns := map (\<lambda>name. \<lparr>cs_name = name, cs_type = TypeString, cs_kind = KindDimension\<rparr>) header\<rparr>)"

lemma with_inferred_columns_explicit [simp]:
  "columns s \<noteq> [] \<Longrightarrow> with_inferred_columns s header = s"
  by (simp add: with_inferred_columns_def)

lemma with_inferred_columns_frame [simp]:
  "delimiter (with_inferred_columns s h) = delimiter s"
  "has_header (with_inferred_columns s h) = has_header s"
  "quote_aware (with_inferred_columns s h) = quote_aware s"
  by (simp_all add: with_inferred_columns_def)

lemma delimiter_or_default_inferred [simp]:
  "delimiter_or_default (with_inferred_columns s h) = delimiter_or_default s"
  by (simp add: delimiter_or_default_def)

section \<open>Properties\<close>


end
