(* ===== verification/Source.thy ===== *)
theory Source
  imports Schema
begin

text \<open>
  \<open>internal/ingest/source.go\<close> and the line reader of \<open>parser.go\<close>.

  An \<open>io.Reader\<close> is the bytes it still delivers and whether it ends in an I/O error instead of
  end of file. A chunkable source is its size and a function from byte ranges to readers;
  \<open>file_source\<close> is \<open>FileSource\<close> over a file's contents. \<open>read_slice\<close> is \<open>bufio.Reader.ReadSlice\<close>
  with the buffer size explicit, and \<open>read_line\<close> is the code's loop over it.
\<close>

datatype io_error = EOF | UnexpectedEOF | BufferFull | IOFailure

record reader =
  rd_data :: bytes
  rd_fail :: bool

record chunk_source =
  cs_size :: "int option"
  cs_reader :: "int \<Rightarrow> int \<Rightarrow> io_error + reader"

text \<open>
  A source is chunkable (a local file) or a plain stream. Reading a chunkable source from the
  start is a reader too (\<open>Source\<close> embeds \<open>io.Reader\<close>).
\<close>

datatype source = Chunkable chunk_source reader | Stream reader

definition source_reader :: "source \<Rightarrow> reader" where
  "source_reader s = (case s of Chunkable _ r \<Rightarrow> r | Stream r \<Rightarrow> r)"

text \<open>\<open>io.NewSectionReader(f, offset, length)\<close> over the file's contents.\<close>

definition section_of :: "bytes \<Rightarrow> int \<Rightarrow> int \<Rightarrow> bytes" where
  "section_of content off len = take (nat len) (drop (nat off) content)"

definition file_chunk_reader :: "bytes \<Rightarrow> int \<Rightarrow> int \<Rightarrow> io_error + reader" where
  "file_chunk_reader content off len =
     Inr (if len \<le> 0 then \<lparr>rd_data = [], rd_fail = False\<rparr>
          else if off < 0 then \<lparr>rd_data = [], rd_fail = True\<rparr>
          else \<lparr>rd_data = section_of content off len, rd_fail = False\<rparr>)"

definition file_source :: "bytes \<Rightarrow> chunk_source" where
  "file_source content =
     \<lparr>cs_size = Some (int (length content)), cs_reader = file_chunk_reader content\<rparr>"

definition open_file :: "bytes \<Rightarrow> source" where
  "open_file content = Chunkable (file_source content) \<lparr>rd_data = content, rd_fail = False\<rparr>"

text \<open>\<open>NewStreamSource\<close>: a pipe or standard input, read to its end.\<close>

definition stream_source :: "bytes \<Rightarrow> source" where
  "stream_source content = Stream \<lparr>rd_data = content, rd_fail = False\<rparr>"

text \<open>\<open>io.ReadFull\<close>: the bytes read and the error, if fewer than \<open>n\<close> were there.\<close>

definition read_full :: "reader \<Rightarrow> nat \<Rightarrow> bytes \<times> io_error option" where
  "read_full r n =
     (take n (rd_data r),
      if n \<le> length (rd_data r) then None
      else if rd_fail r then Some IOFailure
      else if rd_data r = [] then Some EOF else Some UnexpectedEOF)"

section \<open>Lines\<close>

definition newline :: byte where
  "newline = CHR 0x0A"

definition carriage_return :: byte where
  "carriage_return = CHR 0x0D"

lemma newline_neq_cr [simp]: "newline \<noteq> carriage_return" "carriage_return \<noteq> newline"
  by (simp_all add: newline_def carriage_return_def)

record line_reader =
  lr_in :: reader
  lr_bufsize :: nat

definition default_buffer_size :: nat where
  "default_buffer_size = 2 ^ 20"

text \<open>\<open>bufio.NewReaderSize\<close> raises small sizes to its minimum of 16 bytes.\<close>

definition new_line_reader :: "reader \<Rightarrow> int \<Rightarrow> line_reader" where
  "new_line_reader r bufsize =
     \<lparr>lr_in = r, lr_bufsize = max 16 (if bufsize \<le> 0 then default_buffer_size else nat bufsize)\<rparr>"

definition consume :: "nat \<Rightarrow> line_reader \<Rightarrow> line_reader" where
  "consume k lr = lr\<lparr>lr_in := (lr_in lr)\<lparr>rd_data := drop k (rd_data (lr_in lr))\<rparr>\<rparr>"

lemma consume_simps [simp]:
  "rd_data (lr_in (consume k lr)) = drop k (rd_data (lr_in lr))"
  "rd_fail (lr_in (consume k lr)) = rd_fail (lr_in lr)"
  "lr_bufsize (consume k lr) = lr_bufsize lr"
  "consume j (consume k lr) = consume (j + k) lr"
  by (simp_all add: consume_def)

text \<open>
  \<open>ReadSlice\<close>: up to and including the first newline if it lies within the buffer; a full buffer
  without one is \<open>ErrBufferFull\<close>; the rest of the input with its final error otherwise.
\<close>

definition read_slice :: "line_reader \<Rightarrow> bytes \<times> io_error option \<times> line_reader" where
  "read_slice lr =
     (let d = rd_data (lr_in lr); b = lr_bufsize lr
      in case index_byte (take b d) newline of
           Some i \<Rightarrow> (take (i + 1) d, None, consume (i + 1) lr)
         | None \<Rightarrow> (if b \<le> length d then (take b d, Some BufferFull, consume b lr)
                    else (d, Some (if rd_fail (lr_in lr) then IOFailure else EOF), consume (length d) lr)))"

lemma read_slice_shorter:
  "read_slice lr = (ch, Some BufferFull, lr') \<Longrightarrow> 0 < lr_bufsize lr \<Longrightarrow>
     length (rd_data (lr_in lr')) < length (rd_data (lr_in lr)) \<and> lr_bufsize lr' = lr_bufsize lr"
  by (auto simp: read_slice_def Let_def split: option.splits if_splits)

text \<open>\<open>readLine\<close>'s loop: accumulate chunks until a newline, the end or an error.\<close>

function read_line_loop :: "bytes \<Rightarrow> line_reader \<Rightarrow> (io_error + bytes) \<times> line_reader" where
  "read_line_loop buf lr =
     (case read_slice lr of (chunk, err, lr') \<Rightarrow>
        (let buf' = buf @ chunk in
         case err of
           None \<Rightarrow> (Inr buf', lr')
         | Some BufferFull \<Rightarrow> (if lr_bufsize lr = 0 then (Inl BufferFull, lr') else read_line_loop buf' lr')
         | Some EOF \<Rightarrow> (if buf' = [] then (Inl EOF, lr') else (Inr buf', lr'))
         | Some e \<Rightarrow> (Inl e, lr')))"
  by pat_completeness auto
termination
  by (relation "measure (\<lambda>(buf, lr). length (rd_data (lr_in lr)))")
    (auto dest!: read_slice_shorter [OF sym])

declare read_line_loop.simps [simp del]

definition chop_last :: "byte \<Rightarrow> bytes \<Rightarrow> bytes" where
  "chop_last c line = (if line \<noteq> [] \<and> last line = c then butlast line else line)"

definition read_line :: "line_reader \<Rightarrow> (io_error + bytes) \<times> line_reader" where
  "read_line lr =
     (case read_line_loop [] lr of
        (Inl e, lr') \<Rightarrow> (Inl e, lr')
      | (Inr buf, lr') \<Rightarrow> (Inr (chop_last carriage_return (chop_last newline buf)), lr'))"

section \<open>The lines of a byte string\<close>

text \<open>
  The specification: what a line is, independently of any buffer. A final piece counts as a line
  only when it is not empty.
\<close>

function lines_of :: "bytes \<Rightarrow> bytes list" where
  "lines_of d =
     (case index_byte d newline of
        Some i \<Rightarrow> chop_last carriage_return (take i d) # lines_of (drop (Suc i) d)
      | None \<Rightarrow> (if d = [] then [] else [chop_last carriage_return d]))"
  by pat_completeness auto
termination
  by (relation "measure length") (auto dest: index_byte_lt)

declare lines_of.simps [simp del]

lemma chop_last_snoc [simp]: "chop_last c (xs @ [c]) = xs"
  by (simp add: chop_last_def)

lemma chop_last_notin [simp]: "c \<notin> set xs \<Longrightarrow> chop_last c xs = xs"
  by (auto simp: chop_last_def)

lemma lines_of_Nil [simp]: "lines_of [] = []"
  by (simp add: lines_of.simps)

lemma lines_of_line:
  "newline \<notin> set l \<Longrightarrow> lines_of (l @ newline # rest) = chop_last carriage_return l # lines_of rest"
  by (subst lines_of.simps) simp

lemma lines_of_last: "newline \<notin> set l \<Longrightarrow> l \<noteq> [] \<Longrightarrow> lines_of l = [chop_last carriage_return l]"
  by (subst lines_of.simps) simp

text \<open>Splitting the data after a newline splits the lines.\<close>

lemma lines_of_append:
  assumes "xs = [] \<or> last xs = newline"
  shows "lines_of (xs @ ys) = lines_of xs @ lines_of ys"
  using assms
proof (induction xs rule: lines_of.induct)
  case (1 xs)
  show ?case
  proof (cases "index_byte xs newline")
    case None
    then have "xs = []" using 1(2) by (cases xs rule: rev_cases) (auto simp: index_byte_None)
    then show ?thesis by simp
  next
    case (Some i)
    define l r where "l = take i xs" and "r = drop (Suc i) xs"
    have xs: "xs = l @ newline # r" and l: "newline \<notin> set l"
      using index_byte_split [OF Some] by (simp_all add: l_def r_def)
    have "r = [] \<or> last r = newline" using 1(2) by (auto simp: xs split: if_splits)
    then have "lines_of (r @ ys) = lines_of r @ lines_of ys"
      using 1(1) [OF Some] by (simp add: r_def)
    then show ?thesis using l by (simp add: xs lines_of_line)
  qed
qed

section \<open>The reader delivers the lines\<close>

text \<open>What \<open>read_line_loop\<close> returns, whatever the buffer size.\<close>

lemma read_line_loop_spec:
  assumes "0 < lr_bufsize lr"
  shows "read_line_loop buf lr =
     (case index_byte (rd_data (lr_in lr)) newline of
        Some i \<Rightarrow> (Inr (buf @ take (i + 1) (rd_data (lr_in lr))), consume (i + 1) lr)
      | None \<Rightarrow> (if rd_fail (lr_in lr) then Inl IOFailure
                 else if buf @ rd_data (lr_in lr) = [] then Inl EOF
                 else Inr (buf @ rd_data (lr_in lr)), consume (length (rd_data (lr_in lr))) lr))"
  using assms
proof (induction buf lr rule: read_line_loop.induct)
  case (1 buf lr)
  define d b where "d = rd_data (lr_in lr)" and "b = lr_bufsize lr"
  note unfold = read_line_loop.simps [of buf lr] read_slice_def d_def [symmetric] b_def [symmetric] Let_def
  show ?case
  proof (cases "index_byte (take b d) newline")
    case (Some i)
    moreover from this have "index_byte d newline = Some i" by (rule index_byte_take)
    ultimately show ?thesis by (simp add: unfold)
  next
    case None
    then have notin: "newline \<notin> set (take b d)" by (simp add: index_byte_None)
    show ?thesis
    proof (cases "b \<le> length d")
      case False
      then have "index_byte d newline = None" using None by simp
      with None False show ?thesis by (simp add: unfold)
    next
      case True
      have sl: "read_slice lr = (take b d, Some BufferFull, consume b lr)"
        using None True by (simp add: read_slice_def d_def b_def Let_def)
      have idx: "index_byte d newline = map_option (\<lambda>i. i + b) (index_byte (drop b d) newline)"
        using index_byte_append_notin [OF notin, of "drop b d"] True by (simp add: min_absorb2)
      have "read_line_loop buf lr = read_line_loop (buf @ take b d) (consume b lr)"
        using 1(2) sl by (simp add: read_line_loop.simps [of buf lr] Let_def)
      also have "\<dots> = (case index_byte (drop b d) newline of
          Some i \<Rightarrow> (Inr ((buf @ take b d) @ take (i + 1) (drop b d)), consume (i + 1 + b) lr)
        | None \<Rightarrow> (if rd_fail (lr_in lr) then Inl IOFailure else if buf @ d = [] then Inl EOF
                   else Inr (buf @ d), consume (length d) lr))"
        using 1(1) [OF sl [symmetric] refl refl refl] 1(2) sl True
        by (cases "index_byte (drop b d) newline") (simp_all add: d_def [symmetric])
      finally show ?thesis
        using True by (cases "index_byte (drop b d) newline")
          (simp_all add: idx d_def [symmetric] take_add [of b, symmetric] add.commute)
    qed
  qed
qed

text \<open>
  \<open>readLine\<close> returns the same line and leaves the same input behind for every buffer size: the
  growing accumulation buffer makes line length independent of \<open>bufio\<close>'s limit.
\<close>

theorem read_line_spec:
  assumes "0 < lr_bufsize lr"
  shows "read_line lr =
     (case index_byte (rd_data (lr_in lr)) newline of
        Some i \<Rightarrow> (Inr (chop_last carriage_return (take i (rd_data (lr_in lr)))), consume (i + 1) lr)
      | None \<Rightarrow> (if rd_fail (lr_in lr) then Inl IOFailure
                 else if rd_data (lr_in lr) = [] then Inl EOF
                 else Inr (chop_last carriage_return (rd_data (lr_in lr))),
                 consume (length (rd_data (lr_in lr))) lr))"
proof (cases "index_byte (rd_data (lr_in lr)) newline")
  case None
  then show ?thesis
    using assms by (simp add: read_line_def read_line_loop_spec index_byte_None)
next
  case (Some i)
  then have "take (i + 1) (rd_data (lr_in lr)) = take i (rd_data (lr_in lr)) @ [newline]"
    by (simp add: index_byte_Some take_Suc_conv_app_nth)
  with Some show ?thesis
    using assms by (simp add: read_line_def read_line_loop_spec)
qed

text \<open>Reading lines one by one until end of file: the loop of every consumer of a line reader.\<close>

function read_lines :: "line_reader \<Rightarrow> bytes list" where
  "read_lines lr =
     (case read_line lr of
        (Inr l, lr') \<Rightarrow>
          (if length (rd_data (lr_in lr')) < length (rd_data (lr_in lr)) then l # read_lines lr' else [l])
      | (Inl _, _) \<Rightarrow> [])"
  by pat_completeness auto
termination
  by (relation "measure (\<lambda>lr. length (rd_data (lr_in lr)))") auto

declare read_lines.simps [simp del]

lemma read_lines_lines_of:
  "0 < lr_bufsize lr \<Longrightarrow> \<not> rd_fail (lr_in lr) \<Longrightarrow> read_lines lr = lines_of (rd_data (lr_in lr))"
proof (induction lr rule: read_lines.induct)
  case (1 lr)
  show ?case
  proof (cases "index_byte (rd_data (lr_in lr)) newline")
    case None
    with 1(2,3) show ?thesis
      by (simp add: read_lines.simps [of lr] read_line_spec Let_def lines_of.simps [of "rd_data (lr_in lr)"])
        (simp add: read_lines.simps read_line_spec)
  next
    case (Some i)
    then have "i < length (rd_data (lr_in lr))" by (rule index_byte_lt)
    with 1 Some show ?thesis
      by (simp add: read_lines.simps [of lr] read_line_spec Let_def lines_of.simps [of "rd_data (lr_in lr)"])
  qed
qed

text \<open>One call of \<open>readLine\<close> on a reader without I/O error, in terms of the remaining lines.\<close>

lemma read_line_end:
  "0 < lr_bufsize lr \<Longrightarrow> \<not> rd_fail (lr_in lr) \<Longrightarrow> lines_of (rd_data (lr_in lr)) = [] \<Longrightarrow>
     read_line lr = (Inl EOF, consume (length (rd_data (lr_in lr))) lr)"
  by (subst (asm) lines_of.simps) (auto simp: read_line_spec split: option.splits if_splits)

lemma read_line_more:
  assumes "0 < lr_bufsize lr" and "\<not> rd_fail (lr_in lr)" and "lines_of (rd_data (lr_in lr)) = l # ls"
  shows "\<exists>k. read_line lr = (Inr l, consume k lr) \<and> lines_of (drop k (rd_data (lr_in lr))) = ls"
  using assms unfolding lines_of.simps [of "rd_data (lr_in lr)"]
  by (auto simp: read_line_spec split: option.splits if_splits)

text \<open>A line read always consumes input.\<close>

lemma read_line_loop_shorter:
  "read_line_loop buf lr = (Inr l, lr') \<Longrightarrow> buf = [] \<Longrightarrow> length (rd_data (lr_in lr')) < length (rd_data (lr_in lr))"
proof (cases "lr_bufsize lr = 0")
  case True
  then show "read_line_loop buf lr = (Inr l, lr') \<Longrightarrow> ?thesis"
    by (simp add: read_line_loop.simps [of buf lr] read_slice_def)
next
  case False
  then show "read_line_loop buf lr = (Inr l, lr') \<Longrightarrow> buf = [] \<Longrightarrow> ?thesis"
    by (auto simp: read_line_loop_spec split: option.splits if_splits dest!: index_byte_lt)
qed

lemma read_line_shorter [dest]:
  "read_line lr = (Inr l, lr') \<Longrightarrow> length (rd_data (lr_in lr')) < length (rd_data (lr_in lr))"
  by (auto simp: read_line_def split: prod.splits sum.splits dest: read_line_loop_shorter)

lemma read_line_keeps:
  assumes "read_line lr = (res, lr')" and "0 < lr_bufsize lr"
  shows "lr_bufsize lr' = lr_bufsize lr" and "rd_fail (lr_in lr') = rd_fail (lr_in lr)"
    and "length (rd_data (lr_in lr')) \<le> length (rd_data (lr_in lr))"
  using assms by (auto simp: read_line_spec split: option.splits if_splits)

end
