(* ===== verification/Chunk.thy ===== *)
theory Chunk
  imports Source
begin

text \<open>
  \<open>internal/ingest/chunk.go\<close>: planning byte ranges and aligning them to line boundaries.

  Offsets and lengths are \<open>int\<close>: for sizes up to \<open>2^63 - 1 - probe_window\<close> every value the code
  computes lies in the range of \<open>int64\<close>, so nothing wraps (the planning theorem bounds offsets and
  lengths by the size).
\<close>

record chunk =
  ck_offset :: int
  ck_length :: int

datatype chunk_error =
    ErrUnknownSize
  | ErrChunkReader io_error
  | ErrProbe io_error

section \<open>PlanChunks\<close>

text \<open>The loop \<open>for i := 0; i < n; i++\<close>; the argument counts the iterations left.\<close>

fun plan_loop :: "int \<Rightarrow> int \<Rightarrow> nat \<Rightarrow> int \<Rightarrow> chunk list" where
  "plan_loop sz base 0 offset = []"
| "plan_loop sz base (Suc left) offset =
     (let len = (if left = 0 then sz - offset else base)
      in \<lparr>ck_offset = offset, ck_length = len\<rparr> # plan_loop sz base left (offset + len))"

definition plan_chunks :: "int \<Rightarrow> int \<Rightarrow> chunk list" where
  "plan_chunks sz n =
     (let n = (if n < 1 then 1 else n)
      in if sz \<le> 0 then [\<lparr>ck_offset = 0, ck_length = 0\<rparr>]
         else plan_loop sz (sz div n) (nat n) 0)"

section \<open>AlignChunks\<close>

definition probe_window :: int where
  "probe_window = 64 * 1024"

lemma probe_window_pos [simp]: "0 < probe_window" "0 \<le> probe_window"
  by (simp_all add: probe_window_def)

text \<open>
  The probe loop of \<open>findNextNewline\<close>, one window per iteration. A failing \<open>ChunkReader\<close> or a read
  error other than a short read ends it.
\<close>

function probe_loop :: "chunk_source \<Rightarrow> int \<Rightarrow> int \<Rightarrow> chunk_error + int" where
  "probe_loop src pos sz =
     (if sz \<le> pos then Inr sz
      else (let len = min probe_window (sz - pos)
            in case cs_reader src pos len of
                 Inl e \<Rightarrow> Inl (ErrChunkReader e)
               | Inr r \<Rightarrow>
                   (case read_full r (nat len) of (got, err) \<Rightarrow>
                      (if err = Some IOFailure then Inl (ErrProbe IOFailure)
                       else (case index_byte got newline of
                               Some i \<Rightarrow> Inr (pos + int i + 1)
                             | None \<Rightarrow> probe_loop src (pos + probe_window) sz)))))"
  by pat_completeness auto
termination
  by (relation "measure (\<lambda>(src, pos, sz). nat (sz - pos))") (auto simp: probe_window_def)

declare probe_loop.simps [simp del]

definition find_next_newline :: "chunk_source \<Rightarrow> int \<Rightarrow> int \<Rightarrow> chunk_error + int" where
  "find_next_newline src from sz = (if sz \<le> from then Inr sz else probe_loop src from sz)"

fun align_loop :: "chunk_source \<Rightarrow> int \<Rightarrow> int \<Rightarrow> chunk list \<Rightarrow> chunk_error + chunk list" where
  "align_loop src sz start [] = Inr []"
| "align_loop src sz start (c # cs) =
     res_bind (if cs = [] then Inr sz
               else find_next_newline src (ck_offset c + ck_length c) sz)
       (\<lambda>stop. res_bind (align_loop src sz stop cs)
         (\<lambda>rest. Inr (\<lparr>ck_offset = start, ck_length = stop - start\<rparr> # rest)))"

definition align_chunks :: "chunk_source \<Rightarrow> chunk list \<Rightarrow> chunk_error + chunk list" where
  "align_chunks src chunks =
     (if length chunks \<le> 1 then Inr chunks
      else (case cs_size src of
              None \<Rightarrow> Inl ErrUnknownSize
            | Some sz \<Rightarrow> align_loop src sz (ck_offset (hd chunks)) chunks))"

section \<open>Tilings of a byte range\<close>

text \<open>The chunks are adjacent, in order, without overlap, and cover exactly \<open>[a, b)\<close>.\<close>

fun tiles :: "int \<Rightarrow> chunk list \<Rightarrow> int \<Rightarrow> bool" where
  "tiles a [] b = (a = b)"
| "tiles a (c # cs) b =
     (ck_offset c = a \<and> 0 \<le> ck_length c \<and> tiles (a + ck_length c) cs b)"

lemma tiles_le: "tiles a cs b \<Longrightarrow> a \<le> b"
  by (induction cs arbitrary: a) force+

lemma tiles_member:
  "tiles a cs b \<Longrightarrow> c \<in> set cs \<Longrightarrow> a \<le> ck_offset c \<and> 0 \<le> ck_length c \<and> ck_offset c + ck_length c \<le> b"
proof (induction cs arbitrary: a)
  case Nil
  then show ?case by simp
next
  case (Cons d cs)
  have "a + ck_length d \<le> b" using Cons.prems(1) tiles_le by auto
  with Cons show ?case by fastforce
qed

text \<open>The sections of a tiling, concatenated, are the tiled range.\<close>

lemma section_of_append:
  "0 \<le> off \<Longrightarrow> 0 \<le> l \<Longrightarrow> 0 \<le> k \<Longrightarrow>
     section_of s off l @ section_of s (off + l) k = section_of s off (l + k)"
  by (simp add: section_of_def nat_add_distrib take_add add.commute [of "nat off"])

lemma tiles_concat:
  "tiles a cs b \<Longrightarrow> 0 \<le> a \<Longrightarrow>
     concat (map (\<lambda>c. section_of s (ck_offset c) (ck_length c)) cs) = section_of s a (b - a)"
proof (induction cs arbitrary: a)
  case Nil
  then show ?case by (simp add: section_of_def)
next
  case (Cons c cs)
  have "a + ck_length c \<le> b" using Cons.prems(1) tiles_le by auto
  then show ?case
    using Cons.prems Cons.IH [of "a + ck_length c"]
      section_of_append [of a "ck_length c" "b - (a + ck_length c)" s] by simp
qed

section \<open>Planning\<close>

lemma plan_loop_length [simp]: "length (plan_loop sz base k offset) = k"
  by (induction sz base k offset rule: plan_loop.induct) (auto simp: Let_def)

lemma plan_loop_tiles:
  "0 \<le> base \<Longrightarrow> 0 < k \<Longrightarrow> offset + int k * base \<le> sz \<Longrightarrow> tiles offset (plan_loop sz base k offset) sz"
proof (induction sz base k offset rule: plan_loop.induct)
  case (2 sz base left offset)
  show ?case
  proof (cases "left = 0")
    case True
    then show ?thesis using 2 by (simp add: Let_def)
  next
    case False
    then show ?thesis using 2 by (simp add: Let_def algebra_simps)
  qed
qed simp

lemma plan_chunks_loop:
  "0 < sz \<Longrightarrow> plan_chunks sz n = plan_loop sz (sz div max 1 n) (nat (max 1 n)) 0"
  by (auto simp: plan_chunks_def Let_def max_def)

lemma plan_chunks_tiling: "tiles 0 (plan_chunks sz n) (max 0 sz)"
proof (cases "sz \<le> 0")
  case True
  then show ?thesis by (simp add: plan_chunks_def)
next
  case False
  define m where "m = max 1 n"
  have m: "1 \<le> m" by (auto simp: m_def)
  have "m * (sz div m) \<le> sz" using m False
    by (metis mult.commute div_mult_mod_eq le_add_same_cancel1 pos_mod_sign zero_less_one_class.zero_less_one order_less_le_trans)
  then have "tiles 0 (plan_loop sz (sz div m) (nat m) 0) sz"
    using m False by (intro plan_loop_tiles) (auto simp: pos_imp_zdiv_nonneg_iff)
  with False show ?thesis by (simp add: plan_chunks_loop m_def)
qed

lemma plan_loop_balanced:
  "c \<in> set (butlast (plan_loop sz base k offset)) \<Longrightarrow> ck_length c = base"
  by (induction sz base k offset rule: plan_loop.induct) (auto simp: Let_def split: if_splits)

text \<open>
  \<open>PlanChunks\<close> returns at least one chunk, exactly \<open>n\<close> when the size is positive; the chunks are
  adjacent ranges covering the whole source, and all but the last are \<open>size / n\<close> bytes long.
\<close>

theorem plan_chunks_tiles:
  "tiles 0 (plan_chunks sz n) (max 0 sz)
     \<and> length (plan_chunks sz n) = (if sz \<le> 0 then 1 else nat (max 1 n))
     \<and> list_all (\<lambda>c. ck_length c = sz div max 1 n) (butlast (plan_chunks sz n))"
proof (cases "sz \<le> 0")
  case True
  then show ?thesis by (simp add: plan_chunks_def)
next
  case False
  then show ?thesis
    using plan_chunks_tiling [of sz n]
    by (auto simp: plan_chunks_loop list_all_iff dest: plan_loop_balanced)
qed

section \<open>Finding the next line start\<close>

text \<open>
  The specification: one past the first newline at or after \<open>from\<close>, or the end of the data.
\<close>

definition next_line_start :: "bytes \<Rightarrow> nat \<Rightarrow> nat" where
  "next_line_start s from =
     (case index_byte (drop from s) newline of Some i \<Rightarrow> from + i + 1 | None \<Rightarrow> length s)"

lemma next_line_start_bounds: "from \<le> length s \<Longrightarrow> from \<le> next_line_start s from \<and> next_line_start s from \<le> length s"
  by (auto simp: next_line_start_def split: option.splits dest!: index_byte_lt)

lemma next_line_start_skip:
  assumes "newline \<notin> set (take w (drop from s))"
  shows "next_line_start s from = next_line_start s (from + w)"
proof -
  have split: "drop from s = take w (drop from s) @ drop (from + w) s"
    by (metis add.commute append_take_drop_id drop_drop)
  have "index_byte (drop from s) newline
      = map_option (\<lambda>i. i + length (take w (drop from s))) (index_byte (drop (from + w) s) newline)"
    by (subst split) (rule index_byte_append_notin [OF assms])
  then show ?thesis
    by (cases "index_byte (drop (from + w) s) newline")
      (auto simp: next_line_start_def min_def dest!: index_byte_lt)
qed

lemma probe_loop_file:
  assumes "0 \<le> pos"
  shows "probe_loop (file_source s) pos (int (length s)) = Inr (int (next_line_start s (nat pos)))"
  using assms
proof (induction "file_source s" pos "int (length s)" rule: probe_loop.induct)
  case (1 pos)
  show ?case
  proof (cases "int (length s) \<le> pos")
    case True
    then show ?thesis
      using 1 by (simp add: probe_loop.simps next_line_start_def)
  next
    case False
    define len where "len = min probe_window (int (length s) - pos)"
    define got where "got = take (nat len) (drop (nat pos) s)"
    have len: "0 < len" "nat len \<le> length s - nat pos"
      using False 1(2) by (auto simp: len_def)
    have rd: "cs_reader (file_source s) pos len = Inr \<lparr>rd_data = got, rd_fail = False\<rparr>"
      using len 1(2) by (simp add: file_source_def file_chunk_reader_def section_of_def got_def)
    have full: "read_full \<lparr>rd_data = got, rd_fail = False\<rparr> (nat len) = (got, None)"
      using len by (simp add: read_full_def got_def min_absorb2)
    show ?thesis
    proof (cases "index_byte got newline")
      case (Some i)
      then have "index_byte (drop (nat pos) s) newline = Some i"
        unfolding got_def by (rule index_byte_take)
      with Some rd full False 1(2) show ?thesis
        by (simp add: probe_loop.simps [of _ pos] len_def [symmetric] Let_def next_line_start_def)
    next
      case None
      have "probe_loop (file_source s) pos (int (length s))
          = probe_loop (file_source s) (pos + probe_window) (int (length s))"
        using None rd full False
        by (simp add: probe_loop.simps [of _ pos] len_def [symmetric] Let_def)
      also have "\<dots> = Inr (int (next_line_start s (nat (pos + probe_window))))"
        using 1(1) [OF False len_def rd full [symmetric] _ None] 1(2) by (simp add: len_def)
      also have "next_line_start s (nat (pos + probe_window)) = next_line_start s (nat pos)"
      proof (cases "len = probe_window")
        case True
        then show ?thesis
          using None 1(2) next_line_start_skip [of "nat probe_window" "nat pos" s]
          by (simp add: got_def index_byte_None nat_add_distrib)
      next
        case False
        then have "length s \<le> nat (pos + probe_window)" "got = drop (nat pos) s"
          using len by (auto simp: len_def got_def min_def split: if_splits)
        then show ?thesis
          using None by (simp add: next_line_start_def)
      qed
      finally show ?thesis .
    qed
  qed
qed

lemma find_next_newline_file:
  assumes "0 \<le> from"
  shows "find_next_newline (file_source s) from (int (length s))
           = Inr (int (next_line_start s (nat from)))"
  using assms probe_loop_file [OF assms, of s]
  by (auto simp: find_next_newline_def next_line_start_def)

text \<open>
  On a file, \<open>findNextNewline\<close> succeeds, however many probe windows it needs, and its result \<open>k\<close> is
  at or after the given offset; the byte before it is the first newline from the offset on, or there is
  no newline from the offset on and \<open>k\<close> is the size.
\<close>

theorem find_next_newline_correct:
  assumes "from \<le> length s"
  shows "\<exists>k. find_next_newline (file_source s) (int from) (int (length s)) = Inr (int k)
    \<and> from \<le> k \<and> k \<le> length s
    \<and> (if newline \<in> set (drop from s)
       then from < k \<and> s ! (k - 1) = newline \<and> newline \<notin> set (take (k - 1 - from) (drop from s))
       else k = length s)"
proof (intro exI conjI)
  show "find_next_newline (file_source s) (int from) (int (length s)) = Inr (int (next_line_start s from))"
    by (simp add: find_next_newline_file)
qed (use assms in \<open>auto simp: next_line_start_def index_byte_None index_byte_Some split: option.splits\<close>)

theorem find_next_newline_correct_witness:
  "\<exists>k. find_next_newline (file_source ''ab'') 1 2 = Inr (int k) \<and> k = 2"
  using find_next_newline_correct [of 1 "''ab''"] by (auto simp: newline_def)

section \<open>Aligned chunks\<close>

text \<open>Offsets at which a line begins (the end of the data included).\<close>

definition line_start :: "bytes \<Rightarrow> nat \<Rightarrow> bool" where
  "line_start s k \<longleftrightarrow> k = 0 \<or> k = length s \<or> (k < length s \<and> s ! (k - 1) = newline)"

lemma line_start_next: "from \<le> length s \<Longrightarrow> line_start s (next_line_start s from)"
  by (auto simp: line_start_def next_line_start_def index_byte_Some split: option.splits)

lemma next_line_start_mono:
  assumes "a \<le> b" and "b \<le> length s"
  shows "next_line_start s a \<le> next_line_start s b"
proof (cases "newline \<in> set (take (b - a) (drop a s))")
  case False
  then show ?thesis using next_line_start_skip [of "b - a" a s] assms by simp
next
  case True
  then have "newline \<in> set (drop a s)" by (rule in_set_takeD)
  then obtain i where i: "index_byte (drop a s) newline = Some i"
    using index_byte_None [of "drop a s" newline] by (cases "index_byte (drop a s) newline") auto
  have "i < b - a"
  proof (rule ccontr)
    assume "\<not> i < b - a"
    then have "set (take (b - a) (drop a s)) \<subseteq> set (take i (drop a s))"
      by (intro set_take_subset_set_take) simp
    then show False using True index_byte_split(2) [OF i] by blast
  qed
  then have "next_line_start s a \<le> b" using i by (simp add: next_line_start_def)
  then show ?thesis using next_line_start_bounds [of b s] assms by linarith
qed

lemma next_line_start_pos: "s \<noteq> [] \<Longrightarrow> 0 < next_line_start s k"
  by (auto simp: next_line_start_def split: option.splits)

lemma align_loop_file:
  assumes "tiles a cs (int (length s))" and "cs \<noteq> []" and "0 \<le> a" and "0 \<le> start"
    and "start \<le> int (next_line_start s (nat a))" and "line_start s (nat start)"
  shows "\<exists>cs'. align_loop (file_source s) (int (length s)) start cs = Inr cs' \<and> length cs' = length cs
    \<and> tiles start cs' (int (length s)) \<and> (\<forall>c \<in> set cs'. line_start s (nat (ck_offset c)))
    \<and> (start = 0 \<longrightarrow> s \<noteq> [] \<longrightarrow> 0 < ck_length (hd cs'))"
  using assms
proof (induction cs arbitrary: a start)
  case Nil
  then show ?case by simp
next
  case (Cons c cs)
  define stop where "stop = (if cs = [] then length s else next_line_start s (nat (a + ck_length c)))"
  have a: "a \<le> a + ck_length c" "a + ck_length c \<le> int (length s)"
    using Cons.prems(1) tiles_le [of "a + ck_length c" cs] by auto
  then have al: "nat a \<le> nat (a + ck_length c)" "nat (a + ck_length c) \<le> length s"
    using Cons.prems(3) by auto
  have step: "(if cs = [] then Inr (int (length s))
      else find_next_newline (file_source s) (ck_offset c + ck_length c) (int (length s))) = Inr (int stop)"
    using Cons.prems(1,3) a by (simp add: stop_def find_next_newline_file)
  have le: "start \<le> int stop"
    using Cons.prems(5) al next_line_start_mono [OF al] next_line_start_bounds [of "nat a" s]
    by (auto simp: stop_def)
  have pos: "s \<noteq> [] \<Longrightarrow> 0 < stop" by (simp add: stop_def next_line_start_pos)
  show ?case
  proof (cases "cs = []")
    case True
    then show ?thesis using step le Cons.prems(6) by (simp add: stop_def)
  next
    case False
    have "tiles (a + ck_length c) cs (int (length s))" using Cons.prems(1) by simp
    then obtain cs' where cs': "align_loop (file_source s) (int (length s)) (int stop) cs = Inr cs'"
        "length cs' = length cs" "tiles (int stop) cs' (int (length s))"
        "\<forall>c \<in> set cs'. line_start s (nat (ck_offset c))"
      using Cons.IH [of "a + ck_length c" "int stop"] False Cons.prems(3) a al
      by (auto simp: stop_def line_start_next)
    then show ?thesis
      using step False le pos Cons.prems(6) by simp
  qed
qed

lemma align_chunks_file:
  assumes "tiles 0 chunks (int (length s))" and "chunks \<noteq> []"
  shows "\<exists>cs. align_chunks (file_source s) chunks = Inr cs \<and> length cs = length chunks
    \<and> tiles 0 cs (int (length s)) \<and> (\<forall>c \<in> set cs. line_start s (nat (ck_offset c)))
    \<and> (s \<noteq> [] \<longrightarrow> 0 < ck_length (hd cs))"
proof (cases "length chunks \<le> 1")
  case True
  then show ?thesis
    using assms by (cases chunks) (auto simp: align_chunks_def line_start_def)
next
  case False
  then have "ck_offset (hd chunks) = 0" using assms by (cases chunks; auto)
  then show ?thesis
    using align_loop_file [OF assms, of 0] False
    by (simp add: align_chunks_def file_source_def line_start_def [of s 0])
qed

text \<open>
  Aligning a tiling of a file succeeds and gives a tiling with as many chunks, each beginning at
  the start of a line: no chunk ever splits a row.
\<close>

theorem align_chunks_correct:
  assumes "tiles 0 chunks (int (length s))"
  shows "\<exists>cs. align_chunks (file_source s) chunks = Inr cs \<and> length cs = length chunks
    \<and> tiles 0 cs (int (length s)) \<and> (\<forall>c \<in> set cs. line_start s (nat (ck_offset c)))"
proof (cases "chunks = []")
  case True
  then show ?thesis using assms by (auto simp: align_chunks_def)
next
  case False
  then show ?thesis using align_chunks_file [OF assms] by auto
qed

theorem align_chunks_correct_witness:
  "\<exists>cs. align_chunks (file_source ''abc'') [\<lparr>ck_offset = 0, ck_length = 1\<rparr>, \<lparr>ck_offset = 1, ck_length = 2\<rparr>]
     = Inr cs \<and> length cs = 2"
  using align_chunks_correct [of "[\<lparr>ck_offset = 0, ck_length = 1\<rparr>, \<lparr>ck_offset = 1, ck_length = 2\<rparr>]" "''abc''"]
  by auto

text \<open>The lines of an aligned tiling, chunk after chunk, are the lines of the data.\<close>

lemma lines_of_section:
  assumes "0 \<le> a" and "0 \<le> l" and "a + l \<le> int (length s)" and "line_start s (nat (a + l))"
  shows "lines_of (drop (nat a) s) = lines_of (section_of s a l) @ lines_of (drop (nat (a + l)) s)"
proof -
  have split: "drop (nat a) s = section_of s a l @ drop (nat (a + l)) s"
    using assms by (simp add: section_of_def nat_add_distrib add.commute [of "nat a"] flip: drop_drop)
  show ?thesis
  proof (cases "nat (a + l) = length s")
    case True
    then show ?thesis by (simp add: split)
  next
    case False
    have "section_of s a l = [] \<or> last (section_of s a l) = newline"
    proof (cases "l = 0")
      case True
      then show ?thesis by (simp add: section_of_def)
    next
      case nz: False
      then have "s ! (nat (a + l) - 1) = newline"
        using assms False by (auto simp: line_start_def)
      then show ?thesis
        using nz assms by (simp add: section_of_def last_conv_nth nat_add_distrib)
    qed
    then show ?thesis by (subst split) (rule lines_of_append)
  qed
qed

lemma lines_of_tiles:
  assumes "tiles a cs (int (length s))" and "0 \<le> a" and "\<forall>c \<in> set cs. line_start s (nat (ck_offset c))"
  shows "concat (map (\<lambda>c. lines_of (section_of s (ck_offset c) (ck_length c))) cs) = lines_of (drop (nat a) s)"
  using assms
proof (induction cs arbitrary: a)
  case Nil
  then show ?case by simp
next
  case (Cons c cs)
  have next_start: "line_start s (nat (a + ck_length c))"
    using Cons.prems by (cases cs) (auto simp: line_start_def)
  have "a + ck_length c \<le> int (length s)" using Cons.prems(1) tiles_le by auto
  then show ?case
    using Cons.prems Cons.IH [of "a + ck_length c"] lines_of_section [of a "ck_length c" s] next_start
    by simp
qed

lemma plan_chunks_nonempty: "plan_chunks sz n \<noteq> []"
proof (cases "sz \<le> 0")
  case True
  then show ?thesis by (simp add: plan_chunks_def)
next
  case False
  then have "length (plan_chunks sz n) = nat (max 1 n)" by (simp add: plan_chunks_loop)
  then show ?thesis by auto
qed

text \<open>Everything a run over the aligned chunks of a file needs.\<close>

lemma chunk_plan_file:
  "\<exists>cs. align_chunks (file_source s) (plan_chunks (int (length s)) n) = Inr cs \<and> cs \<noteq> []
     \<and> tiles 0 cs (int (length s)) \<and> (s \<noteq> [] \<longrightarrow> 0 < ck_length (hd cs))
     \<and> concat (map (\<lambda>c. lines_of (section_of s (ck_offset c) (ck_length c))) cs) = lines_of s
     \<and> length cs = length (plan_chunks (int (length s)) n)"
proof -
  have "tiles 0 (plan_chunks (int (length s)) n) (int (length s))"
    using plan_chunks_tiling [of "int (length s)" n] by (simp add: max_def)
  then obtain cs where cs: "align_chunks (file_source s) (plan_chunks (int (length s)) n) = Inr cs"
      "tiles 0 cs (int (length s))" "\<forall>c \<in> set cs. line_start s (nat (ck_offset c))"
      "s \<noteq> [] \<longrightarrow> 0 < ck_length (hd cs)" "length cs = length (plan_chunks (int (length s)) n)"
    using align_chunks_file plan_chunks_nonempty by blast
  moreover have "cs \<noteq> []" using cs(5) plan_chunks_nonempty [of "int (length s)" n] by auto
  ultimately show ?thesis using lines_of_tiles [of 0 cs s] by auto
qed

text \<open>
  Planning and aligning \<open>n\<close> chunks of a file always succeeds, and reading the chunks' lines one
  chunk after the other gives exactly the lines of the file, in order, each once.
\<close>

theorem chunked_lines:
  "\<exists>cs. align_chunks (file_source s) (plan_chunks (int (length s)) n) = Inr cs
     \<and> concat (map (\<lambda>c. lines_of (section_of s (ck_offset c) (ck_length c))) cs) = lines_of s"
  using chunk_plan_file [of s n] by auto

end
