(* ===== verification/Batch.thy ===== *)
theory Batch
  imports Schema
begin

text \<open>
  \<open>internal/ingest/batch.go\<close>: column-oriented batches of rows and the pool that recycles them, and
  \<open>readValue\<close> of \<open>aggregate/aggregator.go\<close>, which reads one cell back.

  A \<open>sync.Pool\<close> may hand back any batch that was put into it, or none; \<open>get_batch\<close> takes that
  choice as an argument. Capacities are not modelled, only contents.
\<close>

record column =
  col_type :: column_type
  strs :: "string list"
  i64s :: "i64 list"
  f64s :: "f64 list"

record batch =
  num_rows :: nat
  cols :: "column list"

definition reset_column :: "column \<Rightarrow> column" where
  "reset_column c = c\<lparr>strs := [], i64s := [], f64s := []\<rparr>"

definition append_string :: "string \<Rightarrow> column \<Rightarrow> column" where
  "append_string v c = c\<lparr>strs := strs c @ [v]\<rparr>"

definition append_int64 :: "i64 \<Rightarrow> column \<Rightarrow> column" where
  "append_int64 v c = c\<lparr>i64s := i64s c @ [v]\<rparr>"

definition append_float64 :: "f64 \<Rightarrow> column \<Rightarrow> column" where
  "append_float64 v c = c\<lparr>f64s := f64s c @ [v]\<rparr>"

definition new_column :: "column_type \<Rightarrow> column" where
  "new_column t = \<lparr>col_type = t, strs = [], i64s = [], f64s = []\<rparr>"

definition new_batch :: "schema \<Rightarrow> batch" where
  "new_batch s = \<lparr>num_rows = 0, cols = map (\<lambda>c. new_column (cs_type c)) (columns s)\<rparr>"

definition get_batch :: "schema \<Rightarrow> batch option \<Rightarrow> batch" where
  "get_batch s recycled =
     (let b = (case recycled of None \<Rightarrow> new_batch s | Some b \<Rightarrow> b)
      in b\<lparr>num_rows := 0, cols := map reset_column (cols b)\<rparr>)"

text \<open>\<open>readValue\<close>; \<open>None\<close> where indexing a slice out of range panics.\<close>

definition nth_opt :: "'a list \<Rightarrow> nat \<Rightarrow> 'a option" where
  "nth_opt xs i = (if i < length xs then Some (xs ! i) else None)"

definition read_value :: "column \<Rightarrow> nat \<Rightarrow> value_t option" where
  "read_value c r =
     (case col_type c of
        TypeString \<Rightarrow> map_option string_value (nth_opt (strs c) r)
      | TypeInt64 \<Rightarrow> map_option int64_value (nth_opt (i64s c) r)
      | TypeFloat64 \<Rightarrow> map_option float64_value (nth_opt (f64s c) r)
      | TypeOther _ \<Rightarrow> Some zero_value)"

lemma nth_opt_append: "nth_opt (xs @ ys) i = (if i < length xs then Some (xs ! i) else nth_opt ys (i - length xs))"
  by (auto simp: nth_opt_def nth_append)

lemma nth_opt_Some: "i < length xs \<Longrightarrow> nth_opt xs i = Some (xs ! i)"
  by (simp add: nth_opt_def)

section \<open>Shape and contents\<close>

text \<open>A column of \<open>n\<close> rows holds \<open>n\<close> values in the slice of its type and none in the others.\<close>

definition wf_column :: "nat \<Rightarrow> column_type \<Rightarrow> column \<Rightarrow> bool" where
  "wf_column n t c \<longleftrightarrow> col_type c = t
     \<and> length (strs c) = (case t of TypeString \<Rightarrow> n | TypeOther _ \<Rightarrow> n | _ \<Rightarrow> 0)
     \<and> length (i64s c) = (if t = TypeInt64 then n else 0)
     \<and> length (f64s c) = (if t = TypeFloat64 then n else 0)"

definition wf_batch :: "schema \<Rightarrow> batch \<Rightarrow> bool" where
  "wf_batch s b \<longleftrightarrow> list_all2 (\<lambda>cs c. wf_column (num_rows b) (cs_type cs) c) (columns s) (cols b)"

definition shaped :: "schema \<Rightarrow> batch \<Rightarrow> bool" where
  "shaped s b \<longleftrightarrow> map col_type (cols b) = map cs_type (columns s)"

lemma wf_batch_shaped [wf_intros]: "wf_batch s b \<Longrightarrow> shaped s b"
  unfolding wf_batch_def shaped_def
  by (induction rule: list_all2_induct) (auto simp: wf_column_def)

lemma wf_batch_length: "wf_batch s b \<Longrightarrow> length (cols b) = length (columns s)"
  by (auto simp: wf_batch_def dest: list_all2_lengthD)

text \<open>A recycled batch is indistinguishable from a fresh one.\<close>

lemma get_batch_new: "shaped s b \<Longrightarrow> get_batch s (Some b) = new_batch s"
proof -
  assume "shaped s b"
  then have "map (new_column \<circ> col_type) (cols b) = map (new_column \<circ> cs_type) (columns s)"
    by (simp add: shaped_def flip: map_map)
  moreover have "reset_column = new_column \<circ> col_type"
    by (auto simp: fun_eq_iff reset_column_def new_column_def)
  ultimately show ?thesis by (simp add: get_batch_def new_batch_def Let_def comp_def)
qed

lemma get_batch_None: "get_batch s None = new_batch s"
  by (simp add: get_batch_def new_batch_def reset_column_def new_column_def)

definition pool_ok :: "schema \<Rightarrow> batch option \<Rightarrow> bool" where
  "pool_ok s r \<longleftrightarrow> (case r of None \<Rightarrow> True | Some b \<Rightarrow> shaped s b)"

lemma get_batch_pool: "pool_ok s r \<Longrightarrow> get_batch s r = new_batch s"
  by (cases r) (auto simp: pool_ok_def get_batch_None get_batch_new)

lemma wf_new_batch [wf_intros]: "wf_batch s (new_batch s)"
  by (auto simp: wf_batch_def new_batch_def new_column_def wf_column_def list_all2_map2
      intro!: list_all2_refl split: column_type.splits)

lemma num_rows_new_batch [simp]: "num_rows (new_batch s) = 0"
  by (simp add: new_batch_def)

text \<open>The rows of a batch as the consumer reads them; \<open>None\<close> for a cell whose read panics.\<close>

definition batch_row :: "batch \<Rightarrow> nat \<Rightarrow> value_t option list" where
  "batch_row b r = map (\<lambda>c. read_value c r) (cols b)"

definition batch_rows :: "batch \<Rightarrow> value_t option list list" where
  "batch_rows b = map (batch_row b) [0..<num_rows b]"

lemma batch_rows_new [simp]: "batch_rows (new_batch s) = []"
  by (simp add: batch_rows_def)

lemma length_batch_rows [simp]: "length (batch_rows b) = num_rows b"
  by (simp add: batch_rows_def)

lemma wf_column_read: "wf_column n t c \<Longrightarrow> r < n \<Longrightarrow> \<exists>v. read_value c r = Some v"
  by (cases t) (auto simp: wf_column_def read_value_def nth_opt_def)

text \<open>No read of a row of a well-formed batch panics.\<close>

lemma wf_batch_read:
  assumes "wf_batch s b" and "r < num_rows b" and "i < length (cols b)"
  shows "\<exists>v. read_value (cols b ! i) r = Some v"
  using assms by (auto simp: wf_batch_def list_all2_conv_all_nth intro: wf_column_read)

section \<open>Appending a row\<close>

definition append_value :: "value_t \<Rightarrow> column \<Rightarrow> column" where
  "append_value v c =
     (case vtype v of
        TypeString \<Rightarrow> append_string (vstr v) c
      | TypeInt64 \<Rightarrow> append_int64 (vi64 v) c
      | TypeFloat64 \<Rightarrow> append_float64 (vf64 v) c
      | TypeOther _ \<Rightarrow> c)"

definition append_row :: "value_t list \<Rightarrow> batch \<Rightarrow> batch" where
  "append_row vs b = b\<lparr>cols := map2 append_value vs (cols b), num_rows := num_rows b + 1\<rparr>"

text \<open>
  What a field parser for type \<open>t\<close> produces, and what a column of type \<open>t\<close> gives back for it: a type
  outside the constants is parsed as a string and read back as the zero \<open>Value\<close>.
\<close>

definition parsed_as :: "column_type \<Rightarrow> value_t \<Rightarrow> bool" where
  "parsed_as t v \<longleftrightarrow>
     (case t of TypeInt64 \<Rightarrow> v = int64_value (vi64 v) | TypeFloat64 \<Rightarrow> v = float64_value (vf64 v)
      | _ \<Rightarrow> v = string_value (vstr v))"

definition seen_value :: "column_type \<Rightarrow> value_t \<Rightarrow> value_t" where
  "seen_value t v = (case t of TypeOther _ \<Rightarrow> zero_value | _ \<Rightarrow> v)"

lemma append_value_wf:
  "wf_column n t c \<Longrightarrow> parsed_as t v \<Longrightarrow> wf_column (Suc n) t (append_value v c)"
  by (cases t; cases "vtype v")
    (auto simp: wf_column_def parsed_as_def append_value_def append_string_def append_int64_def
      append_float64_def dest: arg_cong [of _ _ vtype])

lemma append_value_read:
  assumes "wf_column n t c" and "parsed_as t v"
  shows "r < n \<Longrightarrow> read_value (append_value v c) r = read_value c r"
    and "read_value (append_value v c) n = Some (seen_value t v)"
  using assms
  by (cases t; cases "vtype v";
      force simp: wf_column_def parsed_as_def append_value_def append_string_def append_int64_def
        append_float64_def read_value_def seen_value_def nth_opt_def nth_append dest: arg_cong [of _ _ vtype])+

lemma append_row_wf [wf_intros]:
  assumes "wf_batch s b" and "list_all2 (\<lambda>cs v. parsed_as (cs_type cs) v) (columns s) vs"
  shows "wf_batch s (append_row vs b)"
  using assms
  by (auto simp: wf_batch_def append_row_def list_all2_conv_all_nth intro: append_value_wf)

lemma append_row_num [simp]: "num_rows (append_row vs b) = Suc (num_rows b)"
  by (simp add: append_row_def)

lemma append_row_rows:
  assumes "wf_batch s b" and "list_all2 (\<lambda>cs v. parsed_as (cs_type cs) v) (columns s) vs"
  shows "batch_rows (append_row vs b)
     = batch_rows b @ [map2 (\<lambda>cs v. Some (seen_value (cs_type cs) v)) (columns s) vs]"
proof -
  have len: "length (cols b) = length (columns s)" "length vs = length (columns s)"
    using assms by (auto simp: wf_batch_def dest: list_all2_lengthD)
  have cell: "wf_column (num_rows b) (cs_type (columns s ! i)) (cols b ! i)"
      "parsed_as (cs_type (columns s ! i)) (vs ! i)" if "i < length (columns s)" for i
    using assms that by (auto simp: wf_batch_def list_all2_conv_all_nth)
  have "batch_row (append_row vs b) r = batch_row b r" if "r < num_rows b" for r
    using len that append_value_read(1) [OF cell that]
    by (auto simp: batch_row_def append_row_def list_eq_iff_nth_eq)
  moreover have "batch_row (append_row vs b) (num_rows b)
      = map2 (\<lambda>cs v. Some (seen_value (cs_type cs) v)) (columns s) vs"
    using len append_value_read(2) [OF cell]
    by (auto simp: batch_row_def append_row_def list_eq_iff_nth_eq)
  ultimately show ?thesis by (simp add: batch_rows_def)
qed

end
