(* ===== verification/Parser.thy ===== *)
theory Parser
  imports Source Batch
begin

text \<open>
  \<open>internal/ingest/parser.go\<close>: field splitting with and without quoting, field parsers, and the row
  parser that feeds a batch. (The line reader is in theory Source.)
\<close>

section \<open>Plain splitting\<close>

text \<open>The loop of \<open>splitFields\<close> keeps the rest of the line and its offset in the line.\<close>

function split_fields_loop :: "bytes list \<Rightarrow> bytes \<Rightarrow> bytes \<Rightarrow> nat \<Rightarrow> byte \<Rightarrow> bytes list" where
  "split_fields_loop dst line rest offset delim =
     (case index_byte rest delim of
        None \<Rightarrow> dst @ [drop offset line]
      | Some idx \<Rightarrow>
          split_fields_loop (dst @ [take idx (drop offset line)]) line (drop (idx + 1) rest) (offset + idx + 1) delim)"
  by pat_completeness auto
termination
  by (relation "measure (\<lambda>(dst, line, rest, offset, delim). length rest)") (auto dest: index_byte_lt)

declare split_fields_loop.simps [simp del]

definition split_fields :: "bytes \<Rightarrow> byte \<Rightarrow> bytes list" where
  "split_fields line delim = split_fields_loop [] line line 0 delim"

section \<open>Quoted splitting\<close>

datatype row_error =
    ErrUnterminated
  | ErrAfterQuote nat
  | ErrFieldCount nat nat
  | ErrColumn string num_error

definition quote :: byte where
  "quote = CHR 0x22"

text \<open>
  The inner loop over a quoted field, from position \<open>i\<close> just after the opening quote: the field and
  the position after the closing quote.
\<close>

function quoted_loop :: "bytes \<Rightarrow> nat \<Rightarrow> bytes \<Rightarrow> row_error + bytes \<times> nat" where
  "quoted_loop line i field =
     (if length line \<le> i then Inl ErrUnterminated
      else if line ! i = quote then
        (if i + 1 < length line \<and> line ! (i + 1) = quote
         then quoted_loop line (i + 2) (field @ [quote])
         else Inr (field, i + 1))
      else quoted_loop line (i + 1) (field @ [line ! i]))"
  by pat_completeness auto
termination
  by (relation "measure (\<lambda>(line, i, field). length line - i)") auto

declare quoted_loop.simps [simp del]

lemma quoted_loop_advances: "quoted_loop line i field = Inr (f, j) \<Longrightarrow> i < j \<and> j \<le> length line"
proof (induction line i field rule: quoted_loop.induct)
  case (1 line i field)
  then show ?case
    by (subst (asm) quoted_loop.simps) (auto split: if_splits)
qed

function split_quoted_loop :: "bytes list \<Rightarrow> bytes \<Rightarrow> nat \<Rightarrow> byte \<Rightarrow> row_error + bytes list" where
  "split_quoted_loop dst line i delim =
     (if i < length line \<and> line ! i = quote then
        (case quoted_loop line (i + 1) [] of
           Inl e \<Rightarrow> Inl e
         | Inr (field, j) \<Rightarrow>
             (if j < length line \<and> line ! j = delim then split_quoted_loop (dst @ [field]) line (j + 1) delim
              else if length line \<le> j then Inr (dst @ [field])
              else Inl (ErrAfterQuote j)))
      else
        (case index_byte (drop i line) delim of
           None \<Rightarrow> Inr (dst @ [drop i line])
         | Some idx \<Rightarrow> split_quoted_loop (dst @ [take idx (drop i line)]) line (i + idx + 1) delim))"
  by pat_completeness auto
termination
  by (relation "measure (\<lambda>(dst, line, i, delim). length line - i)")
    (auto dest!: quoted_loop_advances index_byte_lt)

declare split_quoted_loop.simps [simp del]

definition split_fields_quoted :: "bytes \<Rightarrow> byte \<Rightarrow> row_error + bytes list" where
  "split_fields_quoted line delim = split_quoted_loop [] line 0 delim"

section \<open>Field parsers\<close>

definition parse_string_field :: "bytes \<Rightarrow> num_error + value_t" where
  "parse_string_field field = Inr (string_value field)"

definition parse_int64_field :: "bytes \<Rightarrow> num_error + value_t" where
  "parse_int64_field field = res_bind (parse_int field) (\<lambda>v. Inr (int64_value (of_int v)))"

definition parse_float64_field :: "bytes \<Rightarrow> num_error + value_t" where
  "parse_float64_field field = res_bind (parse_float field) (\<lambda>v. Inr (float64_value v))"

definition default_field_parser :: "column_type \<Rightarrow> bytes \<Rightarrow> num_error + value_t" where
  "default_field_parser t =
     (case t of TypeInt64 \<Rightarrow> parse_int64_field | TypeFloat64 \<Rightarrow> parse_float64_field | _ \<Rightarrow> parse_string_field)"

definition field_parsers_for :: "schema \<Rightarrow> (bytes \<Rightarrow> num_error + value_t) list" where
  "field_parsers_for s = map (\<lambda>cs. default_field_parser (cs_type cs)) (columns s)"

section \<open>The row parser\<close>

datatype error_policy = ErrorPolicySkip | ErrorPolicyFail | ErrorPolicyOther int

datatype row_result = RowOK | RowSkipped | RowEOF

datatype parse_error =
    ErrReadHeader io_error
  | ErrReadLine io_error
  | ErrLine int row_error

text \<open>
  \<open>rp_report\<close> says whether \<open>onSkippedRow\<close> is set; \<open>rp_skipped\<close> is the list of its calls, oldest first.
\<close>

record row_parser =
  rp_schema :: schema
  rp_parsers :: "(bytes \<Rightarrow> num_error + value_t) list"
  rp_lr :: line_reader
  rp_line_no :: int
  rp_skip_header :: bool
  rp_header_handled :: bool
  rp_on_error :: error_policy
  rp_report :: bool
  rp_skipped :: "(int \<times> row_error) list"

definition new_row_parser_from_reader ::
  "line_reader \<Rightarrow> schema \<Rightarrow> bool \<Rightarrow> error_policy \<Rightarrow> bool \<Rightarrow> row_parser" where
  "new_row_parser_from_reader lr s skip_header on_error report =
     \<lparr>rp_schema = s, rp_parsers = field_parsers_for s, rp_lr = lr, rp_line_no = 0,
      rp_skip_header = skip_header, rp_header_handled = False, rp_on_error = on_error,
      rp_report = report, rp_skipped = []\<rparr>"

definition new_row_parser ::
  "reader \<Rightarrow> schema \<Rightarrow> int \<Rightarrow> bool \<Rightarrow> error_policy \<Rightarrow> bool \<Rightarrow> row_parser" where
  "new_row_parser r s bufsize skip_header on_error report =
     new_row_parser_from_reader (new_line_reader r bufsize) s skip_header on_error report"

definition handle_header :: "row_parser \<Rightarrow> (parse_error + row_result) \<times> row_parser" where
  "handle_header rp =
     (let rp1 = rp\<lparr>rp_header_handled := True\<rparr>
      in if \<not> rp_skip_header rp1 then (Inr RowOK, rp1)
         else (case read_line (rp_lr rp1) of
                 (Inl EOF, lr) \<Rightarrow> (Inr RowEOF, rp1\<lparr>rp_lr := lr\<rparr>)
               | (Inl e, lr) \<Rightarrow> (Inl (ErrReadHeader e), rp1\<lparr>rp_lr := lr\<rparr>)
               | (Inr _, lr) \<Rightarrow> (Inr RowOK, rp1\<lparr>rp_lr := lr\<rparr>)))"

definition handle_row_error :: "row_error \<Rightarrow> row_parser \<Rightarrow> (parse_error + row_result) \<times> row_parser" where
  "handle_row_error e rp =
     (if rp_on_error rp = ErrorPolicyFail then (Inl (ErrLine (rp_line_no rp) e), rp)
      else (Inr RowSkipped,
            if rp_report rp then rp\<lparr>rp_skipped := rp_skipped rp @ [(rp_line_no rp, e)]\<rparr> else rp))"

text \<open>Splitting one line and parsing its fields: the pure part of \<open>next\<close>.\<close>

definition split_line :: "schema \<Rightarrow> bytes \<Rightarrow> row_error + bytes list" where
  "split_line s line =
     (if quote_aware s then split_fields_quoted line (delimiter_or_default s)
      else Inr (split_fields line (delimiter_or_default s)))"

definition parse_fields ::
  "schema \<Rightarrow> (bytes \<Rightarrow> num_error + value_t) list \<Rightarrow> bytes list \<Rightarrow> row_error + value_t list" where
  "parse_fields s parsers fs =
     traverse (\<lambda>(cs, p, field). case p field of Inl e \<Rightarrow> Inl (ErrColumn (cs_name cs) e) | Inr v \<Rightarrow> Inr v)
       (zip (columns s) (zip parsers fs))"

definition parse_row :: "schema \<Rightarrow> (bytes \<Rightarrow> num_error + value_t) list \<Rightarrow> bytes \<Rightarrow> row_error + value_t list" where
  "parse_row s parsers line =
     res_bind (split_line s line) (\<lambda>fs.
       if length fs \<noteq> length parsers then Inl (ErrFieldCount (length parsers) (length fs))
       else parse_fields s parsers fs)"

definition next_data_row :: "row_parser \<Rightarrow> batch \<Rightarrow> (parse_error + row_result) \<times> row_parser \<times> batch" where
  "next_data_row rp b =
     (case read_line (rp_lr rp) of
        (Inl EOF, lr) \<Rightarrow> (Inr RowEOF, rp\<lparr>rp_lr := lr\<rparr>, b)
      | (Inl e, lr) \<Rightarrow> (Inl (ErrReadLine e), rp\<lparr>rp_lr := lr\<rparr>, b)
      | (Inr line, lr) \<Rightarrow>
          (let rp1 = rp\<lparr>rp_lr := lr, rp_line_no := rp_line_no rp + 1\<rparr>
           in case parse_row (rp_schema rp1) (rp_parsers rp1) line of
                Inl e \<Rightarrow> (case handle_row_error e rp1 of (res, rp2) \<Rightarrow> (res, rp2, b))
              | Inr vs \<Rightarrow> (Inr RowOK, rp1, append_row vs b)))"

definition next_row :: "row_parser \<Rightarrow> batch \<Rightarrow> (parse_error + row_result) \<times> row_parser \<times> batch" where
  "next_row rp b =
     (if rp_header_handled rp then next_data_row rp b
      else (case handle_header rp of
              (Inr RowOK, rp1) \<Rightarrow> next_data_row rp1 b
            | (res, rp1) \<Rightarrow> (res, rp1, b)))"

section \<open>Properties of splitting\<close>

lemma split_fields_loop_split_on:
  assumes "rest = drop offset line"
  shows "split_fields_loop dst line rest offset delim = dst @ split_on delim rest"
  using assms
proof (induction dst line rest offset delim rule: split_fields_loop.induct)
  case (1 dst line rest offset delim)
  show ?case
  proof (cases "index_byte rest delim")
    case None
    with 1(2) show ?thesis by (simp add: split_fields_loop.simps [of dst] index_byte_None)
  next
    case (Some idx)
    have "split_on delim rest = take idx rest # split_on delim (drop (Suc idx) rest)"
      using index_byte_split [OF Some] by (metis split_on_append_sep)
    moreover have "drop (idx + 1) rest = drop (offset + idx + 1) line"
      using 1(2) by (simp add: add.commute)
    ultimately show ?thesis
      using 1(1) [OF Some] Some 1(2) by (simp add: split_fields_loop.simps [of dst])
  qed
qed

lemma split_fields_split_on: "split_fields line delim = split_on delim line"
  by (simp add: split_fields_def split_fields_loop_split_on)

text \<open>
  \<open>splitFields\<close> cuts a line at every delimiter and nowhere else: the fields joined with the
  delimiter are the line again, no field contains a delimiter, and there is one field more than
  there are delimiters.
\<close>

theorem split_fields_correct:
  "join_with delim (split_fields line delim) = line
     \<and> list_all (\<lambda>f. delim \<notin> set f) (split_fields line delim)
     \<and> length (split_fields line delim) = Suc (count_list line delim)"
  by (simp add: split_fields_split_on join_split_on length_split_on list_all_iff split_on_pieces)

section \<open>Quoted fields\<close>

text \<open>
  How a writer may encode a field: quoted, with every quote doubled, or as it is when it contains no
  delimiter and does not begin with a quote.
\<close>

definition escape_quotes :: "bytes \<Rightarrow> bytes" where
  "escape_quotes f = concat (map (\<lambda>c. if c = quote then [quote, quote] else [c]) f)"

fun encode_field :: "bool \<times> bytes \<Rightarrow> bytes" where
  "encode_field (quoted, f) = (if quoted then quote # escape_quotes f @ [quote] else f)"

fun encodable :: "byte \<Rightarrow> bool \<times> bytes \<Rightarrow> bool" where
  "encodable delim (quoted, f) \<longleftrightarrow> quoted \<or> (delim \<notin> set f \<and> (f = [] \<or> hd f \<noteq> quote))"

lemma escape_quotes_Nil [simp]: "escape_quotes [] = []"
  by (simp add: escape_quotes_def)

lemma escape_quotes_Cons [simp]:
  "escape_quotes (c # f) = (if c = quote then quote # quote # escape_quotes f else c # escape_quotes f)"
  by (simp add: escape_quotes_def)

lemma drop_Cons_nth: "drop i line = x # xs \<Longrightarrow> i < length line \<and> line ! i = x \<and> drop (Suc i) line = xs"
  by (metis Cons_nth_drop_Suc drop_all list.inject list.simps(3) not_less)

lemma quoted_loop_field:
  assumes "drop i line = escape_quotes f @ quote # rest" and "rest = [] \<or> hd rest \<noteq> quote"
  shows "quoted_loop line i field = Inr (field @ f, i + length (escape_quotes f) + 1)"
  using assms
proof (induction f arbitrary: i field)
  case Nil
  have "i + 1 < length line \<Longrightarrow> line ! (i + 1) \<noteq> quote"
    using Nil drop_Cons_nth [of i line quote rest] by (cases rest) (auto dest: drop_Cons_nth)
  with Nil drop_Cons_nth [of i line quote rest] show ?case
    by (auto simp: quoted_loop.simps [of line i])
next
  case (Cons c f)
  show ?case
  proof (cases "c = quote")
    case True
    then have 1: "drop i line = quote # quote # escape_quotes f @ quote # rest" using Cons.prems(1) by simp
    from drop_Cons_nth [OF this] have 2: "drop (Suc i) line = quote # escape_quotes f @ quote # rest" by simp
    from drop_Cons_nth [OF this] have 3: "drop (i + 2) line = escape_quotes f @ quote # rest" by simp
    show ?thesis
      using drop_Cons_nth [OF 1] drop_Cons_nth [OF 2] Cons.IH [OF 3 Cons.prems(2), of "field @ [quote]"] True
      by (simp add: quoted_loop.simps [of line i])
  next
    case False
    then have 1: "drop i line = c # escape_quotes f @ quote # rest" using Cons.prems(1) by simp
    then have 2: "drop (i + 1) line = escape_quotes f @ quote # rest"
      using drop_Cons_nth [OF 1] by simp
    show ?thesis
      using drop_Cons_nth [OF 1] Cons.IH [OF 2 Cons.prems(2), of "field @ [c]"] False
      by (simp add: quoted_loop.simps [of line i])
  qed
qed

text \<open>One field, followed by the end of the line or by a delimiter and the rest.\<close>

lemma split_quoted_last:
  assumes "encodable delim qf" and "drop i line = encode_field qf" and "i \<le> length line"
  shows "split_quoted_loop dst line i delim = Inr (dst @ [snd qf])"
proof (cases qf)
  case (Pair quoted f)
  show ?thesis
  proof (cases quoted)
    case True
    then have 1: "drop i line = quote # escape_quotes f @ [quote]" using assms(2) Pair by simp
    then have "quoted_loop line (i + 1) [] = Inr (f, i + 1 + length (escape_quotes f) + 1)"
      using drop_Cons_nth [OF 1] quoted_loop_field [of "i + 1" line f "[]" "[]"] by simp
    moreover have "length line = i + 1 + length (escape_quotes f) + 1"
      using arg_cong [OF 1, of length] assms(3) by simp
    ultimately show ?thesis
      using drop_Cons_nth [OF 1] Pair by (simp add: split_quoted_loop.simps [of dst])
  next
    case False
    then have "\<not> (i < length line \<and> line ! i = quote)"
      using assms Pair by (auto simp: hd_drop_conv_nth)
    then show ?thesis
      using False assms Pair by (auto simp: split_quoted_loop.simps [of dst])
  qed
qed

lemma split_quoted_step:
  assumes "encodable delim qf" and "delim \<noteq> quote" and "drop i line = encode_field qf @ delim # rest"
  shows "split_quoted_loop dst line i delim
     = split_quoted_loop (dst @ [snd qf]) line (i + length (encode_field qf) + 1) delim"
proof (cases qf)
  case (Pair quoted f)
  show ?thesis
  proof (cases quoted)
    case True
    define j where "j = i + 1 + length (escape_quotes f) + 1"
    have 1: "drop i line = quote # escape_quotes f @ quote # delim # rest"
      using assms(3) Pair True by simp
    then have q: "quoted_loop line (i + 1) [] = Inr (f, j)"
      using drop_Cons_nth [OF 1] quoted_loop_field [of "i + 1" line f "delim # rest" "[]"] assms(2)
      by (simp add: j_def)
    have "drop j line = drop (length (escape_quotes f) + 2) (drop i line)" by (simp add: j_def add.commute)
    also have "\<dots> = delim # rest" by (simp add: 1)
    finally have "j < length line \<and> line ! j = delim" using drop_Cons_nth [of j line delim rest] by simp
    with q show ?thesis
      using drop_Cons_nth [OF 1] Pair True by (simp add: split_quoted_loop.simps [of dst] j_def)
  next
    case False
    then have f: "delim \<notin> set f" "f = [] \<or> hd f \<noteq> quote" and 1: "drop i line = f @ delim # rest"
      using assms Pair by auto
    have "\<not> (i < length line \<and> line ! i = quote)"
      using f(2) 1 assms(2) hd_drop_conv_nth [of i line] by (cases f) auto
    moreover have "index_byte (drop i line) delim = Some (length f)" using f(1) 1 by simp
    ultimately show ?thesis
      using 1 Pair False by (auto simp: split_quoted_loop.simps [of dst])
  qed
qed

lemma split_quoted_fields:
  assumes "qfs \<noteq> []" and "list_all (encodable delim) qfs" and "delim \<noteq> quote"
    and "drop i line = join_with delim (map encode_field qfs)" and "i \<le> length line"
  shows "split_quoted_loop dst line i delim = Inr (dst @ map snd qfs)"
  using assms
proof (induction qfs arbitrary: i dst)
  case Nil
  then show ?case by simp
next
  case (Cons qf qfs)
  show ?case
  proof (cases qfs)
    case Nil
    with Cons.prems show ?thesis by (simp add: split_quoted_last)
  next
    case (Cons qg qgs)
    then have 1: "drop i line = encode_field qf @ delim # join_with delim (map encode_field qfs)"
      using Cons.prems(4) by simp
    define j where "j = i + length (encode_field qf) + 1"
    have "drop j line = drop (length (encode_field qf) + 1) (drop i line)" by (simp add: j_def add.commute)
    also have "\<dots> = join_with delim (map encode_field qfs)" by (simp add: 1)
    finally have 2: "drop j line = join_with delim (map encode_field qfs)" .
    have "j \<le> length line" using arg_cong [OF 1, of length] Cons.prems(5) by (simp add: j_def)
    then have "split_quoted_loop (dst @ [snd qf]) line j delim = Inr ((dst @ [snd qf]) @ map snd qfs)"
      using Cons.IH [OF _ _ _ 2] Cons.prems(2,3) Cons by simp
    then show ?thesis
      using split_quoted_step [OF _ _ 1] Cons.prems(2,3) by (simp add: j_def)
  qed
qed

text \<open>
  C31. Quoting round trip: a line written field by field, each field quoted (quotes doubled) or left
  plain where that is unambiguous, is split back into exactly those fields.
\<close>

theorem split_fields_quoted_roundtrip:
  assumes "qfs \<noteq> []" and "list_all (encodable delim) qfs" and "delim \<noteq> quote"
  shows "split_fields_quoted (join_with delim (map encode_field qfs)) delim = Inr (map snd qfs)"
  using split_quoted_fields [OF assms, of 0 _ "[]"] by (simp add: split_fields_quoted_def)

theorem split_fields_quoted_roundtrip_witness:
  "split_fields_quoted (join_with (CHR '','') (map encode_field [(True, ''a,'' @ [quote]), (False, ''b'')])) (CHR '','')
     = Inr [''a,'' @ [quote], ''b'']"
  using split_fields_quoted_roundtrip [of "[(True, ''a,'' @ [quote]), (False, ''b'')]" "CHR '',''"]
  by (simp add: quote_def)

text \<open>
  On a line without a quote character the quote-aware splitter agrees with the plain one.
\<close>

theorem split_fields_quoted_plain:
  assumes "quote \<notin> set line"
  shows "split_fields_quoted line delim = Inr (split_fields line delim)"
proof -
  have "split_quoted_loop dst line i delim = Inr (dst @ split_on delim (drop i line))" for dst i
    using assms
  proof (induction dst line i delim rule: split_quoted_loop.induct)
    case (1 dst line i delim)
    have nq: "\<not> (i < length line \<and> line ! i = quote)" using 1(3) by (metis nth_mem)
    show ?case
    proof (cases "index_byte (drop i line) delim")
      case None
      with nq show ?thesis by (auto simp: split_quoted_loop.simps [of dst] index_byte_None)
    next
      case (Some idx)
      have "split_on delim (drop i line) = take idx (drop i line) # split_on delim (drop (Suc idx) (drop i line))"
        using index_byte_split [OF Some] by (metis split_on_append_sep)
      with 1(2) [OF nq Some 1(3)] Some nq show ?thesis
        by (auto simp: split_quoted_loop.simps [of dst] add.commute)
    qed
  qed
  then show ?thesis by (simp add: split_fields_quoted_def split_fields_split_on)
qed

theorem split_fields_quoted_plain_witness:
  "split_fields_quoted ''a;b'' (CHR '';'') = Inr (split_fields ''a;b'' (CHR '';''))"
  by (rule split_fields_quoted_plain) (simp add: quote_def)

section \<open>Properties of the row parser\<close>

definition rp_ok :: "row_parser \<Rightarrow> bool" where
  "rp_ok rp \<longleftrightarrow> rp_parsers rp = field_parsers_for (rp_schema rp) \<and> 0 < lr_bufsize (rp_lr rp)"

abbreviation parse_line :: "schema \<Rightarrow> bytes \<Rightarrow> row_error + value_t list" where
  "parse_line s line \<equiv> parse_row s (field_parsers_for s) line"

lemma default_field_parser_parsed_as: "default_field_parser t f = Inr v \<Longrightarrow> parsed_as t v"
  by (cases t)
    (auto simp: default_field_parser_def parse_string_field_def parse_int64_field_def
      parse_float64_field_def parsed_as_def res_bind_Inr_iff)

lemma parse_fields_nth:
  assumes "length fs = length (columns s)" and "parse_fields s (field_parsers_for s) fs = Inr vs"
  shows "length vs = length (columns s)
     \<and> (\<forall>i < length vs. default_field_parser (cs_type (columns s ! i)) (fs ! i) = Inr (vs ! i))"
proof (intro conjI allI impI)
  define f where "f = (\<lambda>(cs :: column_schema, p :: bytes \<Rightarrow> num_error + value_t, field).
      case p field of Inl e \<Rightarrow> Inl (ErrColumn (cs_name cs) e) | Inr v \<Rightarrow> Inr v)"
  have all: "list_all2 (\<lambda>x y. f x = Inr y) (zip (columns s) (zip (field_parsers_for s) fs)) vs"
    using assms(2) by (simp add: parse_fields_def f_def flip: traverse_Inr_iff)
  from list_all2_lengthD [OF this] show len: "length vs = length (columns s)"
    using assms(1) by (simp add: field_parsers_for_def)
  fix i assume "i < length vs"
  with list_all2_nthD2 [OF all this] assms(1) len
  have "f (columns s ! i, default_field_parser (cs_type (columns s ! i)), fs ! i) = Inr (vs ! i)"
    by (simp add: field_parsers_for_def)
  then show "default_field_parser (cs_type (columns s ! i)) (fs ! i) = Inr (vs ! i)"
    by (simp add: f_def split: sum.splits)
qed

lemma parse_line_Inr:
  assumes "parse_line s line = Inr vs"
  shows "\<exists>fs. split_line s line = Inr fs \<and> length fs = length (columns s) \<and> length vs = length (columns s)
     \<and> (\<forall>i < length vs. default_field_parser (cs_type (columns s ! i)) (fs ! i) = Inr (vs ! i))"
proof -
  from assms obtain fs where "split_line s line = Inr fs" and len: "length fs = length (columns s)"
      and "parse_fields s (field_parsers_for s) fs = Inr vs"
    by (auto simp: parse_row_def res_bind_Inr_iff field_parsers_for_def split: if_splits)
  then show ?thesis
    using len parse_fields_nth [OF len] by auto
qed

lemma parse_line_parsed_as:
  assumes "parse_line s line = Inr vs"
  shows "list_all2 (\<lambda>cs v. parsed_as (cs_type cs) v) (columns s) vs"
  using parse_line_Inr [OF assms]
  by (auto simp: list_all2_conv_all_nth intro: default_field_parser_parsed_as)

lemma handle_row_error_keeps:
  assumes "handle_row_error e rp = (res, rp')"
  shows "rp_lr rp' = rp_lr rp" "rp_schema rp' = rp_schema rp" "rp_parsers rp' = rp_parsers rp"
    "res \<noteq> Inr RowOK" "res \<noteq> Inr RowEOF"
  using assms by (auto simp: handle_row_error_def split: if_splits)

text \<open>Every row read, and every row skipped, consumes input: reading a source terminates.\<close>

lemma next_data_row_shorter:
  assumes "next_data_row rp b = (Inr r, rp', b')" and "r \<noteq> RowEOF"
  shows "length (rd_data (lr_in (rp_lr rp'))) < length (rd_data (lr_in (rp_lr rp)))"
  using assms
  by (auto simp: next_data_row_def Let_def split: prod.splits sum.splits io_error.splits
      dest!: read_line_shorter handle_row_error_keeps(1))

lemma handle_header_shorter:
  "handle_header rp = (Inr RowOK, rp') \<Longrightarrow>
     length (rd_data (lr_in (rp_lr rp'))) \<le> length (rd_data (lr_in (rp_lr rp)))"
  by (auto simp: handle_header_def Let_def split: prod.splits sum.splits io_error.splits if_splits
      dest!: read_line_shorter)

lemma next_row_shorter:
  assumes "next_row rp b = (Inr r, rp', b')" and "r \<noteq> RowEOF"
  shows "length (rd_data (lr_in (rp_lr rp'))) < length (rd_data (lr_in (rp_lr rp)))"
proof (cases "rp_header_handled rp")
  case True
  with assms show ?thesis by (simp add: next_row_def next_data_row_shorter)
next
  case False
  obtain res rp1 where h: "handle_header rp = (res, rp1)" by fastforce
  show ?thesis
  proof (cases "res = Inr RowOK")
    case True
    then have "next_data_row rp1 b = (Inr r, rp', b')"
      using assms(1) False h by (simp add: next_row_def)
    then show ?thesis
      using next_data_row_shorter assms(2) handle_header_shorter h True by fastforce
  next
    case notok: False
    then have "res = Inr r" using assms(1) False h
      by (auto simp: next_row_def split: sum.splits row_result.splits)
    then have False
      using h notok assms(2)
      by (auto simp: handle_header_def Let_def split: prod.splits sum.splits io_error.splits if_splits)
    then show ?thesis ..
  qed
qed

text \<open>A data row, in terms of the remaining lines.\<close>

definition row_cells :: "schema \<Rightarrow> value_t list \<Rightarrow> value_t option list" where
  "row_cells s vs = map2 (\<lambda>cs v. Some (seen_value (cs_type cs) v)) (columns s) vs"

text \<open>The part of \<open>next\<close> after the header, for a parser \<open>rp1\<close> with the schema of \<open>rp\<close>.\<close>

lemma next_data_row_atomic:
  assumes "rp_ok rp" and "wf_batch (rp_schema rp) b" and "next_data_row rp1 b = (res, rp', b')"
    and "rp_schema rp1 = rp_schema rp" and "rp_parsers rp1 = rp_parsers rp"
  shows "wf_batch (rp_schema rp') b' \<and>
    (if res = Inr RowOK
     then \<exists>line vs. parse_line (rp_schema rp) line = Inr vs
            \<and> batch_rows b' = batch_rows b @ [row_cells (rp_schema rp) vs]
     else b' = b)"
proof -
  obtain r lr where rl: "read_line (rp_lr rp1) = (r, lr)" by fastforce
  show ?thesis
  proof (cases r)
    case (Inl e)
    with assms(2-5) rl show ?thesis by (cases e) (auto simp: next_data_row_def)
  next
    case (Inr line)
    show ?thesis
    proof (cases "parse_line (rp_schema rp) line")
      case (Inl e)
      with Inr rl assms show ?thesis
        by (auto simp: next_data_row_def rp_ok_def Let_def handle_row_error_keeps split: prod.splits)
    next
      case (Inr vs)
      note vs = this
      have "res = Inr RowOK" and "rp_schema rp' = rp_schema rp" and "b' = append_row vs b"
        using vs \<open>r = Inr line\<close> assms(3-5) rl assms(1) by (auto simp: next_data_row_def rp_ok_def Let_def)
      moreover note append_row_wf [OF assms(2) parse_line_parsed_as [OF vs]]
        append_row_rows [OF assms(2) parse_line_parsed_as [OF vs]]
      ultimately show ?thesis using vs by (auto simp: row_cells_def)
    qed
  qed
qed

text \<open>
  C30. \<open>next\<close> is all or nothing. On a well-formed batch it either accepts the row, and the batch then
  has exactly one more row whose cells are the parsed values, or leaves the batch as it was (row
  skipped, end of input, or error); the batch stays well-formed, so columns never drift apart.
\<close>

theorem next_row_atomic:
  assumes "rp_ok rp" and "wf_batch (rp_schema rp) b" and "next_row rp b = (res, rp', b')"
  shows "wf_batch (rp_schema rp') b' \<and>
    (if res = Inr RowOK
     then \<exists>line vs. parse_line (rp_schema rp) line = Inr vs
            \<and> batch_rows b' = batch_rows b @ [row_cells (rp_schema rp) vs]
     else b' = b)"
proof -
  note data = next_data_row_atomic [OF assms(1,2)]
  show ?thesis
  proof (cases "rp_header_handled rp")
    case True
    with assms(3) data [of rp] show ?thesis by (simp add: next_row_def)
  next
    case False
    obtain res1 rp1 where h: "handle_header rp = (res1, rp1)" by fastforce
    then have rp1: "rp_schema rp1 = rp_schema rp" "rp_parsers rp1 = rp_parsers rp"
      by (auto simp: handle_header_def Let_def split: prod.splits sum.splits io_error.splits if_splits)
    show ?thesis
    proof (cases "res1 = Inr RowOK")
      case True
      with assms(3) False h data [of rp1] rp1 show ?thesis by (simp add: next_row_def)
    next
      case notok: False
      then have "res = res1 \<and> rp' = rp1 \<and> b' = b"
        using assms(3) False h by (auto simp: next_row_def split: sum.splits row_result.splits)
      with notok rp1 assms(2) show ?thesis by simp
    qed
  qed
qed

theorem next_row_atomic_witness:
  "\<exists>res rp' b'. next_row (new_row_parser \<lparr>rd_data = ''x'', rd_fail = False\<rparr> empty_schema 0 False ErrorPolicySkip False)
     (new_batch empty_schema) = (res, rp', b') \<and> wf_batch (rp_schema rp') b'"
proof -
  define rp where "rp = new_row_parser \<lparr>rd_data = ''x'', rd_fail = False\<rparr> empty_schema 0 False ErrorPolicySkip False"
  have "rp_ok rp" "rp_schema rp = empty_schema"
    by (simp_all add: rp_def new_row_parser_def new_row_parser_from_reader_def rp_ok_def new_line_reader_def)
  moreover obtain res rp' b' where n: "next_row rp (new_batch empty_schema) = (res, rp', b')" by (metis prod_cases3)
  ultimately show ?thesis
    using next_row_atomic [OF _ _ n] wf_new_batch [of empty_schema] by (simp add: rp_def)
qed

section \<open>Newlines inside quotes\<close>

lemma quoted_loop_unterminated:
  "quote \<notin> set (drop i line) \<Longrightarrow> quoted_loop line i field = Inl ErrUnterminated"
proof (induction line i field rule: quoted_loop.induct)
  case (1 line i field)
  show ?case
  proof (cases "length line \<le> i")
    case True
    then show ?thesis by (simp add: quoted_loop.simps [of line i])
  next
    case False
    then have "line ! i \<noteq> quote" and "quote \<notin> set (drop (i + 1) line)"
      using 1(3) by (auto simp: Cons_nth_drop_Suc [of i line, symmetric])
    then show ?thesis using 1(2) False by (simp add: quoted_loop.simps [of line i])
  qed
qed

text \<open>
  A newline inside a quoted field is not part of the field: the line ends there, and the row is
  rejected as unterminated, in spite of what the comment on \<open>QuoteAware\<close> says.
\<close>

theorem quoted_newline_rejected:
  assumes "quote_aware s" and "quote \<notin> set a" and "newline \<notin> set a"
  shows "\<exists>line rest. lines_of ([quote] @ a @ [newline] @ b) = line # rest \<and> parse_line s line = Inl ErrUnterminated"
proof -
  define line where "line = chop_last carriage_return (quote # a)"
  have nl: "newline \<notin> set (quote # a)" using assms(3) by (simp add: quote_def newline_def)
  have "lines_of ([quote] @ a @ [newline] @ b) = line # lines_of b"
    using index_byte_append_here [OF nl, of b]
    by (simp add: lines_of.simps [of "quote # a @ newline # b"] line_def)
  moreover have a': "line = quote # chop_last carriage_return a" "quote \<notin> set (chop_last carriage_return a)"
    using assms(2) by (auto simp: line_def chop_last_def quote_def carriage_return_def dest: in_set_butlastD)
  then have "split_fields_quoted line d = Inl ErrUnterminated" for d
    by (simp add: split_fields_quoted_def split_quoted_loop.simps [of "[]"] quoted_loop_unterminated)
  then have "parse_line s line = Inl ErrUnterminated"
    using assms(1) by (simp add: parse_row_def split_line_def)
  ultimately show ?thesis by blast
qed

theorem quoted_newline_rejected_witness:
  "\<exists>line rest. lines_of ([quote] @ ''a'' @ [newline] @ ''b'') = line # rest
     \<and> parse_line (empty_schema\<lparr>quote_aware := True\<rparr>) line = Inl ErrUnterminated"
  by (rule quoted_newline_rejected) (simp_all add: empty_schema_def quote_def newline_def)

end
