(* ===== verification/Ingest.thy ===== *)
theory Ingest
  imports Chunk Parser "HOL-Library.Multiset"
begin

text \<open>
  \<open>internal/ingest/ingest.go\<close>: configuration, schema resolution, the loop that drains one chunk into
  batches, and the sequential and chunked runs.

  Goroutines and channels are made explicit. A chunk's run depends on its environment: \<open>poll k\<close> says
  whether its \<open>k\<close>-th \<open>select\<close> takes the \<open>ctx.Done()\<close> branch, \<open>pool k\<close> what the \<open>k\<close>-th \<open>get\<close> finds in the
  batch pool. A chunked run merges the batches the chunks send, and the errors they report, in an order
  given by a schedule: a list of chunk numbers, one per message, after which what is left arrives chunk
  by chunk. Every interleaving is such a schedule.
\<close>

section \<open>Configuration\<close>

record config =
  cf_schema :: schema
  cf_chunks :: int
  cf_batch_size :: int
  cf_buffer_size :: int
  cf_on_error :: error_policy
  cf_report :: bool

definition default_batch_size :: int where
  "default_batch_size = 4096"

definition with_defaults :: "config \<Rightarrow> config" where
  "with_defaults c =
     (let c1 = (if cf_chunks c < 1 then c\<lparr>cf_chunks := 1\<rparr> else c);
          c2 = (if cf_batch_size c1 \<le> 0 then c1\<lparr>cf_batch_size := default_batch_size\<rparr> else c1)
      in (if cf_buffer_size c2 \<le> 0 then c2\<lparr>cf_buffer_size := int default_buffer_size\<rparr> else c2))"

datatype ctx_error = Canceled | DeadlineExceeded

datatype ingest_error =
    ECtx ctx_error
  | EParse parse_error
  | EChunk chunk_error
  | EReader io_error
  | ENoColumns
  | EReadHeader io_error
  | EPeekHeader io_error
  | EHeaderTooLong

record chunk_env =
  poll :: "nat \<Rightarrow> bool"
  pool :: "nat \<Rightarrow> batch option"

text \<open>What a drained chunk leaves: its error, the batches it sent, and the skipped rows it reported.\<close>

record drained =
  dr_error :: "ingest_error option"
  dr_batches :: "batch list"
  dr_skipped :: "(int \<times> row_error) list"

section \<open>Draining one chunk\<close>

text \<open>
  \<open>drainChunk\<close>: \<open>k\<close> counts the selects, \<open>p\<close> the batches taken from the pool, \<open>out\<close> holds the batches sent.
  Every iteration that goes on has consumed a line, so the loop ends.
\<close>

function drain_loop ::
  "chunk_env \<Rightarrow> ctx_error \<Rightarrow> schema \<Rightarrow> int \<Rightarrow> nat \<Rightarrow> nat \<Rightarrow> row_parser \<Rightarrow> batch \<Rightarrow> batch list \<Rightarrow> drained" where
  "drain_loop env ce s bsize k p rp b out =
     (if poll env k then \<lparr>dr_error = Some (ECtx ce), dr_batches = out, dr_skipped = rp_skipped rp\<rparr>
      else (case next_row rp b of
          (Inl e, rp', b') \<Rightarrow> \<lparr>dr_error = Some (EParse e), dr_batches = out, dr_skipped = rp_skipped rp'\<rparr>
        | (Inr RowEOF, rp', b') \<Rightarrow>
            (if num_rows b' = 0 then \<lparr>dr_error = None, dr_batches = out, dr_skipped = rp_skipped rp'\<rparr>
             else if poll env (k + 1)
             then \<lparr>dr_error = Some (ECtx ce), dr_batches = out, dr_skipped = rp_skipped rp'\<rparr>
             else \<lparr>dr_error = None, dr_batches = out @ [b'], dr_skipped = rp_skipped rp'\<rparr>)
        | (Inr RowOK, rp', b') \<Rightarrow>
            (if bsize \<le> int (num_rows b') then
               (if poll env (k + 1)
                then \<lparr>dr_error = Some (ECtx ce), dr_batches = out, dr_skipped = rp_skipped rp'\<rparr>
                else drain_loop env ce s bsize (k + 2) (p + 1) rp' (get_batch s (pool env p)) (out @ [b']))
             else drain_loop env ce s bsize (k + 1) p rp' b' out)
        | (Inr RowSkipped, rp', b') \<Rightarrow> drain_loop env ce s bsize (k + 1) p rp' b' out))"
  by pat_completeness auto
termination
  by (relation "measure (\<lambda>(env, ce, s, bsize, k, p, rp, b, out). length (rd_data (lr_in (rp_lr rp))))")
    (auto dest!: next_row_shorter [OF sym])

declare drain_loop.simps [simp del]

definition drain_chunk :: "chunk_env \<Rightarrow> ctx_error \<Rightarrow> schema \<Rightarrow> int \<Rightarrow> row_parser \<Rightarrow> drained" where
  "drain_chunk env ce s bsize rp = drain_loop env ce s bsize 0 1 rp (get_batch s (pool env 0)) []"

section \<open>Schema resolution\<close>

definition peek_header_columns :: "chunk_source \<Rightarrow> int \<Rightarrow> byte \<Rightarrow> ingest_error + string list" where
  "peek_header_columns cs sz delim =
     (let len = min sz probe_window
      in case cs_reader cs 0 len of
           Inl e \<Rightarrow> Inl (EPeekHeader e)
         | Inr r \<Rightarrow>
             (case read_full r (nat len) of (buf, err) \<Rightarrow>
                if err \<noteq> None \<and> err \<noteq> Some UnexpectedEOF \<and> err \<noteq> Some EOF then Inl (EPeekHeader (the err))
                else (case index_byte buf newline of
                        None \<Rightarrow> Inl EHeaderTooLong
                      | Some i \<Rightarrow> Inr (split_fields (chop_last carriage_return (take i buf)) delim))))"

text \<open>Whether the source is read as more than one chunk: the chunkable source and its size.\<close>

definition multi_chunk :: "source \<Rightarrow> config \<Rightarrow> (chunk_source \<times> int) option" where
  "multi_chunk src cfg =
     (case src of
        Chunkable cs _ \<Rightarrow>
          (if 1 < cf_chunks cfg
           then (case cs_size cs of Some sz \<Rightarrow> (if 0 < sz then Some (cs, sz) else None) | None \<Rightarrow> None)
           else None)
      | Stream _ \<Rightarrow> None)"

definition resolve_schema :: "source \<Rightarrow> config \<Rightarrow> ingest_error + schema \<times> line_reader option" where
  "resolve_schema src cfg =
     (let s = cf_schema cfg
      in if columns s \<noteq> [] then Inr (s, None)
         else if \<not> has_header s then Inl ENoColumns
         else (case multi_chunk src cfg of
             Some (cs, sz) \<Rightarrow>
               res_bind (peek_header_columns cs sz (delimiter_or_default s))
                 (\<lambda>names. Inr (with_inferred_columns s names, None))
           | None \<Rightarrow>
               (case read_line (new_line_reader (source_reader src) (cf_buffer_size cfg)) of
                  (Inl EOF, lr) \<Rightarrow> Inr (s, Some lr)
                | (Inl e, lr) \<Rightarrow> Inl (EReadHeader e)
                | (Inr line, lr) \<Rightarrow>
                    Inr (with_inferred_columns s (split_fields line (delimiter_or_default s)), Some lr))))"

section \<open>The runs\<close>

definition run_single ::
  "chunk_env \<Rightarrow> ctx_error \<Rightarrow> source \<Rightarrow> line_reader option \<Rightarrow> schema \<Rightarrow> config \<Rightarrow> drained" where
  "run_single env ce src lr s cfg =
     (let consumed = lr \<noteq> None;
          lr' = (case lr of None \<Rightarrow> new_line_reader (source_reader src) (cf_buffer_size cfg) | Some l \<Rightarrow> l);
          skip_header = (has_header s \<and> \<not> consumed);
          rp = new_row_parser_from_reader lr' s skip_header (cf_on_error cfg) (cf_report cfg)
      in drain_chunk env ce s (cf_batch_size cfg) rp)"

text \<open>One chunk's goroutine.\<close>

definition run_chunk ::
  "chunk_env \<Rightarrow> ctx_error \<Rightarrow> chunk_source \<Rightarrow> schema \<Rightarrow> config \<Rightarrow> nat \<Rightarrow> chunk \<Rightarrow> drained" where
  "run_chunk env ce cs s cfg idx c =
     (case cs_reader cs (ck_offset c) (ck_length c) of
        Inl e \<Rightarrow> \<lparr>dr_error = Some (EReader e), dr_batches = [], dr_skipped = []\<rparr>
      | Inr r \<Rightarrow>
          (let skip_header = (has_header s \<and> idx = 0);
               rp = new_row_parser r s (cf_buffer_size cfg) skip_header (cf_on_error cfg) (cf_report cfg)
           in drain_chunk env ce s (cf_batch_size cfg) rp))"

text \<open>The merge of several queues along a schedule.\<close>

fun merge_by :: "nat list \<Rightarrow> 'a list list \<Rightarrow> 'a list" where
  "merge_by [] qs = concat qs"
| "merge_by (i # sched) qs =
     (if i < length qs \<and> qs ! i \<noteq> []
      then hd (qs ! i) # merge_by sched (qs[i := tl (qs ! i)])
      else merge_by sched qs)"

record schedule =
  envs :: "nat \<Rightarrow> chunk_env"
  ctx_err :: ctx_error
  send_order :: "nat list"
  error_order :: "nat list"
  skip_order :: "nat list"

definition run_all_chunks ::
  "schedule \<Rightarrow> chunk_source \<Rightarrow> chunk list \<Rightarrow> schema \<Rightarrow> config \<Rightarrow> drained list" where
  "run_all_chunks sc cs chunks s cfg =
     map (\<lambda>(i, c). run_chunk (envs sc i) (ctx_err sc) cs s cfg i c) (zip [0..<length chunks] chunks)"

text \<open>The last loop of \<open>runChunks\<close>: the first error in the channel that is not \<open>context.Canceled\<close>.\<close>

fun first_error :: "ingest_error list \<Rightarrow> ingest_error option" where
  "first_error [] = None"
| "first_error (e # es) = (if e \<noteq> ECtx Canceled then Some e else first_error es)"

definition error_queue :: "drained \<Rightarrow> ingest_error list" where
  "error_queue d = (case dr_error d of None \<Rightarrow> [] | Some e \<Rightarrow> [e])"

definition run_chunks ::
  "schedule \<Rightarrow> chunk_source \<Rightarrow> chunk list \<Rightarrow> schema \<Rightarrow> config \<Rightarrow> drained" where
  "run_chunks sc cs chunks s cfg =
     (let ds = run_all_chunks sc cs chunks s cfg
      in \<lparr>dr_error = first_error (merge_by (error_order sc) (map error_queue ds)),
          dr_batches = merge_by (send_order sc) (map dr_batches ds),
          dr_skipped = merge_by (skip_order sc) (map dr_skipped ds)\<rparr>)"

definition fatal :: "ingest_error \<Rightarrow> drained" where
  "fatal e = \<lparr>dr_error = Some e, dr_batches = [], dr_skipped = []\<rparr>"

text \<open>\<open>ingest\<close>, and \<open>Ingest\<close> with the defaults filled in.\<close>

definition ingest_loop :: "schedule \<Rightarrow> source \<Rightarrow> config \<Rightarrow> drained" where
  "ingest_loop sc src cfg =
     (case resolve_schema src cfg of
        Inl e \<Rightarrow> fatal e
      | Inr (s, lr) \<Rightarrow>
          (case multi_chunk src cfg of
             Some (cs, sz) \<Rightarrow>
               (case align_chunks cs (plan_chunks sz (cf_chunks cfg)) of
                  Inl e \<Rightarrow> fatal (EChunk e)
                | Inr aligned \<Rightarrow> run_chunks sc cs aligned s cfg)
           | None \<Rightarrow> run_single (envs sc 0) (ctx_err sc) src lr s cfg))"

definition ingest :: "schedule \<Rightarrow> source \<Rightarrow> config \<Rightarrow> drained" where
  "ingest sc src cfg = ingest_loop sc src (with_defaults cfg)"

section \<open>What a chunk's rows are\<close>

text \<open>
  The specification of draining: the rows of the lines that parse, in order; the malformed lines with
  their numbers; and the error of the first malformed line under the failing policy.
\<close>

fun good_rows :: "error_policy \<Rightarrow> schema \<Rightarrow> bytes list \<Rightarrow> value_t option list list" where
  "good_rows pol s [] = []"
| "good_rows pol s (l # ls) =
     (case parse_line s l of
        Inr vs \<Rightarrow> row_cells s vs # good_rows pol s ls
      | Inl e \<Rightarrow> (if pol = ErrorPolicyFail then [] else good_rows pol s ls))"

fun bad_lines :: "error_policy \<Rightarrow> schema \<Rightarrow> int \<Rightarrow> bytes list \<Rightarrow> (int \<times> row_error) list" where
  "bad_lines pol s n [] = []"
| "bad_lines pol s n (l # ls) =
     (case parse_line s l of
        Inr vs \<Rightarrow> bad_lines pol s (n + 1) ls
      | Inl e \<Rightarrow> (if pol = ErrorPolicyFail then [] else (n + 1, e) # bad_lines pol s (n + 1) ls))"

fun fatal_line :: "error_policy \<Rightarrow> schema \<Rightarrow> int \<Rightarrow> bytes list \<Rightarrow> ingest_error option" where
  "fatal_line pol s n [] = None"
| "fatal_line pol s n (l # ls) =
     (case parse_line s l of
        Inr vs \<Rightarrow> fatal_line pol s (n + 1) ls
      | Inl e \<Rightarrow> (if pol = ErrorPolicyFail then Some (EParse (ErrLine (n + 1) e))
                 else fatal_line pol s (n + 1) ls))"

text \<open>The number of malformed lines.\<close>

definition bad_count :: "schema \<Rightarrow> bytes list \<Rightarrow> nat" where
  "bad_count s ls = length (filter (\<lambda>l. \<exists>e. parse_line s l = Inl e) ls)"

lemma length_bad_lines: "pol \<noteq> ErrorPolicyFail \<Longrightarrow> length (bad_lines pol s n ls) = bad_count s ls"
  by (induction ls arbitrary: n) (auto simp: bad_count_def split: sum.splits)

lemma bad_count_concat: "bad_count s (concat lss) = sum_list (map (bad_count s) lss)"
  by (induction lss) (auto simp: bad_count_def)

lemma good_rows_append:
  "pol \<noteq> ErrorPolicyFail \<Longrightarrow> good_rows pol s (xs @ ys) = good_rows pol s xs @ good_rows pol s ys"
  by (induction xs) (auto split: sum.splits)

lemma fatal_line_skip: "pol \<noteq> ErrorPolicyFail \<Longrightarrow> fatal_line pol s n ls = None"
  by (induction ls arbitrary: n) (auto split: sum.splits)

text \<open>The lines a row parser has still to read, its header (if one is pending) excluded.\<close>

definition data_lines :: "row_parser \<Rightarrow> bytes list" where
  "data_lines rp =
     (let ls = lines_of (rd_data (lr_in (rp_lr rp)))
      in if rp_header_handled rp \<or> \<not> rp_skip_header rp then ls else tl ls)"

definition rp_ready :: "schema \<Rightarrow> row_parser \<Rightarrow> bool" where
  "rp_ready s rp \<longleftrightarrow> rp_ok rp \<and> rp_schema rp = s \<and> \<not> rd_fail (lr_in (rp_lr rp))"

text \<open>The outcomes of reading a row, in terms of the lines left.\<close>

definition row_outcome ::
  "schema \<Rightarrow> row_parser \<Rightarrow> batch \<Rightarrow> bytes list \<Rightarrow> (parse_error + row_result) \<times> row_parser \<times> batch \<Rightarrow> bool" where
  "row_outcome s rp b ls out =
     (case out of (res, rp', b') \<Rightarrow>
        (case ls of
           [] \<Rightarrow> res = Inr RowEOF \<and> b' = b \<and> rp_skipped rp' = rp_skipped rp
         | l # ls' \<Rightarrow>
             (case parse_line s l of
                Inr vs \<Rightarrow> res = Inr RowOK \<and> b' = append_row vs b \<and> rp_skipped rp' = rp_skipped rp
              | Inl e \<Rightarrow>
                  (if rp_on_error rp = ErrorPolicyFail
                   then res = Inl (ErrLine (rp_line_no rp + 1) e) \<and> b' = b \<and> rp_skipped rp' = rp_skipped rp
                   else res = Inr RowSkipped \<and> b' = b
                      \<and> rp_skipped rp' = rp_skipped rp @ (if rp_report rp then [(rp_line_no rp + 1, e)] else [])))
             \<and> rp_ready s rp' \<and> rp_header_handled rp' \<and> rp_on_error rp' = rp_on_error rp
             \<and> rp_report rp' = rp_report rp \<and> data_lines rp' = ls' \<and> rp_line_no rp' = rp_line_no rp + 1))"

lemma row_outcome_cong:
  assumes "rp_skipped rp1 = rp_skipped rp" and "rp_on_error rp1 = rp_on_error rp"
    and "rp_line_no rp1 = rp_line_no rp" and "rp_report rp1 = rp_report rp"
  shows "row_outcome s rp1 = row_outcome s rp"
  unfolding row_outcome_def fun_eq_iff assms by simp

lemma next_data_row_lines:
  assumes "rp_ready s rp" and "rp_header_handled rp"
  shows "row_outcome s rp b (data_lines rp) (next_data_row rp b)"
proof (cases "data_lines rp")
  case Nil
  then have "read_line (rp_lr rp) = (Inl EOF, consume (length (rd_data (lr_in (rp_lr rp)))) (rp_lr rp))"
    using assms by (intro read_line_end) (auto simp: rp_ready_def rp_ok_def data_lines_def)
  then show ?thesis using Nil by (simp add: next_data_row_def row_outcome_def)
next
  case (Cons l ls')
  then obtain k where k: "read_line (rp_lr rp) = (Inr l, consume k (rp_lr rp))"
      "lines_of (drop k (rd_data (lr_in (rp_lr rp)))) = ls'"
    using assms read_line_more [of "rp_lr rp" l ls']
    by (auto simp: rp_ready_def rp_ok_def data_lines_def)
  show ?thesis
  proof (cases "parse_line s l")
    case (Inl e)
    then show ?thesis
      using Cons k assms
      by (simp add: next_data_row_def handle_row_error_def rp_ready_def rp_ok_def data_lines_def
          row_outcome_def Let_def)
  next
    case (Inr vs)
    then show ?thesis
      using Cons k assms
      by (simp add: next_data_row_def rp_ready_def rp_ok_def data_lines_def row_outcome_def Let_def)
  qed
qed

lemma next_row_lines:
  assumes "rp_ready s rp"
  shows "row_outcome s rp b (data_lines rp) (next_row rp b)"
proof (cases "rp_header_handled rp")
  case True
  with assms show ?thesis by (simp add: next_row_def next_data_row_lines)
next
  case pending: False
  show ?thesis
  proof (cases "rp_skip_header rp")
    case False
    define rp1 where "rp1 = rp\<lparr>rp_header_handled := True\<rparr>"
    have "row_outcome s rp1 b (data_lines rp1) (next_data_row rp1 b)"
      using assms by (intro next_data_row_lines) (simp_all add: rp1_def rp_ready_def rp_ok_def)
    moreover have "next_row rp b = next_data_row rp1 b"
      using pending False by (simp add: next_row_def handle_header_def rp1_def)
    moreover have "row_outcome s rp1 = row_outcome s rp"
      by (rule row_outcome_cong) (simp_all add: rp1_def)
    moreover have "data_lines rp1 = data_lines rp"
      using False by (simp add: rp1_def data_lines_def)
    ultimately show ?thesis by simp
  next
    case skip: True
    show ?thesis
    proof (cases "lines_of (rd_data (lr_in (rp_lr rp)))")
      case Nil
      then have "read_line (rp_lr rp) = (Inl EOF, consume (length (rd_data (lr_in (rp_lr rp)))) (rp_lr rp))"
        using assms by (intro read_line_end) (auto simp: rp_ready_def rp_ok_def)
      with Nil pending skip show ?thesis
        by (simp add: next_row_def handle_header_def row_outcome_def data_lines_def)
    next
      case (Cons h ls')
      then obtain k where k: "read_line (rp_lr rp) = (Inr h, consume k (rp_lr rp))"
          "lines_of (drop k (rd_data (lr_in (rp_lr rp)))) = ls'"
        using assms read_line_more [of "rp_lr rp" h ls'] by (auto simp: rp_ready_def rp_ok_def)
      define rp1 where "rp1 = rp\<lparr>rp_header_handled := True, rp_lr := consume k (rp_lr rp)\<rparr>"
      have "row_outcome s rp1 b (data_lines rp1) (next_data_row rp1 b)"
        using assms by (intro next_data_row_lines) (simp_all add: rp1_def rp_ready_def rp_ok_def)
      moreover have "next_row rp b = next_data_row rp1 b"
        using pending skip k by (simp add: next_row_def handle_header_def rp1_def)
      moreover have "row_outcome s rp1 = row_outcome s rp"
        by (rule row_outcome_cong) (simp_all add: rp1_def)
      moreover have "data_lines rp1 = data_lines rp"
        using pending skip Cons k(2) by (simp add: rp1_def data_lines_def)
      ultimately show ?thesis by simp
    qed
  qed
qed

section \<open>Draining is correct\<close>

definition env_ok :: "schema \<Rightarrow> chunk_env \<Rightarrow> bool" where
  "env_ok s env \<longleftrightarrow> (\<forall>k. \<not> poll env k) \<and> (\<forall>k. pool_ok s (pool env k))"

text \<open>
  Every batch sent is well-formed and holds between one and \<open>bsize\<close> rows, all but the last exactly
  \<open>bsize\<close>; and the batches' rows, in order, are the rows given, except for fewer than \<open>bsize\<close> that were
  still unsent when an error ended the run.
\<close>

definition dealt :: "schema \<Rightarrow> int \<Rightarrow> bool \<Rightarrow> value_t option list list \<Rightarrow> batch list \<Rightarrow> bool" where
  "dealt s bsize complete rows bs \<longleftrightarrow>
     (\<forall>b \<in> set bs. wf_batch s b \<and> 0 < num_rows b \<and> int (num_rows b) \<le> bsize)
     \<and> (\<forall>b \<in> set (butlast bs). int (num_rows b) = bsize)
     \<and> (\<exists>rest. rows = concat (map batch_rows bs) @ rest \<and> int (length rest) < bsize
            \<and> (complete \<longrightarrow> rest = []))"

lemma dealt_Nil: "int (length rows) < bsize \<Longrightarrow> (complete \<Longrightarrow> rows = []) \<Longrightarrow> dealt s bsize complete rows []"
  by (simp add: dealt_def)

lemma dealt_no_rows:
  assumes "dealt s bsize True [] bs"
  shows "bs = []"
proof (cases bs)
  case (Cons b bs')
  then have "0 < num_rows b" and "batch_rows b = []" using assms by (auto simp: dealt_def)
  then show ?thesis using length_batch_rows [of b] by simp
qed

lemma dealt_last:
  "wf_batch s b \<Longrightarrow> 0 < num_rows b \<Longrightarrow> int (num_rows b) \<le> bsize \<Longrightarrow> dealt s bsize True (batch_rows b) [b]"
  by (auto simp: dealt_def)

lemma dealt_Cons:
  "dealt s bsize complete rows bs \<Longrightarrow> wf_batch s b \<Longrightarrow> int (num_rows b) = bsize \<Longrightarrow> 0 < bsize \<Longrightarrow>
     dealt s bsize complete (batch_rows b @ rows) (b # bs)"
  by (auto simp: dealt_def)

definition drained_as :: "schema \<Rightarrow> int \<Rightarrow> row_parser \<Rightarrow> batch \<Rightarrow> batch list \<Rightarrow> drained \<Rightarrow> bool" where
  "drained_as s bsize rp b out d =
     (let pol = rp_on_error rp; ls = data_lines rp; err = fatal_line pol s (rp_line_no rp) ls
      in \<exists>bs. dr_error d = err
        \<and> dr_skipped d = rp_skipped rp @ (if rp_report rp then bad_lines pol s (rp_line_no rp) ls else [])
        \<and> dr_batches d = out @ bs
        \<and> dealt s bsize (err = None) (batch_rows b @ good_rows pol s ls) bs)"

lemma drain_loop_correct:
  assumes "env_ok s env" and "rp_ready s rp" and "wf_batch s b" and "int (num_rows b) < bsize"
  shows "drained_as s bsize rp b out (drain_loop env ce s bsize k p rp b out)"
  using assms
proof (induction "data_lines rp" arbitrary: rp k p b out)
  case Nil
  obtain res rp' b' where n: "next_row rp b = (res, rp', b')" by (metis prod_cases3)
  with next_row_lines [OF Nil.prems(2), of b] Nil(1)
  have o: "res = Inr RowEOF" "b' = b" "rp_skipped rp' = rp_skipped rp"
    by (simp_all add: row_outcome_def flip: Nil(1))
  show ?case
  proof (cases "num_rows b = 0")
    case True
    then have "batch_rows b = []" by (simp add: batch_rows_def)
    then show ?thesis
      using True n o Nil.prems Nil(1) [symmetric]
      by (simp add: drain_loop.simps [of env] drained_as_def env_ok_def dealt_Nil)
  next
    case False
    then show ?thesis
      using n o Nil.prems Nil(1) [symmetric] dealt_last [of s b bsize]
      by (simp add: drain_loop.simps [of env] drained_as_def env_ok_def)
  qed
next
  case (Cons l ls)
  have np: "\<not> poll env j" for j using Cons.prems(1) by (simp add: env_ok_def)
  obtain res rp' b' where n: "next_row rp b = (res, rp', b')" by (metis prod_cases3)
  have out: "row_outcome s rp b (l # ls) (res, rp', b')"
    using next_row_lines [OF Cons.prems(2), of b] n Cons(2) by simp
  then have rp': "rp_ready s rp'" "data_lines rp' = ls" "rp_line_no rp' = rp_line_no rp + 1"
      "rp_on_error rp' = rp_on_error rp" "rp_report rp' = rp_report rp"
    by (simp_all add: row_outcome_def)
  note ih = Cons(1) [OF rp'(2) [symmetric] Cons.prems(1) rp'(1)]
  show ?case
  proof (cases "parse_line s l")
    case (Inl e)
    show ?thesis
    proof (cases "rp_on_error rp = ErrorPolicyFail")
      case True
      with Inl out have o: "res = Inl (ErrLine (rp_line_no rp + 1) e)" "rp_skipped rp' = rp_skipped rp"
        by (simp_all add: row_outcome_def)
      show ?thesis
        using True Inl o n np Cons.prems Cons(2) [symmetric]
        by (simp add: drain_loop.simps [of env] drained_as_def dealt_Nil)
    next
      case False
      with Inl out have o: "res = Inr RowSkipped" "b' = b"
          "rp_skipped rp' = rp_skipped rp @ (if rp_report rp then [(rp_line_no rp + 1, e)] else [])"
        by (simp_all add: row_outcome_def)
      show ?thesis
        using False Inl o n np ih [OF Cons.prems(3,4), of out "k + 1" p] rp' Cons(2) [symmetric]
        by (simp add: drain_loop.simps [of env ce s bsize k] drained_as_def Let_def)
    qed
  next
    case (Inr vs)
    note app = append_row_wf [OF Cons.prems(3) parse_line_parsed_as [OF Inr]]
      append_row_rows [OF Cons.prems(3) parse_line_parsed_as [OF Inr], folded row_cells_def]
    from Inr out have o: "res = Inr RowOK" "b' = append_row vs b" "rp_skipped rp' = rp_skipped rp"
      by (simp_all add: row_outcome_def)
    show ?thesis
    proof (cases "bsize \<le> int (num_rows b')")
      case False
      then show ?thesis
        using Inr o n np ih [of b' out "k + 1" p] app rp' Cons(2) [symmetric]
        by (simp add: drain_loop.simps [of env ce s bsize k] drained_as_def Let_def)
    next
      case True
      have fresh: "get_batch s (pool env p) = new_batch s"
        using Cons.prems(1) by (simp add: env_ok_def get_batch_pool)
      have full: "int (num_rows b') = bsize" "0 < bsize" using True Cons.prems(4) o(2) by simp_all
      have "drained_as s bsize rp' (new_batch s) (out @ [b'])
          (drain_loop env ce s bsize (k + 2) (p + 1) rp' (new_batch s) (out @ [b']))"
        using ih [of "new_batch s"] full(2) by (simp add: wf_new_batch)
      then obtain bs where bs: "dealt s bsize (fatal_line (rp_on_error rp) s (rp_line_no rp + 1) ls = None)
            (good_rows (rp_on_error rp) s ls) bs"
          "drained_as s bsize rp' (new_batch s) (out @ [b']) \<lparr>dr_error = fatal_line (rp_on_error rp) s (rp_line_no rp + 1) ls,
             dr_batches = (out @ [b']) @ bs,
             dr_skipped = rp_skipped rp @ (if rp_report rp then bad_lines (rp_on_error rp) s (rp_line_no rp + 1) ls else [])\<rparr>"
          "drain_loop env ce s bsize (k + 2) (p + 1) rp' (new_batch s) (out @ [b'])
             = \<lparr>dr_error = fatal_line (rp_on_error rp) s (rp_line_no rp + 1) ls,
             dr_batches = (out @ [b']) @ bs,
             dr_skipped = rp_skipped rp @ (if rp_report rp then bad_lines (rp_on_error rp) s (rp_line_no rp + 1) ls else [])\<rparr>"
        using rp' o(3) by (auto simp: drained_as_def Let_def intro: drained.equality)
      have "dealt s bsize (fatal_line (rp_on_error rp) s (rp_line_no rp + 1) ls = None)
          (batch_rows b' @ good_rows (rp_on_error rp) s ls) (b' # bs)"
        using dealt_Cons [OF bs(1) _ full] app(1) o(2) by simp
      then show ?thesis
        using Inr o n np fresh app True bs(3) Cons(2) [symmetric]
        by (simp add: drain_loop.simps [of env ce s bsize k p rp] drained_as_def Let_def)
    qed
  qed
qed

lemma drain_chunk_spec:
  fixes ce :: ctx_error
  assumes "env_ok s env" and "rp_ready s rp" and "0 < bsize"
  defines "d \<equiv> drain_chunk env ce s bsize rp"
  shows "dr_error d = fatal_line (rp_on_error rp) s (rp_line_no rp) (data_lines rp)"
    and "dr_skipped d = rp_skipped rp
       @ (if rp_report rp then bad_lines (rp_on_error rp) s (rp_line_no rp) (data_lines rp) else [])"
    and "dealt s bsize (dr_error d = None) (good_rows (rp_on_error rp) s (data_lines rp)) (dr_batches d)"
proof -
  have "get_batch s (pool env 0) = new_batch s"
    using assms(1) by (simp add: env_ok_def get_batch_pool)
  then have "drained_as s bsize rp (new_batch s) [] d"
    using drain_loop_correct [OF assms(1,2) wf_new_batch, of bsize "[]" ce 0 1] assms(3)
    by (simp add: d_def drain_chunk_def)
  then show "dr_error d = fatal_line (rp_on_error rp) s (rp_line_no rp) (data_lines rp)"
      "dr_skipped d = rp_skipped rp
       @ (if rp_report rp then bad_lines (rp_on_error rp) s (rp_line_no rp) (data_lines rp) else [])"
      "dealt s bsize (dr_error d = None) (good_rows (rp_on_error rp) s (data_lines rp)) (dr_batches d)"
    by (auto simp: drained_as_def Let_def)
qed

section \<open>Merging\<close>

lemma mset_concat_pop:
  "i < length qs \<Longrightarrow> qs ! i \<noteq> [] \<Longrightarrow>
     mset (concat qs) = add_mset (hd (qs ! i)) (mset (concat (qs[i := tl (qs ! i)])))"
proof (induction qs arbitrary: i)
  case Nil
  then show ?case by simp
next
  case (Cons q qs)
  show ?case
  proof (cases i)
    case 0
    then show ?thesis using Cons.prems by (cases q) auto
  next
    case (Suc j)
    then show ?thesis using Cons by simp
  qed
qed

text \<open>A schedule loses and duplicates nothing, and keeps every queue in order.\<close>

lemma mset_merge_by: "mset (merge_by sched qs) = mset (concat qs)"
  by (induction sched qs rule: merge_by.induct) (auto simp: mset_concat_pop)

lemma set_merge_by: "set (merge_by sched qs) = set (concat qs)"
  using mset_merge_by [of sched qs] mset_eq_setD by blast

lemma merge_by_Nil_iff: "merge_by sched qs = [] \<longleftrightarrow> concat qs = []"
  using mset_merge_by [of sched qs] by (metis mset_zero_iff)

lemma first_error_None_iff: "first_error es = None \<longleftrightarrow> set es \<subseteq> {ECtx Canceled}"
  by (induction es) auto

lemma first_error_Some: "first_error es = Some e \<Longrightarrow> e \<in> set es \<and> e \<noteq> ECtx Canceled"
  by (induction es) (auto split: if_splits)

definition sent_rows :: "batch list \<Rightarrow> value_t option list list" where
  "sent_rows bs = concat (map batch_rows bs)"

lemma length_merge_by: "length (merge_by sched qs) = sum_list (map length qs)"
proof -
  have "length (merge_by sched qs) = size (mset (merge_by sched qs))" by simp
  also have "\<dots> = length (concat qs)" by (simp add: mset_merge_by)
  finally show ?thesis by (simp add: length_concat)
qed

lemma sent_rows_merge: "mset (sent_rows (merge_by sched bss)) = mset (concat (map sent_rows bss))"
proof -
  have "mset (sent_rows bs) = \<Sum>\<^sub># (image_mset (mset \<circ> batch_rows) (mset bs))" for bs
    by (induction bs) (auto simp: sent_rows_def)
  then have "mset (sent_rows (merge_by sched bss)) = mset (sent_rows (concat bss))"
    by (simp add: mset_merge_by)
  also have "sent_rows (concat bss) = concat (map sent_rows bss)"
    by (induction bss) (auto simp: sent_rows_def)
  finally show ?thesis .
qed

section \<open>Sequential runs\<close>

lemma with_defaults_simps [simp]:
  "cf_schema (with_defaults cfg) = cf_schema cfg"
  "cf_on_error (with_defaults cfg) = cf_on_error cfg"
  "cf_report (with_defaults cfg) = cf_report cfg"
  "cf_chunks (with_defaults cfg) = max 1 (cf_chunks cfg)"
  "0 < cf_batch_size (with_defaults cfg)"
  "0 < cf_buffer_size (with_defaults cfg)"
  by (auto simp: with_defaults_def Let_def default_batch_size_def default_buffer_size_def)

lemma new_line_reader_simps [simp]:
  "lr_in (new_line_reader r n) = r" "0 < lr_bufsize (new_line_reader r n)"
  by (simp_all add: new_line_reader_def)

definition header_dropped :: "bool \<Rightarrow> bytes list \<Rightarrow> bytes list" where
  "header_dropped h ls = (if h then tl ls else ls)"

text \<open>What the configuration asks for on given data lines.\<close>

definition ingested_as :: "config \<Rightarrow> schema \<Rightarrow> bytes list \<Rightarrow> drained \<Rightarrow> bool" where
  "ingested_as cfg s ls d \<longleftrightarrow>
     dr_error d = fatal_line (cf_on_error cfg) s 0 ls
     \<and> dr_skipped d = (if cf_report cfg then bad_lines (cf_on_error cfg) s 0 ls else [])
     \<and> dealt s (cf_batch_size cfg) (dr_error d = None) (good_rows (cf_on_error cfg) s ls) (dr_batches d)"

lemma new_parser_ready:
  "0 < lr_bufsize lr \<Longrightarrow> \<not> rd_fail (lr_in lr) \<Longrightarrow> rp_ready s (new_row_parser_from_reader lr s h pol rep)"
  by (simp add: rp_ready_def rp_ok_def new_row_parser_from_reader_def)

lemma new_parser_lines:
  "data_lines (new_row_parser_from_reader lr s h pol rep) = header_dropped h (lines_of (rd_data (lr_in lr)))"
  by (simp add: data_lines_def new_row_parser_from_reader_def header_dropped_def Let_def)

lemma drain_new_parser:
  assumes "env_ok s env" and "0 < cf_batch_size cfg" and "0 < lr_bufsize lr" and "\<not> rd_fail (lr_in lr)"
  shows "ingested_as cfg s (header_dropped h (lines_of (rd_data (lr_in lr))))
     (drain_chunk env ce s (cf_batch_size cfg)
       (new_row_parser_from_reader lr s h (cf_on_error cfg) (cf_report cfg)))"
  using drain_chunk_spec [OF assms(1) new_parser_ready [OF assms(3,4)] assms(2), where ce = ce]
  by (simp add: ingested_as_def new_parser_lines)
    (simp add: new_row_parser_from_reader_def)

lemma run_chunk_file:
  assumes "env_ok s env" and "0 < cf_batch_size cfg" and "0 \<le> ck_offset c" and "0 \<le> ck_length c"
  shows "ingested_as cfg s
     (header_dropped (has_header s \<and> idx = 0) (lines_of (section_of content (ck_offset c) (ck_length c))))
     (run_chunk env ce (file_source content) s cfg idx c)"
  using drain_new_parser [OF assms(1,2), of "new_line_reader \<lparr>rd_data = section_of content (ck_offset c) (ck_length c),
      rd_fail = False\<rparr> (cf_buffer_size cfg)" "has_header s \<and> idx = 0" ce] assms(3,4)
  by (auto simp: run_chunk_def file_source_def file_chunk_reader_def new_row_parser_def section_of_def
      cong: if_cong)

lemma stream_ingested:
  assumes "columns (cf_schema cfg) \<noteq> []" and "env_ok (cf_schema cfg) (envs sc 0)" and "\<not> rd_fail rd"
  shows "ingested_as (with_defaults cfg) (cf_schema cfg)
     (header_dropped (has_header (cf_schema cfg)) (lines_of (rd_data rd))) (ingest sc (Stream rd) cfg)"
  using assms drain_new_parser [OF assms(2), of "with_defaults cfg" "new_line_reader rd (cf_buffer_size (with_defaults cfg))"]
  by (simp add: ingest_def ingest_loop_def resolve_schema_def run_single_def multi_chunk_def source_reader_def)

text \<open>
  C28. A sequential run over a source with given columns and no I/O error: the batches hold exactly the
  rows of the well-formed data lines, in order; every malformed line is reported with its line number,
  or ends the run with its error under the failing policy; batches have between one and \<open>BatchSize\<close>
  rows and only the last may be short.
\<close>

theorem ingest_sequential:
  assumes "multi_chunk src (with_defaults cfg) = None" and "columns (cf_schema cfg) \<noteq> []"
    and "\<not> rd_fail (source_reader src)" and "env_ok (cf_schema cfg) (envs sc 0)"
  shows "ingested_as (with_defaults cfg) (cf_schema cfg)
     (header_dropped (has_header (cf_schema cfg)) (lines_of (rd_data (source_reader src)))) (ingest sc src cfg)"
  using assms drain_new_parser [OF assms(4), of "with_defaults cfg"
      "new_line_reader (source_reader src) (cf_buffer_size (with_defaults cfg))"]
  by (simp add: ingest_def ingest_loop_def resolve_schema_def run_single_def)

text \<open>A configuration and a quiet schedule to apply the properties to.\<close>

definition name_column :: column_schema where
  "name_column = \<lparr>cs_name = ''name'', cs_type = TypeString, cs_kind = KindDimension\<rparr>"

definition line_schema :: schema where
  "line_schema = \<lparr>delimiter = CHR '';'', has_header = True, quote_aware = False, columns = [name_column]\<rparr>"

definition line_config :: "int \<Rightarrow> config" where
  "line_config n = \<lparr>cf_schema = line_schema, cf_chunks = n, cf_batch_size = 0, cf_buffer_size = 0,
     cf_on_error = ErrorPolicySkip, cf_report = False\<rparr>"

definition quiet_schedule :: schedule where
  "quiet_schedule = \<lparr>envs = \<lambda>_. \<lparr>poll = \<lambda>_. False, pool = \<lambda>_. None\<rparr>, ctx_err = Canceled,
     send_order = [], error_order = [], skip_order = []\<rparr>"

lemma quiet_env_ok [simp]: "env_ok s (envs quiet_schedule i)"
  by (simp add: env_ok_def quiet_schedule_def pool_ok_def)

theorem ingest_sequential_witness:
  "dr_error (ingest quiet_schedule (stream_source ''name'') (line_config 1)) = None"
  using ingest_sequential [of "stream_source ''name''" "line_config 1" quiet_schedule]
  by (simp add: multi_chunk_def stream_source_def source_reader_def line_config_def line_schema_def
      ingested_as_def header_dropped_def lines_of.simps newline_def fatal_line_skip)

section \<open>Chunked runs\<close>

lemma header_dropped_chunks:
  "lss \<noteq> [] \<Longrightarrow> hd lss \<noteq> [] \<Longrightarrow>
     concat (map (\<lambda>(i, ls). header_dropped (h \<and> i = 0) ls) (zip [0..<length lss] lss))
       = header_dropped h (concat lss)"
proof -
  assume "lss \<noteq> []" and "hd lss \<noteq> []"
  then obtain ls rest where lss: "lss = ls # rest" and "ls \<noteq> []" by (cases lss) auto
  have "map (\<lambda>(i, ls). header_dropped (h \<and> i = 0) ls) (zip [Suc 0..<Suc (length rest)] rest) = rest"
    by (rule nth_equalityI) (auto simp: header_dropped_def simp del: upt_Suc)
  with lss \<open>ls \<noteq> []\<close> show ?thesis
    by (simp add: upt_conv_Cons header_dropped_def del: upt_Suc)
qed

lemma lines_of_nonempty: "d \<noteq> [] \<Longrightarrow> lines_of d \<noteq> []"
  by (simp add: lines_of.simps [of d] split: option.splits)

lemma good_rows_concat:
  "pol \<noteq> ErrorPolicyFail \<Longrightarrow> good_rows pol s (concat lss) = concat (map (good_rows pol s) lss)"
  by (induction lss) (auto simp: good_rows_append)

lemma dealt_complete: "dealt s n True rows bs \<Longrightarrow> sent_rows bs = rows"
  by (auto simp: dealt_def sent_rows_def)

text \<open>The lines of each chunk, the header dropped from the first.\<close>

definition chunk_lines :: "bytes \<Rightarrow> bool \<Rightarrow> chunk list \<Rightarrow> bytes list list" where
  "chunk_lines content h cs =
     map (\<lambda>(i, c). header_dropped (h \<and> i = 0) (lines_of (section_of content (ck_offset c) (ck_length c))))
       (zip [0..<length cs] cs)"

lemma chunk_lines_concat:
  assumes "cs \<noteq> []" and "content \<noteq> []" and "tiles 0 cs (int (length content))" and "0 < ck_length (hd cs)"
    and "concat (map (\<lambda>c. lines_of (section_of content (ck_offset c) (ck_length c))) cs) = lines_of content"
  shows "concat (chunk_lines content h cs) = header_dropped h (lines_of content)"
proof -
  define lss where "lss = map (\<lambda>c. lines_of (section_of content (ck_offset c) (ck_length c))) cs"
  have "section_of content (ck_offset (hd cs)) (ck_length (hd cs)) \<noteq> []"
    using assms(1-4) by (cases cs) (auto simp: section_of_def)
  then have "hd lss \<noteq> []" using assms(1) by (cases cs) (auto simp: lss_def lines_of_nonempty)
  moreover have "chunk_lines content h cs
      = map (\<lambda>(i, ls). header_dropped (h \<and> i = 0) ls) (zip [0..<length lss] lss)"
    by (simp add: chunk_lines_def lss_def zip_map2 case_prod_unfold)
  ultimately show ?thesis
    using header_dropped_chunks [of lss h] assms(1,5) by (simp add: lss_def)
qed

lemma run_all_chunks_file:
  assumes "\<And>i. i < length cs \<Longrightarrow> env_ok s (envs sc i)" and "0 < cf_batch_size cfg"
    and "tiles 0 cs (int (length content))"
  shows "list_all2 (ingested_as cfg s) (chunk_lines content (has_header s) cs)
     (run_all_chunks sc (file_source content) cs s cfg)"
  unfolding list_all2_conv_all_nth
proof (intro conjI allI impI)
  show "length (chunk_lines content (has_header s) cs) = length (run_all_chunks sc (file_source content) cs s cfg)"
    by (simp add: chunk_lines_def run_all_chunks_def)
  fix i assume "i < length (chunk_lines content (has_header s) cs)"
  then have i: "i < length cs" by (simp add: chunk_lines_def)
  then have "0 \<le> ck_offset (cs ! i)" "0 \<le> ck_length (cs ! i)"
    using tiles_member [OF assms(3), of "cs ! i"] by auto
  with i show "ingested_as cfg s (chunk_lines content (has_header s) cs ! i)
      (run_all_chunks sc (file_source content) cs s cfg ! i)"
    using run_chunk_file [OF assms(1) assms(2), of i "cs ! i"]
    by (simp add: chunk_lines_def run_all_chunks_def)
qed

lemma run_chunks_file:
  assumes "\<And>i. i < length cs \<Longrightarrow> env_ok s (envs sc i)" and "0 < cf_batch_size cfg"
    and "tiles 0 cs (int (length content))" and "cf_on_error cfg \<noteq> ErrorPolicyFail"
  defines "d \<equiv> run_chunks sc (file_source content) cs s cfg"
  shows "dr_error d = None"
    and "mset (sent_rows (dr_batches d)) = mset (good_rows (cf_on_error cfg) s (concat (chunk_lines content (has_header s) cs)))"
    and "\<forall>b \<in> set (dr_batches d). wf_batch s b \<and> 0 < num_rows b \<and> int (num_rows b) \<le> cf_batch_size cfg"
    and "length (dr_skipped d) = (if cf_report cfg then bad_count s (concat (chunk_lines content (has_header s) cs)) else 0)"
proof -
  define lss where "lss = chunk_lines content (has_header s) cs"
  define ds where "ds = run_all_chunks sc (file_source content) cs s cfg"
  have all: "list_all2 (ingested_as cfg s) lss ds"
    using run_all_chunks_file [OF assms(1-3)] by (simp add: lss_def ds_def)
  have ok: "dr_error (ds ! i) = None" "sent_rows (dr_batches (ds ! i)) = good_rows (cf_on_error cfg) s (lss ! i)"
      "\<forall>b \<in> set (dr_batches (ds ! i)). wf_batch s b \<and> 0 < num_rows b \<and> int (num_rows b) \<le> cf_batch_size cfg"
    if "i < length ds" for i
    using list_all2_nthD2 [OF all that] assms(4) dealt_complete
    by (auto simp: ingested_as_def fatal_line_skip dealt_def sent_rows_def)
  have "map error_queue ds = map (\<lambda>_. []) ds"
    by (rule nth_equalityI) (auto simp: error_queue_def ok)
  then show "dr_error d = None"
    by (simp add: d_def run_chunks_def first_error_None_iff set_merge_by flip: ds_def)
  have "map (sent_rows \<circ> dr_batches) ds = map (good_rows (cf_on_error cfg) s) lss"
    using list_all2_lengthD [OF all] by (intro nth_equalityI) (auto simp: ok)
  then show "mset (sent_rows (dr_batches d)) = mset (good_rows (cf_on_error cfg) s (concat (chunk_lines content (has_header s) cs)))"
    using assms(4) by (simp add: d_def run_chunks_def sent_rows_merge good_rows_concat flip: ds_def lss_def)
  have "map (length \<circ> dr_skipped) ds = map (\<lambda>ls. if cf_report cfg then bad_count s ls else 0) lss"
    using list_all2_lengthD [OF all] list_all2_nthD2 [OF all] assms(4)
    by (intro nth_equalityI) (auto simp: ingested_as_def length_bad_lines)
  moreover have "length (dr_skipped d) = sum_list (map (length \<circ> dr_skipped) ds)"
    by (simp add: d_def run_chunks_def length_merge_by comp_def flip: ds_def)
  ultimately show "length (dr_skipped d) = (if cf_report cfg then bad_count s (concat (chunk_lines content (has_header s) cs)) else 0)"
    by (simp add: bad_count_concat comp_def flip: lss_def)
  show "\<forall>b \<in> set (dr_batches d). wf_batch s b \<and> 0 < num_rows b \<and> int (num_rows b) \<le> cf_batch_size cfg"
  proof
    fix b assume "b \<in> set (dr_batches d)"
    then obtain d' where "d' \<in> set ds" and b: "b \<in> set (dr_batches d')"
      by (auto simp: d_def run_chunks_def set_merge_by simp flip: ds_def)
    then obtain i where "i < length ds" "ds ! i = d'" by (auto simp: in_set_conv_nth)
    with ok(3) b show "wf_batch s b \<and> 0 < num_rows b \<and> int (num_rows b) \<le> cf_batch_size cfg" by blast
  qed
qed

lemma ingest_file:
  assumes "columns (cf_schema cfg) \<noteq> []" and "cf_on_error cfg \<noteq> ErrorPolicyFail"
    and "\<And>i. env_ok (cf_schema cfg) (envs sc i)"
  shows "let d = ingest sc (open_file content) cfg;
             ls = header_dropped (has_header (cf_schema cfg)) (lines_of content)
    in dr_error d = None
     \<and> mset (sent_rows (dr_batches d)) = mset (good_rows (cf_on_error cfg) (cf_schema cfg) ls)
     \<and> length (dr_skipped d) = (if cf_report cfg then bad_count (cf_schema cfg) ls else 0)
     \<and> (\<forall>b \<in> set (dr_batches d). wf_batch (cf_schema cfg) b \<and> 0 < num_rows b
            \<and> int (num_rows b) \<le> cf_batch_size (with_defaults cfg))"
proof (cases "multi_chunk (open_file content) (with_defaults cfg)")
  case None
  have "ingested_as (with_defaults cfg) (cf_schema cfg)
     (header_dropped (has_header (cf_schema cfg)) (lines_of content)) (ingest sc (open_file content) cfg)"
    using drain_new_parser [OF assms(3), of "with_defaults cfg"
        "new_line_reader (source_reader (open_file content)) (cf_buffer_size (with_defaults cfg))"] None assms(1)
    by (simp add: ingest_def ingest_loop_def resolve_schema_def run_single_def open_file_def source_reader_def)
  then show ?thesis
    using assms(2) dealt_complete by (auto simp: ingested_as_def fatal_line_skip length_bad_lines dealt_def sent_rows_def)
next
  case (Some m)
  define n where "n = cf_chunks (with_defaults cfg)"
  have m: "m = (file_source content, int (length content))" and ne: "content \<noteq> []"
    using Some by (auto simp: multi_chunk_def open_file_def file_source_def split: if_splits)
  obtain cs where cs: "align_chunks (file_source content) (plan_chunks (int (length content)) n) = Inr cs"
      "cs \<noteq> []" "tiles 0 cs (int (length content))" "0 < ck_length (hd cs)"
      "concat (map (\<lambda>c. lines_of (section_of content (ck_offset c) (ck_length c))) cs) = lines_of content"
    using chunk_plan_file [of content n] ne by auto
  have run: "ingest sc (open_file content) cfg
      = run_chunks sc (file_source content) cs (cf_schema cfg) (with_defaults cfg)"
    using Some m cs(1) assms(1) by (simp add: ingest_def ingest_loop_def resolve_schema_def n_def)
  show ?thesis
    using run_chunks_file [OF assms(3), of "with_defaults cfg" cs content] cs assms(2)
      chunk_lines_concat [OF cs(2) ne cs(3-5), of "has_header (cf_schema cfg)"]
    by (simp add: run Let_def)
qed

text \<open>A file and a stream with the same contents give the same rows.\<close>

lemma ingest_input:
  assumes "src \<in> {open_file content, stream_source content}" and "columns (cf_schema cfg) \<noteq> []"
    and "cf_on_error cfg \<noteq> ErrorPolicyFail" and "\<And>i. env_ok (cf_schema cfg) (envs sc i)"
  shows "let d = ingest sc src cfg; ls = header_dropped (has_header (cf_schema cfg)) (lines_of content)
    in dr_error d = None
     \<and> mset (sent_rows (dr_batches d)) = mset (good_rows (cf_on_error cfg) (cf_schema cfg) ls)
     \<and> length (dr_skipped d) = (if cf_report cfg then bad_count (cf_schema cfg) ls else 0)
     \<and> (\<forall>b \<in> set (dr_batches d). wf_batch (cf_schema cfg) b \<and> 0 < num_rows b
            \<and> int (num_rows b) \<le> cf_batch_size (with_defaults cfg))"
proof (cases "src = open_file content")
  case True
  with ingest_file [OF assms(2-4), of content] show ?thesis by simp
next
  case False
  then have "src = Stream \<lparr>rd_data = content, rd_fail = False\<rparr>" using assms(1) by (simp add: stream_source_def)
  then show ?thesis
    using stream_ingested [OF assms(2,4), of "\<lparr>rd_data = content, rd_fail = False\<rparr>"] assms(3) dealt_complete
    by (auto simp: ingested_as_def fatal_line_skip length_bad_lines dealt_def sent_rows_def)
qed

text \<open>
  C9. Chunking is transparent. Reading a file with any number of chunks, under any interleaving of the
  chunks' goroutines, delivers without error exactly the rows of the file's well-formed data lines, each
  as often as it occurs there, reports every malformed line once, and cuts the rows in batches of between one and \<open>BatchSize\<close> rows.
\<close>

theorem ingest_chunked:
  assumes "columns (cf_schema cfg) \<noteq> []" and "cf_on_error cfg \<noteq> ErrorPolicyFail"
    and "\<And>i. env_ok (cf_schema cfg) (envs sc i)"
  shows "let d = ingest sc (open_file content) cfg;
             ls = header_dropped (has_header (cf_schema cfg)) (lines_of content)
    in dr_error d = None
     \<and> mset (sent_rows (dr_batches d)) = mset (good_rows (cf_on_error cfg) (cf_schema cfg) ls)
     \<and> length (dr_skipped d) = (if cf_report cfg then bad_count (cf_schema cfg) ls else 0)
     \<and> (\<forall>b \<in> set (dr_batches d). wf_batch (cf_schema cfg) b \<and> 0 < num_rows b
            \<and> int (num_rows b) \<le> cf_batch_size (with_defaults cfg))"
  using assms by (rule ingest_file)

theorem ingest_chunked_witness:
  "mset (sent_rows (dr_batches (ingest quiet_schedule (open_file ''name'') (line_config 2)))) = {#}"
  using ingest_chunked [of "line_config 2" quiet_schedule "''name''"]
  by (simp add: line_config_def line_schema_def header_dropped_def lines_of.simps newline_def Let_def)

section \<open>Errors and cancellation\<close>

lemma drain_loop_cancelled:
  "dr_error (drain_loop env ce s bsize k p rp b out) = Some (ECtx e) \<Longrightarrow> \<exists>j. poll env j"
proof (induction env ce s bsize k p rp b out rule: drain_loop.induct)
  case (1 env ce s bsize k p rp b out)
  obtain res rp' b' where n: "next_row rp b = (res, rp', b')" by (metis prod_cases3)
  show ?case
  proof (cases res)
    case (Inl e)
    then show ?thesis using 1(4) n by (auto simp: drain_loop.simps [of env ce s bsize k] split: if_splits)
  next
    case (Inr r)
    then show ?thesis
      using 1(4) 1(1-3) [OF _ n [symmetric] Inr] n
      by (cases r) (auto simp: drain_loop.simps [of env ce s bsize k] split: if_splits)
  qed
qed

lemma run_chunk_cancelled:
  "dr_error (run_chunk env ce cs s cfg idx c) = Some (ECtx e) \<Longrightarrow> \<exists>j. poll env j"
  by (auto simp: run_chunk_def drain_chunk_def Let_def split: sum.splits dest!: drain_loop_cancelled)

text \<open>
  A run is causal when no chunk sees the context done unless some chunk ended in an error other than a
  cancellation: \<open>cancel()\<close> is called by \<open>runChunks\<close> only, the caller does not cancel.
\<close>

definition causal :: "schedule \<Rightarrow> drained list \<Rightarrow> bool" where
  "causal sc ds \<longleftrightarrow> (\<exists>i j. poll (envs sc i) j)
     \<longrightarrow> (\<exists>d \<in> set ds. \<exists>e. dr_error d = Some e \<and> e \<noteq> ECtx Canceled)"

text \<open>
  Unless the caller cancels, a chunked run reports no error only when every chunk was read to its
  end: a failing chunk, which also cancels its siblings, is never hidden by their cancellations.
\<close>

theorem run_chunks_reports_failure:
  assumes "causal sc (run_all_chunks sc cs chunks s cfg)"
  shows "dr_error (run_chunks sc cs chunks s cfg) = None
     \<longleftrightarrow> (\<forall>d \<in> set (run_all_chunks sc cs chunks s cfg). dr_error d = None)"
proof -
  define ds where "ds = run_all_chunks sc cs chunks s cfg"
  have errs: "set (merge_by sched (map error_queue ds)) = {e. \<exists>d \<in> set ds. dr_error d = Some e}" for sched
    by (auto simp: set_merge_by error_queue_def split: option.splits)
  have seen: "\<exists>i j. poll (envs sc i) j" if d: "d \<in> set ds" "dr_error d = Some (ECtx Canceled)" for d
  proof -
    from d(1) obtain i c where "d = run_chunk (envs sc i) (ctx_err sc) cs s cfg i c"
      by (auto simp: ds_def run_all_chunks_def)
    with d(2) run_chunk_cancelled show ?thesis by blast
  qed
  have none: "dr_error (run_chunks sc cs chunks s cfg) = None
      \<longleftrightarrow> (\<forall>d \<in> set ds. \<forall>e. dr_error d = Some e \<longrightarrow> e = ECtx Canceled)"
    by (auto simp: run_chunks_def first_error_None_iff errs simp flip: ds_def)
  show ?thesis
    unfolding none ds_def [symmetric]
  proof (intro iffI ballI)
    fix d assume only: "\<forall>d \<in> set ds. \<forall>e. dr_error d = Some e \<longrightarrow> e = ECtx Canceled" and d: "d \<in> set ds"
    show "dr_error d = None"
    proof (cases "dr_error d")
      case (Some e)
      with only d have "\<exists>i j. poll (envs sc i) j" using seen by blast
      with assms only show ?thesis by (auto simp: causal_def simp flip: ds_def)
    qed
  qed simp
qed

theorem run_chunks_reports_failure_witness:
  "dr_error (run_chunks quiet_schedule (file_source ''x'') [] line_schema (line_config 2)) = None"
  using run_chunks_reports_failure [of quiet_schedule "file_source ''x''" "[]" line_schema "line_config 2"]
  by (simp add: causal_def run_all_chunks_def quiet_schedule_def)





section \<open>Inferred columns\<close>

text \<open>
  With no columns given and a header, a stream's first line names the columns, one string dimension
  per field, and its rows are those of the lines after it under that schema; without a header the run
  fails before reading.
\<close>

theorem ingest_inferred:
  fixes content :: bytes and cfg :: config
  defines "s \<equiv> cf_schema cfg"
  assumes "columns s = []" and "lines_of content = header # rest"
    and "\<And>s'. env_ok s' (envs sc 0)"
  defines "s' \<equiv> with_inferred_columns s (split_fields header (delimiter_or_default s))"
  shows "if has_header s then ingested_as (with_defaults cfg) s' rest (ingest sc (stream_source content) cfg)
     else ingest sc (stream_source content) cfg = fatal ENoColumns"
proof (cases "has_header s")
  case False
  then show ?thesis
    using assms by (simp add: ingest_def ingest_loop_def resolve_schema_def)
next
  case True
  define lr where "lr = new_line_reader \<lparr>rd_data = content, rd_fail = False\<rparr> (cf_buffer_size (with_defaults cfg))"
  obtain k where k: "read_line lr = (Inr header, consume k lr)" "lines_of (drop k content) = rest"
    using read_line_more [of lr header rest] assms(3) by (auto simp: lr_def)
  have "ingest sc (stream_source content) cfg
      = run_single (envs sc 0) (ctx_err sc) (stream_source content) (Some (consume k lr)) s' (with_defaults cfg)"
    using True assms(2) k(1)
    by (simp add: ingest_def ingest_loop_def resolve_schema_def multi_chunk_def stream_source_def
        source_reader_def lr_def s'_def flip: s_def)
  moreover have "ingested_as (with_defaults cfg) s' rest
      (run_single (envs sc 0) (ctx_err sc) (stream_source content) (Some (consume k lr)) s' (with_defaults cfg))"
    using drain_new_parser [of s' "envs sc 0" "with_defaults cfg" "consume k lr" False "ctx_err sc"] assms(4) k(2)
    by (simp add: run_single_def lr_def header_dropped_def)
  ultimately show ?thesis using True by simp
qed

theorem ingest_inferred_witness:
  "ingest quiet_schedule (stream_source ''x'') ((line_config 1)\<lparr>cf_schema := empty_schema\<rparr>) = fatal ENoColumns"
  using ingest_inferred [of "(line_config 1)\<lparr>cf_schema := empty_schema\<rparr>" "''x''" "''x''" "[]" quiet_schedule]
  by (simp add: empty_schema_def lines_of.simps newline_def carriage_return_def chop_last_def)

text \<open>
  A header-only file without a final newline is accepted by the sequential run, with no rows, and
  refused by a chunked one, which calls the header too long for the probe window.
\<close>

theorem ingest_header_only:
  assumes "columns (cf_schema cfg) = []" and "has_header (cf_schema cfg)"
    and "newline \<notin> set content" and "content \<noteq> []" and "\<And>s. env_ok s (envs sc 0)"
  shows "if 1 < cf_chunks cfg then ingest sc (open_file content) cfg = fatal EHeaderTooLong
     else dr_error (ingest sc (open_file content) cfg) = None \<and> dr_batches (ingest sc (open_file content) cfg) = []"
proof (cases "1 < cf_chunks cfg")
  case True
  then have multi: "multi_chunk (open_file content) (with_defaults cfg) = Some (file_source content, int (length content))"
    using assms(4) by (simp add: multi_chunk_def open_file_def file_source_def)
  have "newline \<notin> set (take k content)" for k using assms(3) by (meson in_set_takeD)
  then have "peek_header_columns (file_source content) (int (length content)) d = Inl EHeaderTooLong" for d
    by (simp add: peek_header_columns_def file_source_def file_chunk_reader_def read_full_def section_of_def
        Let_def probe_window_def)
  with True multi assms(1,2) show ?thesis
    by (simp add: ingest_def ingest_loop_def resolve_schema_def)
next
  case False
  define lr where "lr = new_line_reader \<lparr>rd_data = content, rd_fail = False\<rparr> (cf_buffer_size (with_defaults cfg))"
  define s where "s = with_inferred_columns (cf_schema cfg)
    (split_fields (chop_last carriage_return content) (delimiter_or_default (cf_schema cfg)))"
  have multi: "multi_chunk (open_file content) (with_defaults cfg) = None"
    using False by (simp add: multi_chunk_def open_file_def)
  have reader: "source_reader (open_file content) = \<lparr>rd_data = content, rd_fail = False\<rparr>"
    by (simp add: open_file_def source_reader_def)
  have "lines_of content = [chop_last carriage_return content]"
    using assms(3,4) by (simp add: lines_of.simps [of content])
  then obtain k where k: "read_line lr = (Inr (chop_last carriage_return content), consume k lr)"
      "lines_of (drop k content) = []"
    using read_line_more [of lr "chop_last carriage_return content" "[]"] by (auto simp: lr_def)
  have "ingest sc (open_file content) cfg
      = run_single (envs sc 0) (ctx_err sc) (open_file content) (Some (consume k lr)) s (with_defaults cfg)"
    using multi assms(1,2) k(1) reader
    by (simp add: ingest_def ingest_loop_def resolve_schema_def lr_def s_def Let_def)
  moreover have "ingested_as (with_defaults cfg) s []
      (run_single (envs sc 0) (ctx_err sc) (open_file content) (Some (consume k lr)) s (with_defaults cfg))"
    using drain_new_parser [of s "envs sc 0" "with_defaults cfg" "consume k lr" False "ctx_err sc"] assms(5) k(2)
    by (simp add: run_single_def lr_def header_dropped_def)
  ultimately show ?thesis
    using False dealt_no_rows by (auto simp: ingested_as_def)
qed

theorem ingest_header_only_witness:
  "ingest quiet_schedule (open_file ''a;b'')
     ((line_config 2)\<lparr>cf_schema := line_schema\<lparr>columns := []\<rparr>\<rparr>) = fatal EHeaderTooLong"
  using ingest_header_only [of "(line_config 2)\<lparr>cf_schema := line_schema\<lparr>columns := []\<rparr>\<rparr>" "''a;b''" quiet_schedule]
  by (simp add: line_config_def line_schema_def newline_def)

end
