(* ===== verification/Mergeable.thy ===== *)
theory Mergeable
  imports Prelude "HOL-Library.Multiset"
begin

text \<open>
  The contract between accumulators and everything that aggregates in parallel: adding values one by
  one, and merging accumulators that were filled separately. The client lemmas say that splitting the
  input over any number of accumulators and merging them gives what one accumulator would have.
\<close>

locale accumulator =
  fixes init :: 's and add :: "'a \<Rightarrow> 's \<Rightarrow> 's" and merge :: "'s \<Rightarrow> 's \<Rightarrow> 's" and ok :: "'s \<Rightarrow> bool"
  assumes ok_init: "ok init"
    and ok_add: "ok s \<Longrightarrow> ok (add x s)"
    and merge_init: "ok s \<Longrightarrow> merge s init = s"
    and merge_add: "ok s \<Longrightarrow> ok t \<Longrightarrow> merge s (add x t) = add x (merge s t)"
begin

lemma ok_fold: "ok s \<Longrightarrow> ok (fold add xs s)"
  by (induction xs arbitrary: s) (simp_all add: ok_add)

lemma merge_fold: "ok s \<Longrightarrow> merge s (fold add xs init) = fold add xs s"
proof (induction xs rule: rev_induct)
  case Nil
  then show ?case by (simp add: merge_init)
next
  case (snoc x xs)
  then show ?case by (simp add: merge_add ok_fold ok_init)
qed

lemma merge_folds: "merge (fold add xs init) (fold add ys init) = fold add (xs @ ys) init"
  by (simp add: merge_fold ok_fold ok_init)

lemma merge_all: "ok s \<Longrightarrow> foldl (\<lambda>t xs. merge t (fold add xs init)) s xss = fold add (concat xss) s"
  by (induction xss arbitrary: s) (simp_all add: merge_fold ok_fold)

end

text \<open>When the order of additions does not matter either, only the multiset of values counts.\<close>

locale commuting_accumulator = accumulator +
  assumes add_commute: "ok s \<Longrightarrow> add x (add y s) = add y (add x s)"
begin

lemma add_fold: "ok s \<Longrightarrow> fold add xs (add x s) = add x (fold add xs s)"
proof (induction xs arbitrary: s)
  case Nil
  then show ?case by simp
next
  case (Cons a xs)
  then show ?case using add_commute [of s a x] by (simp add: ok_add)
qed

lemma fold_remove: "ok s \<Longrightarrow> x \<in> set xs \<Longrightarrow> fold add xs s = fold add (remove1 x xs) (add x s)"
proof (induction xs arbitrary: s)
  case Nil
  then show ?case by simp
next
  case (Cons a xs)
  then show ?case using add_commute [of s a x] by (auto simp: ok_add)
qed

lemma fold_perm:
  assumes "ok s" and "mset xs = mset ys"
  shows "fold add xs s = fold add ys s"
  using assms
proof (induction xs arbitrary: s ys)
  case Nil
  then show ?case by simp
next
  case (Cons x xs)
  have x: "x \<in> set ys" using Cons.prems(2) by (metis list.set_intros(1) mset_eq_setD)
  have "mset xs = mset (remove1 x ys)" using Cons.prems(2) [symmetric] by simp
  with Cons.IH [of "add x s" "remove1 x ys"] Cons.prems(1) show ?case
    by (simp add: ok_add fold_remove [OF Cons.prems(1) x])
qed

end

end
