(* ===== verification/TDigest.thy ===== *)
theory TDigest
  imports Mergeable Schema
begin

text \<open>
  \<open>internal/aggregate/tdigest.go\<close>: the t-digest quantile sketch.

  Three functions of the standard library whose results the language does not fix are parameters,
  collected in a record: \<open>sort.Slice\<close> on centroids (an unstable sort: the order of equal means is open),
  \<open>math.Asin\<close>, and \<open>math.Log\<close> (used by the HyperLogLog estimate).
\<close>

record centroid =
  mean :: f64
  weight :: f64

record runtime_lib =
  lib_sort :: "centroid list \<Rightarrow> centroid list"
  lib_asin :: "f64 \<Rightarrow> f64"
  lib_log :: "f64 \<Rightarrow> f64"

record tdigest =
  centroids :: "centroid list"
  td_buffer :: "f64 list"
  compression :: f64
  td_min :: f64
  td_max :: f64
  td_have :: bool

definition tdigest_default_compression :: int where "tdigest_default_compression = 100"

definition tdigest_buffer_cap :: nat where "tdigest_buffer_cap = 1024"

definition new_tdigest :: tdigest where
  "new_tdigest = \<lparr>centroids = [], td_buffer = [], compression = f64_of_int tdigest_default_compression,
     td_min = f64_zero, td_max = f64_zero, td_have = False\<rparr>"

text \<open>The constant \<open>2 * math.Pi\<close> as a \<open>float64\<close>.\<close>

definition two_pi :: f64 where
  "two_pi = F64 0x401921FB54442D18"

definition tdigest_scale :: "runtime_lib \<Rightarrow> f64 \<Rightarrow> f64 \<Rightarrow> f64" where
  "tdigest_scale lib q delta =
     (let q = (if f64_lt q f64_zero then f64_zero else if f64_lt (f64_of_int 1) q then f64_of_int 1 else q)
      in f64_mul (f64_div delta two_pi) (lib_asin lib (f64_sub (f64_mul (f64_of_int 2) q) (f64_of_int 1))))"

definition total_weight :: "centroid list \<Rightarrow> f64" where
  "total_weight cs = fold (\<lambda>c s. f64_add s (weight c)) cs f64_zero"

text \<open>
  The clustering loop of \<open>compress\<close>: \<open>acc\<close> holds the finished clusters, \<open>cur\<close> the one that grows, \<open>q0\<close>
  the position where it started.
\<close>

fun compress_loop ::
  "runtime_lib \<Rightarrow> f64 \<Rightarrow> f64 \<Rightarrow> centroid list \<Rightarrow> centroid \<Rightarrow> f64 \<Rightarrow> f64 \<Rightarrow> centroid list \<Rightarrow> centroid list" where
  "compress_loop lib delta tot acc cur cumulative q0 [] = acc @ [cur]"
| "compress_loop lib delta tot acc cur cumulative q0 (p # ps) =
     (let q1 = f64_div (f64_add cumulative (weight p)) tot
      in if f64_le (f64_sub (tdigest_scale lib q1 delta) (tdigest_scale lib q0 delta)) (f64_of_int 1)
         then (let new_weight = f64_add (weight cur) (weight p);
                   new_mean = f64_div (f64_add (f64_mul (mean cur) (weight cur)) (f64_mul (mean p) (weight p))) new_weight
               in compress_loop lib delta tot acc \<lparr>mean = new_mean, weight = new_weight\<rparr>
                    (f64_add cumulative (weight p)) q0 ps)
         else compress_loop lib delta tot (acc @ [cur]) p
                (f64_add cumulative (weight p)) (f64_div cumulative tot) ps)"

definition compress_points :: "tdigest \<Rightarrow> centroid list" where
  "compress_points t = centroids t @ map (\<lambda>v. \<lparr>mean = v, weight = f64_of_int 1\<rparr>) (td_buffer t)"

definition compress :: "runtime_lib \<Rightarrow> tdigest \<Rightarrow> tdigest" where
  "compress lib t =
     (case compress_points t of
        [] \<Rightarrow> t\<lparr>td_buffer := [], centroids := []\<rparr>
      | _ # _ \<Rightarrow>
          (let sorted = lib_sort lib (compress_points t)
           in t\<lparr>td_buffer := [],
                centroids := compress_loop lib (compression t) (total_weight sorted) [] (hd sorted)
                  (weight (hd sorted)) f64_zero (tl sorted)\<rparr>))"

definition flush_pending :: "runtime_lib \<Rightarrow> tdigest \<Rightarrow> tdigest" where
  "flush_pending lib t = (if 0 < length (td_buffer t) then compress lib t else t)"

text \<open>The running minimum and maximum.\<close>

definition observe :: "f64 \<Rightarrow> tdigest \<Rightarrow> tdigest" where
  "observe v t =
     (if \<not> td_have t then t\<lparr>td_min := v, td_max := v, td_have := True\<rparr>
      else t\<lparr>td_min := math_min (td_min t) v, td_max := math_max (td_max t) v\<rparr>)"

definition tdigest_add :: "runtime_lib \<Rightarrow> f64 \<Rightarrow> tdigest \<Rightarrow> tdigest" where
  "tdigest_add lib v t =
     (if is_nan v then t
      else (let t1 = observe v t; t2 = t1\<lparr>td_buffer := td_buffer t1 @ [v]\<rparr>
            in if tdigest_buffer_cap \<le> length (td_buffer t2) then compress lib t2 else t2))"

text \<open>The loop of \<open>Quantile\<close> over adjacent centroids; \<open>Inr\<close> is its early return, \<open>Inl\<close> the final \<open>cum\<close>.\<close>

fun quantile_loop :: "f64 \<Rightarrow> f64 \<Rightarrow> centroid list \<Rightarrow> f64 + f64" where
  "quantile_loop rank cum (c # next # cs) =
     (let half_sum = f64_div (f64_add (weight c) (weight next)) (f64_of_int 2)
      in if f64_le rank (f64_add cum half_sum)
         then Inr (f64_add (mean c) (f64_mul (f64_div (f64_sub rank cum) half_sum) (f64_sub (mean next) (mean c))))
         else quantile_loop rank (f64_add cum half_sum) (next # cs))"
| "quantile_loop rank cum cs = Inl cum"

definition quantile :: "runtime_lib \<Rightarrow> f64 \<Rightarrow> tdigest \<Rightarrow> f64 \<times> tdigest" where
  "quantile lib q t0 =
     (let t = flush_pending lib t0
      in (case centroids t of
            [] \<Rightarrow> f64_nan
          | [c] \<Rightarrow> mean c
          | first # _ \<Rightarrow>
              (let tot = total_weight (centroids t); rank = f64_mul q tot;
                   half = f64_div (weight first) (f64_of_int 2)
               in if f64_le rank half
                  then f64_add (td_min t) (f64_mul (f64_div rank half) (f64_sub (mean first) (td_min t)))
                  else (case quantile_loop rank half (centroids t) of
                          Inr r \<Rightarrow> r
                        | Inl cum \<Rightarrow>
                            (let final = last (centroids t); remaining = f64_sub tot cum
                             in if f64_le remaining f64_zero then mean final
                                else f64_add (mean final)
                                       (f64_mul (f64_div (f64_sub rank cum) remaining) (f64_sub (td_max t) (mean final)))))),
          t))"

text \<open>\<open>Merge\<close> flushes both sides; the flushed \<open>other\<close> is the second component.\<close>

definition tdigest_merge :: "runtime_lib \<Rightarrow> tdigest \<Rightarrow> tdigest \<Rightarrow> tdigest \<times> tdigest" where
  "tdigest_merge lib t other =
     (let t1 = flush_pending lib t; o1 = flush_pending lib other;
          t2 = t1\<lparr>centroids := centroids t1 @ centroids o1\<rparr>;
          t3 = (if td_have o1
                then (if \<not> td_have t2 then t2\<lparr>td_min := td_min o1, td_max := td_max o1, td_have := True\<rparr>
                      else t2\<lparr>td_min := math_min (td_min t2) (td_min o1), td_max := math_max (td_max t2) (td_max o1)\<rparr>)
                else t2)
      in (compress lib t3, o1))"

section \<open>Weights are counts\<close>

text \<open>A centroid's weight as an integer, and the number of values a digest holds.\<close>

definition points_in :: "centroid \<Rightarrow> int" where
  "points_in c = f64_scaled (weight c) div f64_unit"

text \<open>Integers of smaller magnitude are exact in \<open>float64\<close>.\<close>

definition exact_bound :: int where
  "exact_bound = 2 ^ 53"

lemma exact_add: "\<bar>i\<bar> < exact_bound \<Longrightarrow> \<bar>j\<bar> < exact_bound \<Longrightarrow> f64_add (f64_of_int i) (f64_of_int j) = f64_of_int (i + j)"
  unfolding exact_bound_def by (rule f64_add_of_int)

definition exact_weight :: "centroid \<Rightarrow> bool" where
  "exact_weight c \<longleftrightarrow> (\<exists>n. 0 < n \<and> n < exact_bound \<and> weight c = f64_of_int n)"

definition count_points :: "centroid list \<Rightarrow> int" where
  "count_points cs = sum_list (map points_in cs)"

definition td_count :: "tdigest \<Rightarrow> int" where
  "td_count t = count_points (centroids t) + int (length (td_buffer t))"

definition td_ok :: "tdigest \<Rightarrow> bool" where
  "td_ok t \<longleftrightarrow> (\<forall>c \<in> set (centroids t). exact_weight c)"

lemma points_in_of_int: "\<bar>n\<bar> < exact_bound \<Longrightarrow> weight c = f64_of_int n \<Longrightarrow> points_in c = n"
  unfolding exact_bound_def by (simp only: points_in_def f64_scaled_of_int) simp

lemma exact_weight_points: "exact_weight c \<Longrightarrow> 0 < points_in c \<and> points_in c < exact_bound \<and> weight c = f64_of_int (points_in c)"
proof -
  assume "exact_weight c"
  then obtain n where n: "0 < n" "n < exact_bound" "weight c = f64_of_int n" by (auto simp: exact_weight_def)
  then have "points_in c = n" by (intro points_in_of_int) simp_all
  with n show ?thesis by simp
qed

lemma count_points_nonneg: "(\<And>c. c \<in> set cs \<Longrightarrow> exact_weight c) \<Longrightarrow> 0 \<le> count_points cs"
  unfolding count_points_def by (rule sum_list_nonneg) (fastforce dest: exact_weight_points)

lemma exact_weight_one [simp]: "exact_weight \<lparr>mean = v, weight = f64_of_int 1\<rparr>"
  unfolding exact_weight_def exact_bound_def by (rule exI [of _ 1]) simp

lemma points_in_one [simp]: "points_in \<lparr>mean = v, weight = f64_of_int 1\<rparr> = 1"
  by (rule points_in_of_int) (simp_all add: exact_bound_def)

text \<open>The clustering loop moves points between clusters and neither loses nor invents any.\<close>

lemma compress_loop_count:
  assumes "\<And>c. c \<in> set (acc @ cur # ps) \<Longrightarrow> exact_weight c" and "count_points (acc @ cur # ps) < exact_bound"
  shows "(\<forall>c \<in> set (compress_loop lib delta tot acc cur cumulative q0 ps). exact_weight c)
     \<and> count_points (compress_loop lib delta tot acc cur cumulative q0 ps) = count_points (acc @ cur # ps)"
  using assms
proof (induction lib delta tot acc cur cumulative q0 ps rule: compress_loop.induct)
  case (1 lib delta tot acc cur cumulative q0)
  then show ?case by simp
next
  case (2 lib delta tot acc cur cumulative q0 p ps)
  have ew: "exact_weight cur" "exact_weight p" using "2.prems"(1) by auto
  note w = exact_weight_points [OF ew(1)] exact_weight_points [OF ew(2)]
  have "0 \<le> count_points acc" "0 \<le> count_points ps" using "2.prems"(1) by (auto intro: count_points_nonneg)
  then have lt: "points_in cur + points_in p < exact_bound"
    using "2.prems"(2) by (simp add: count_points_def)
  define nw nm where "nw = f64_add (weight cur) (weight p)"
    and "nm = f64_div (f64_add (f64_mul (mean cur) (weight cur)) (f64_mul (mean p) (weight p))) nw"
  have nw: "nw = f64_of_int (points_in cur + points_in p)"
    unfolding nw_def using w exact_add [of "points_in cur" "points_in p"] by simp
  have new: "exact_weight \<lparr>mean = nm, weight = nw\<rparr>" "points_in \<lparr>mean = nm, weight = nw\<rparr> = points_in cur + points_in p"
    using w lt nw by (auto simp: exact_weight_def intro!: exI [of _ "points_in cur + points_in p"] points_in_of_int)
  show ?case
  proof (cases "f64_le (f64_sub (tdigest_scale lib (f64_div (f64_add cumulative (weight p)) tot) delta)
      (tdigest_scale lib q0 delta)) (f64_of_int 1)")
    case True
    have "count_points (acc @ \<lparr>mean = nm, weight = nw\<rparr> # ps) = count_points (acc @ cur # p # ps)"
      using new(2) by (simp add: count_points_def)
    then show ?thesis
      using "2.IH"(1) [OF refl True nw_def nm_def [unfolded nw_def [symmetric]]] "2.prems" new True
      by (auto simp: Let_def nm_def nw_def)
  next
    case False
    have "count_points ((acc @ [cur]) @ p # ps) = count_points (acc @ cur # p # ps)"
      by (simp add: count_points_def)
    then show ?thesis using "2.IH"(2) [OF refl False] "2.prems" False by (auto simp: Let_def)
  qed
qed

text \<open>\<open>sort.Slice\<close> permutes its argument, and sorts it when no mean is a NaN.\<close>

definition lib_sorts :: "runtime_lib \<Rightarrow> bool" where
  "lib_sorts lib \<longleftrightarrow> (\<forall>ps. mset (lib_sort lib ps) = mset ps
     \<and> (list_all (\<lambda>c. \<not> is_nan (mean c)) ps \<longrightarrow>
          sorted_wrt (\<lambda>a b. \<not> f64_lt (mean b) (mean a)) (lib_sort lib ps)))"

lemma count_points_mset: "mset ps = mset qs \<Longrightarrow> count_points ps = count_points qs"
  unfolding count_points_def by (metis mset_map sum_mset_sum_list)

lemma compress_count:
  assumes "lib_sorts lib" and "td_ok t" and "td_count t < exact_bound"
  shows "td_ok (compress lib t) \<and> td_count (compress lib t) = td_count t \<and> td_buffer (compress lib t) = []"
proof -
  define ps where "ps = compress_points t"
  have ew: "\<forall>c \<in> set ps. exact_weight c" using assms(2) by (auto simp: ps_def compress_points_def td_ok_def)
  have "map points_in (map (\<lambda>v. \<lparr>mean = v, weight = f64_of_int 1\<rparr>) (td_buffer t)) = map (\<lambda>_. 1) (td_buffer t)"
    by simp
  then have cnt: "count_points ps = td_count t"
    by (simp add: ps_def compress_points_def td_count_def count_points_def sum_list_triv del: map_map)
  show ?thesis
  proof (cases ps)
    case Nil
    then show ?thesis using cnt by (simp add: compress_def ps_def td_ok_def td_count_def count_points_def)
  next
    case (Cons p ps')
    define qs where "qs = lib_sort lib ps"
    have m: "mset qs = mset ps" using assms(1) by (simp add: lib_sorts_def qs_def)
    then have "qs \<noteq> []" using Cons by auto
    then have qs: "qs = hd qs # tl qs" by simp
    have "\<forall>c \<in> set qs. exact_weight c" using ew m by (metis mset_eq_setD)
    moreover have "count_points qs = td_count t" using count_points_mset [OF m] cnt by simp
    ultimately have "(\<forall>c \<in> set (compress_loop lib (compression t) (total_weight qs) [] (hd qs) (weight (hd qs)) f64_zero (tl qs)). exact_weight c)
       \<and> count_points (compress_loop lib (compression t) (total_weight qs) [] (hd qs) (weight (hd qs)) f64_zero (tl qs)) = td_count t"
      using compress_loop_count [of "[]" "hd qs" "tl qs"] assms(3) qs by (metis append_Nil)
    then show ?thesis
      using Cons by (simp add: compress_def td_ok_def td_count_def qs_def Let_def flip: ps_def)
  qed
qed

lemma flush_count:
  assumes "lib_sorts lib" and "td_ok t" and "td_count t < exact_bound"
  shows "td_ok (flush_pending lib t) \<and> td_count (flush_pending lib t) = td_count t \<and> td_buffer (flush_pending lib t) = []"
  using compress_count [OF assms] assms(2) by (auto simp: flush_pending_def)

lemma observe_keeps [simp]:
  "centroids (observe v t) = centroids t" "td_buffer (observe v t) = td_buffer t"
  by (simp_all add: observe_def)

lemma tdigest_add_count:
  assumes "lib_sorts lib" and "td_ok t" and "td_count t + 1 < exact_bound"
  shows "td_ok (tdigest_add lib v t) \<and> td_count (tdigest_add lib v t) = td_count t + (if is_nan v then 0 else 1)"
proof (cases "is_nan v")
  case True
  then show ?thesis using assms by (simp add: tdigest_add_def)
next
  case False
  define t2 where "t2 = (observe v t)\<lparr>td_buffer := td_buffer (observe v t) @ [v]\<rparr>"
  have t2: "td_ok t2" "td_count t2 = td_count t + 1" using assms(2) by (simp_all add: t2_def td_ok_def td_count_def)
  have "td_ok (compress lib t2) \<and> td_count (compress lib t2) = td_count t2"
    using compress_count [OF assms(1) t2(1)] t2(2) assms(3) by simp
  moreover have "tdigest_add lib v t = (if tdigest_buffer_cap \<le> length (td_buffer t2) then compress lib t2 else t2)"
    using False by (simp add: tdigest_add_def Let_def t2_def)
  ultimately show ?thesis using t2 False by simp
qed

lemma td_count_nonneg: "td_ok t \<Longrightarrow> 0 \<le> td_count t"
  using count_points_nonneg [of "centroids t"] by (simp add: td_ok_def td_count_def)

lemma tdigest_fold_count:
  assumes "lib_sorts lib" and "td_ok t" and "td_count t + int (length xs) < exact_bound"
  shows "td_ok (fold (tdigest_add lib) xs t)
     \<and> td_count (fold (tdigest_add lib) xs t) = td_count t + int (length (filter (\<lambda>v. \<not> is_nan v) xs))"
  using assms(2,3)
proof (induction xs arbitrary: t)
  case Nil
  then show ?case by simp
next
  case (Cons x xs)
  have "td_ok (tdigest_add lib x t) \<and> td_count (tdigest_add lib x t) = td_count t + (if is_nan x then 0 else 1)"
    using tdigest_add_count [OF assms(1), of t x] Cons.prems by simp
  then show ?case using Cons.IH [of "tdigest_add lib x t"] Cons.prems(2) by auto
qed

lemma tdigest_merge_count:
  assumes "lib_sorts lib" and "td_ok t" and "td_ok s" and "td_count t + td_count s < exact_bound"
  shows "td_ok (fst (tdigest_merge lib t s)) \<and> td_count (fst (tdigest_merge lib t s)) = td_count t + td_count s"
proof -
  define t1 s1 where "t1 = flush_pending lib t" and "s1 = flush_pending lib s"
  have t1: "td_ok t1" "td_count t1 = td_count t" "td_buffer t1 = []" and s1: "td_ok s1" "td_count s1 = td_count s" "td_buffer s1 = []"
    using flush_count [OF assms(1,2)] flush_count [OF assms(1,3)] assms td_count_nonneg [OF assms(2)] td_count_nonneg [OF assms(3)]
    by (simp_all add: t1_def s1_def)
  define t3 where "t3 = (let t2 = t1\<lparr>centroids := centroids t1 @ centroids s1\<rparr>
     in if td_have s1
        then (if \<not> td_have t2 then t2\<lparr>td_min := td_min s1, td_max := td_max s1, td_have := True\<rparr>
              else t2\<lparr>td_min := math_min (td_min t2) (td_min s1), td_max := math_max (td_max t2) (td_max s1)\<rparr>)
        else t2)"
  have "centroids t3 = centroids t1 @ centroids s1" "td_buffer t3 = []"
    using t1(3) by (simp_all add: t3_def Let_def)
  then have t3: "td_ok t3" "td_count t3 = td_count t + td_count s"
    using t1 s1 by (auto simp: td_ok_def td_count_def count_points_def)
  have "fst (tdigest_merge lib t s) = compress lib t3"
    unfolding tdigest_merge_def Let_def t3_def t1_def s1_def by simp
  then show ?thesis using compress_count [OF assms(1) t3(1)] t3(2) assms(4) by simp
qed

lemma td_new [simp]: "td_ok new_tdigest" "td_count new_tdigest = 0"
  by (simp_all add: td_ok_def td_count_def new_tdigest_def count_points_def)

text \<open>
  C36. The t-digest conserves mass: buffering, clustering and merging, with all their rounding of means,
  leave the total weight equal to the number of values added that are not NaN, exactly, for fewer than
  \<open>2^53\<close> values and whatever order the unstable sort gives equal means.
\<close>

theorem tdigest_mass:
  assumes "lib_sorts lib" and "int (length xs + length ys) < 2 ^ 53"
  shows "let d = fst (tdigest_merge lib (fold (tdigest_add lib) xs new_tdigest) (fold (tdigest_add lib) ys new_tdigest))
    in td_ok d \<and> td_count d = int (length (filter (\<lambda>v. \<not> is_nan v) (xs @ ys)))"
proof -
  have len: "length (filter P zs) \<le> length zs" for P :: "f64 \<Rightarrow> bool" and zs by simp
  have "int (length xs) < exact_bound" "int (length ys) < exact_bound"
    using assms(2) by (simp_all add: exact_bound_def)
  then have f: "td_ok (fold (tdigest_add lib) xs new_tdigest)" "td_ok (fold (tdigest_add lib) ys new_tdigest)"
      "td_count (fold (tdigest_add lib) xs new_tdigest) = int (length (filter (\<lambda>v. \<not> is_nan v) xs))"
      "td_count (fold (tdigest_add lib) ys new_tdigest) = int (length (filter (\<lambda>v. \<not> is_nan v) ys))"
    using tdigest_fold_count [OF assms(1) td_new(1), of xs] tdigest_fold_count [OF assms(1) td_new(1), of ys] by auto
  moreover have "int (length (filter (\<lambda>v. \<not> is_nan v) xs)) + int (length (filter (\<lambda>v. \<not> is_nan v) ys)) < exact_bound"
    using assms(2) len [of "\<lambda>v. \<not> is_nan v" xs] len [of "\<lambda>v. \<not> is_nan v" ys] unfolding exact_bound_def by linarith
  ultimately show ?thesis
    using tdigest_merge_count [OF assms(1) f(1,2)] by (simp add: Let_def)
qed

text \<open>A library to apply the properties to: a stable sort by the bit order of the means.\<close>

definition sample_lib :: runtime_lib where
  "sample_lib = \<lparr>lib_sort = sort_key (\<lambda>c. f64_key (mean c)), lib_asin = id, lib_log = id\<rparr>"

lemma sample_lib_sorts: "lib_sorts sample_lib"
  unfolding lib_sorts_def
proof (intro allI conjI impI)
  fix ps :: "centroid list"
  show "mset (lib_sort sample_lib ps) = mset ps" by (simp add: sample_lib_def)
  have "sorted_wrt (\<lambda>x y. f64_key (mean x) \<le> f64_key (mean y)) (sort_key (\<lambda>c. f64_key (mean c)) ps)"
    using sorted_sort_key [of "\<lambda>c. f64_key (mean c)" ps] by (simp add: sorted_map)
  then show "sorted_wrt (\<lambda>a b. \<not> f64_lt (mean b) (mean a)) (lib_sort sample_lib ps)"
    unfolding sample_lib_def by (simp, rule sorted_wrt_mono_rel [rotated]) (auto simp: f64_lt_def)
qed

theorem tdigest_mass_witness:
  "td_count (fst (tdigest_merge sample_lib (fold (tdigest_add sample_lib) [f64_zero, f64_nan] new_tdigest)
     (fold (tdigest_add sample_lib) [f64_zero] new_tdigest))) = 2"
  using tdigest_mass [OF sample_lib_sorts, of "[f64_zero, f64_nan]" "[f64_zero]"]
  by (simp add: Let_def is_nan_def f64_zero_def f64_mag_def inf_mag_def f64_nan_def)

section \<open>Extremes\<close>

text \<open>
  A running minimum and maximum with its validity flag, as digests and float measures keep them: a
  commuting accumulator in the sense of theory Mergeable, because \<open>math.Min\<close> and \<open>math.Max\<close> are
  associative and commutative on every bit pattern.
\<close>

type_synonym extremes = "bool \<times> f64 \<times> f64"

definition ext_init :: extremes where
  "ext_init = (False, f64_zero, f64_zero)"

fun ext_add :: "f64 \<Rightarrow> extremes \<Rightarrow> extremes" where
  "ext_add v (have_it, lo, hi) = (if have_it then (True, math_min lo v, math_max hi v) else (True, v, v))"

fun ext_merge :: "extremes \<Rightarrow> extremes \<Rightarrow> extremes" where
  "ext_merge (h, lo, hi) (h', lo', hi') =
     (if h' then (if h then (True, math_min lo lo', math_max hi hi') else (True, lo', hi')) else (h, lo, hi))"

interpretation ext: commuting_accumulator ext_init ext_add ext_merge "\<lambda>_. True"
proof
  show "ext_add x (ext_add y s) = ext_add y (ext_add x s)" for x y s
    by (cases s) (simp add: math_min_assoc math_max_assoc math_min_commute [of x] math_max_commute [of x])
qed (auto simp: ext_init_def math_min_assoc math_max_assoc)

definition td_extremes :: "tdigest \<Rightarrow> extremes" where
  "td_extremes t = (td_have t, td_min t, td_max t)"

lemma compress_extremes [simp]: "td_extremes (compress lib t) = td_extremes t"
  by (simp add: compress_def td_extremes_def Let_def split: list.splits)

lemma flush_extremes [simp]: "td_extremes (flush_pending lib t) = td_extremes t"
  by (simp add: flush_pending_def)

lemma tdigest_add_extremes:
  "td_extremes (tdigest_add lib v t) = (if is_nan v then td_extremes t else ext_add v (td_extremes t))"
proof -
  have "td_extremes ((observe v t)\<lparr>td_buffer := b\<rparr>) = ext_add v (td_extremes t)" for b
    by (simp add: observe_def td_extremes_def)
  then show ?thesis by (simp add: tdigest_add_def Let_def)
qed

lemma tdigest_fold_extremes:
  "td_extremes (fold (tdigest_add lib) xs t) = fold ext_add (filter (\<lambda>v. \<not> is_nan v) xs) (td_extremes t)"
  by (induction xs arbitrary: t) (simp_all add: tdigest_add_extremes)

lemma flush_fields [simp]:
  "td_have (flush_pending lib t) = td_have t" "td_min (flush_pending lib t) = td_min t"
  "td_max (flush_pending lib t) = td_max t"
  using flush_extremes [of lib t] unfolding td_extremes_def by auto

lemma tdigest_merge_extremes:
  "td_extremes (fst (tdigest_merge lib t s)) = ext_merge (td_extremes t) (td_extremes s)"
  by (simp add: tdigest_merge_def Let_def) (simp add: td_extremes_def)

text \<open>
  The extremes a merged digest interpolates its tails against are exactly those of one digest fed
  both inputs, bit for bit, and NaN values never reach them.
\<close>

theorem tdigest_extremes:
  "td_extremes (fst (tdigest_merge lib (fold (tdigest_add lib) xs new_tdigest) (fold (tdigest_add lib) ys new_tdigest)))
     = td_extremes (fold (tdigest_add lib) (xs @ ys) new_tdigest)
   \<and> td_extremes (fold (tdigest_add lib) xs new_tdigest) = fold ext_add (filter (\<lambda>v. \<not> is_nan v) xs) ext_init"
  using ext.merge_folds [of "filter (\<lambda>v. \<not> is_nan v) xs" "filter (\<lambda>v. \<not> is_nan v) ys"]
  by (simp add: tdigest_merge_extremes tdigest_fold_extremes)
    (simp add: td_extremes_def new_tdigest_def ext_init_def)

lemma quantile_flushed: "fst (quantile lib q (flush_pending lib t)) = fst (quantile lib q t)"
proof -
  have "td_buffer (compress lib t) = []" by (simp add: compress_def Let_def split: list.splits)
  then have "flush_pending lib (flush_pending lib t) = flush_pending lib t"
    by (simp add: flush_pending_def)
  then show ?thesis by (simp add: quantile_def Let_def)
qed

end
