(* ===== verification/HyperLogLog.thy ===== *)
theory HyperLogLog
  imports Mergeable Schema
begin

text \<open>
  \<open>internal/aggregate/hyperloglog.go\<close>: value hashing (FNV-1a and a bit-mixing finalizer) and the
  HyperLogLog sketch. \<open>math.Log\<close>, which has a different implementation on each platform, is the
  parameter \<open>log\<close> of the estimate.
\<close>

section \<open>Hashing\<close>

definition fnv_offset :: u64 where "fnv_offset = 14695981039346656037"
definition fnv_prime :: u64 where "fnv_prime = 1099511628211"

definition fnv_step :: "byte \<Rightarrow> u64 \<Rightarrow> u64" where
  "fnv_step b h = (h XOR of_nat (code b)) * fnv_prime"

definition fnv1a :: "bytes \<Rightarrow> u64" where
  "fnv1a bs = fold fnv_step bs fnv_offset"

text \<open>\<open>binary.LittleEndian.PutUint64\<close>.\<close>

definition le_bytes :: "u64 \<Rightarrow> bytes" where
  "le_bytes w = map (\<lambda>i. char_of (unat (drop_bit (8 * i) w) mod 256)) [0..<8]"

definition mix64 :: "u64 \<Rightarrow> u64" where
  "mix64 x =
     (let x = x XOR drop_bit 33 x; x = x * 0xff51afd7ed558ccd; x = x XOR drop_bit 33 x;
          x = x * 0xc4ceb9fe1a85ec53
      in x XOR drop_bit 33 x)"

definition value_bytes :: "value_t \<Rightarrow> bytes" where
  "value_bytes v =
     (case vtype v of
        TypeString \<Rightarrow> vstr v | TypeInt64 \<Rightarrow> le_bytes (vi64 v) | TypeFloat64 \<Rightarrow> le_bytes (f64_bits (vf64 v))
      | TypeOther _ \<Rightarrow> [])"

definition hash_value :: "value_t \<Rightarrow> u64" where
  "hash_value v = mix64 (fnv1a (value_bytes v))"

section \<open>The sketch\<close>

definition hll_precision :: nat where "hll_precision = 14"

definition hll_size :: nat where "hll_size = 2 ^ hll_precision"

record hyper_log_log =
  registers :: "u8 list"

definition new_hyper_log_log :: hyper_log_log where
  "new_hyper_log_log = \<lparr>registers = replicate hll_size 0\<rparr>"

definition leading_zeros64 :: "u64 \<Rightarrow> nat" where
  "leading_zeros64 w = 64 - bit_length (uint w)"

definition hll_index :: "u64 \<Rightarrow> nat" where
  "hll_index hash = unat (drop_bit (64 - hll_precision) hash)"

definition hll_rho :: "u64 \<Rightarrow> u8" where
  "hll_rho hash = of_nat (leading_zeros64 (push_bit hll_precision hash)) + 1"

definition hll_add :: "u64 \<Rightarrow> hyper_log_log \<Rightarrow> hyper_log_log" where
  "hll_add hash h =
     (if registers h ! hll_index hash < hll_rho hash
      then h\<lparr>registers := (registers h)[hll_index hash := hll_rho hash]\<rparr> else h)"

definition merge_hyper_log_log :: "hyper_log_log \<Rightarrow> hyper_log_log \<Rightarrow> hyper_log_log" where
  "merge_hyper_log_log a b = \<lparr>registers = map (\<lambda>i. max (registers a ! i) (registers b ! i)) [0..<hll_size]\<rparr>"

definition f64_of_decimal :: "int \<Rightarrow> int \<Rightarrow> f64" where
  "f64_of_decimal n d = f64_of_ratio False (n * f64_unit) d"

definition hll_estimate :: "(f64 \<Rightarrow> f64) \<Rightarrow> hyper_log_log \<Rightarrow> f64" where
  "hll_estimate log h =
     (let m = f64_of_int (int (length (registers h)));
          sum = fold (\<lambda>r s. f64_add s (f64_exp2_neg (unat r))) (registers h) f64_zero;
          zeros = count_list (registers h) 0;
          alpha = f64_div (f64_of_decimal 7213 10000)
                    (f64_add (f64_of_int 1) (f64_div (f64_of_decimal 1079 1000) m));
          raw = f64_div (f64_mul (f64_mul alpha m) m) sum
      in if f64_le raw (f64_mul (f64_of_decimal 25 10) m) \<and> 0 < zeros
         then f64_mul m (log (f64_div m (f64_of_int (int zeros))))
         else raw)"

section \<open>Hashing is injective after the byte fold\<close>

definition xor_shift :: "u64 \<Rightarrow> u64" where
  "xor_shift x = x XOR drop_bit 33 x"

lemma xor_shift_involution: "xor_shift (xor_shift x) = x"
proof -
  have "drop_bit 33 (drop_bit 33 x) = 0"
    by (rule bit_word_eqI) (auto simp: bit_drop_bit_eq dest: bit_imp_le_length)
  then show ?thesis by (simp add: xor_shift_def drop_bit_xor xor.assoc)
qed

lemma mix64_xor_shift:
  "mix64 x = xor_shift (xor_shift (xor_shift x * 0xff51afd7ed558ccd) * 0xc4ceb9fe1a85ec53)"
  by (simp add: mix64_def xor_shift_def Let_def)

definition unmix64 :: "u64 \<Rightarrow> u64" where
  "unmix64 y = xor_shift (xor_shift (xor_shift y * 0x9cb4b2f8129337db) * 0x4f74430c22a54005)"

lemma mix_factors:
  "(0xff51afd7ed558ccd :: u64) * 0x4f74430c22a54005 = 1" "(0x4f74430c22a54005 :: u64) * 0xff51afd7ed558ccd = 1"
  "(0xc4ceb9fe1a85ec53 :: u64) * 0x9cb4b2f8129337db = 1" "(0x9cb4b2f8129337db :: u64) * 0xc4ceb9fe1a85ec53 = 1"
  by simp_all

text \<open>
  \<open>mix64\<close> loses nothing: it is a bijection of the 64-bit words, with an explicit inverse.
\<close>

theorem mix64_bijective: "unmix64 (mix64 x) = x \<and> mix64 (unmix64 x) = x"
  unfolding mix64_xor_shift unmix64_def by (simp only: xor_shift_involution mult.assoc mix_factors mult_1_right)

section \<open>The sketch as a maximum\<close>

text \<open>
  A sketch of the right size, and its abstraction: the register an added hash selects holds the largest
  rank added to it.
\<close>

definition hll_ok :: "hyper_log_log \<Rightarrow> bool" where
  "hll_ok h \<longleftrightarrow> length (registers h) = hll_size"

lemma hll_index_bound: "hll_index hash < hll_size"
proof -
  have "hll_index hash = unat hash div 2 ^ 50"
    by (simp only: hll_index_def hll_precision_def unsigned_drop_bit_eq) (use unsigned_less [of hash, where ?'a = nat] in \<open>simp add: drop_bit_eq_div take_bit_eq_mod\<close>)
  then show ?thesis
    using unsigned_less [of hash, where ?'a = nat]
    by (simp add: hll_size_def hll_precision_def div_less_iff_less_mult)
qed

lemma hll_eqI:
  assumes "hll_ok a" and "hll_ok b" and "\<And>i. i < hll_size \<Longrightarrow> registers a ! i = registers b ! i"
  shows "a = b"
proof -
  have "registers a = registers b" using assms by (intro nth_equalityI) (auto simp: hll_ok_def)
  then show ?thesis by (cases a; cases b) simp
qed

lemma hll_new_ok [simp]: "hll_ok new_hyper_log_log"
  by (simp add: hll_ok_def new_hyper_log_log_def)

lemma hll_add_ok [simp]: "hll_ok h \<Longrightarrow> hll_ok (hll_add x h)"
  by (simp add: hll_ok_def hll_add_def)

lemma hll_merge_ok [simp]: "hll_ok (merge_hyper_log_log a b)"
  by (simp add: hll_ok_def merge_hyper_log_log_def)

lemma hll_new_nth: "i < hll_size \<Longrightarrow> registers new_hyper_log_log ! i = 0"
  by (simp add: new_hyper_log_log_def)

lemma hll_add_nth:
  "hll_ok h \<Longrightarrow> i < hll_size \<Longrightarrow>
     registers (hll_add x h) ! i = (if i = hll_index x then max (hll_rho x) (registers h ! i) else registers h ! i)"
  by (auto simp: hll_add_def hll_ok_def nth_list_update max_def)

lemma hll_merge_nth: "i < hll_size \<Longrightarrow> registers (merge_hyper_log_log a b) ! i = max (registers a ! i) (registers b ! i)"
  by (simp add: merge_hyper_log_log_def)

interpretation hll: commuting_accumulator new_hyper_log_log hll_add merge_hyper_log_log hll_ok
proof
  show "hll_ok new_hyper_log_log" by simp
  show "hll_ok (hll_add x s)" if "hll_ok s" for x s using that by simp
  show "merge_hyper_log_log s new_hyper_log_log = s" if "hll_ok s" for s
    using that by (intro hll_eqI) (simp_all add: hll_merge_nth hll_new_nth)
  show "merge_hyper_log_log s (hll_add x t) = hll_add x (merge_hyper_log_log s t)" if "hll_ok s" "hll_ok t" for s t x
    using that by (intro hll_eqI) (simp_all add: hll_merge_nth hll_add_nth max.left_commute)
  show "hll_add x (hll_add y s) = hll_add y (hll_add x s)" if "hll_ok s" for s x y
    using that by (intro hll_eqI) (simp_all add: hll_add_nth max.left_commute)
qed

lemma hll_add_idem: "hll_ok h \<Longrightarrow> hll_add x (hll_add x h) = hll_add x h"
  by (intro hll_eqI) (simp_all add: hll_add_nth)

lemma hll_fold_nth:
  "i < hll_size \<Longrightarrow>
     registers (fold hll_add xs new_hyper_log_log) ! i = Max (insert 0 (hll_rho ` {x \<in> set xs. hll_index x = i}))"
proof (induction xs rule: rev_induct)
  case Nil
  then show ?case by (simp add: hll_new_nth)
next
  case (snoc x xs)
  define A where "A = hll_rho ` {y \<in> set xs. hll_index y = i}"
  have ok: "hll_ok (fold hll_add xs new_hyper_log_log)" by (rule hll.ok_fold) simp
  have "hll_rho ` {y \<in> set (xs @ [x]). hll_index y = i} = (if hll_index x = i then insert (hll_rho x) A else A)"
    by (auto simp: A_def)
  moreover have "Max (insert 0 (insert (hll_rho x) A)) = max (hll_rho x) (Max (insert 0 A))"
    by (subst insert_commute, subst Max_insert) (simp_all add: A_def)
  moreover have "registers (fold hll_add xs new_hyper_log_log) ! i = Max (insert 0 A)"
    using snoc by (simp add: A_def)
  ultimately show ?case
    using snoc.prems by (cases "hll_index x = i") (simp_all add: hll_add_nth [OF ok])
qed

text \<open>
  C35. A sketch depends only on the set of hashes added to it, whatever their order and multiplicity, and
  merging the sketches of two inputs gives exactly the sketch of both inputs together.
\<close>

theorem hll_union:
  "merge_hyper_log_log (fold hll_add xs new_hyper_log_log) (fold hll_add ys new_hyper_log_log)
     = fold hll_add (xs @ ys) new_hyper_log_log
   \<and> (set xs = set ys \<longrightarrow> fold hll_add xs new_hyper_log_log = fold hll_add ys new_hyper_log_log)"
proof
  show "merge_hyper_log_log (fold hll_add xs new_hyper_log_log) (fold hll_add ys new_hyper_log_log)
     = fold hll_add (xs @ ys) new_hyper_log_log"
    by (rule hll.merge_folds)
  show "set xs = set ys \<longrightarrow> fold hll_add xs new_hyper_log_log = fold hll_add ys new_hyper_log_log"
    by (intro impI hll_eqI hll.ok_fold) (simp_all add: hll_fold_nth)
qed

theorem hll_union_witness:
  "fold hll_add [1, 2] new_hyper_log_log = fold hll_add [2, 1, 1] new_hyper_log_log"
  using hll_union [of "[1, 2]" "[2, 1, 1]"] by auto

text \<open>
  Merging sketches is commutative, associative and idempotent, with the empty sketch as unit.
\<close>

theorem hll_merge_semilattice:
  assumes "hll_ok a" and "hll_ok b" and "hll_ok c"
  shows "merge_hyper_log_log a b = merge_hyper_log_log b a
    \<and> merge_hyper_log_log (merge_hyper_log_log a b) c = merge_hyper_log_log a (merge_hyper_log_log b c)
    \<and> merge_hyper_log_log a a = a \<and> merge_hyper_log_log a new_hyper_log_log = a"
  using assms
  by (auto intro!: hll_eqI simp: hll_merge_nth hll_new_nth max.commute max.left_commute)

theorem hll_merge_semilattice_witness:
  "merge_hyper_log_log new_hyper_log_log new_hyper_log_log = new_hyper_log_log"
  using hll_merge_semilattice [of new_hyper_log_log new_hyper_log_log new_hyper_log_log] by simp

text \<open>
  A run of zeros in the 50 bits that are left of a hash is at most 49 long if it ends in a one, so registers are at most
  50, except for a hash whose 50 bits are all zero: the zeros shifted in are counted too, and the register becomes 65,
  not 51.
\<close>

lemma hll_rho_range:
  "if take_bit 50 hash = 0 then unat (hll_rho hash) = 65 else 1 \<le> unat (hll_rho hash) \<and> unat (hll_rho hash) \<le> 50"
proof -
  define w where "w = push_bit hll_precision hash"
  define m where "m = uint hash mod 2 ^ 50"
  have "uint w = (uint hash * 2 ^ 14) mod 2 ^ 64"
    by (simp add: w_def hll_precision_def push_bit_eq_mult uint_word_ariths)
  also have "\<dots> = m * 2 ^ 14" unfolding m_def using mult_mod_left [of "uint hash" "2 ^ 50" "2 ^ 14 :: int"] by simp
  finally have w: "uint w = m * 2 ^ 14" .
  have m: "0 \<le> m" "m < 2 ^ 50" by (simp_all add: m_def)
  have "uint (take_bit 50 hash) = m" by (simp only: m_def unsigned_take_bit_eq) (simp only: take_bit_eq_mod)
  then have low: "take_bit 50 hash = 0 \<longleftrightarrow> m = 0" by (metis uint_0_iff)
  have lz: "leading_zeros64 w = 64 - bit_length (m * 2 ^ 14)" by (simp add: leading_zeros64_def w)
  have rho: "unat (hll_rho hash) = leading_zeros64 w + 1"
  proof -
    have "leading_zeros64 w \<le> 64" by (simp add: leading_zeros64_def)
    then have "unat (of_nat (leading_zeros64 w) + 1 :: u8) = leading_zeros64 w + 1"
      by (simp add: unat_word_ariths unat_of_nat)
    then show ?thesis by (simp add: hll_rho_def w_def)
  qed
  show ?thesis
  proof (cases "m = 0")
    case True
    then show ?thesis using low rho lz by simp
  next
    case False
    then have "bit_length (m * 2 ^ 14) = bit_length m + 14" using m(1) by (intro bit_length_shift) simp
    moreover have "0 < bit_length m" using False m(1) by (simp add: bit_length_pos)
    moreover have "bit_length m \<le> 50" using m(2) by (simp add: bit_length_le_iff)
    ultimately show ?thesis using False low rho lz by simp
  qed
qed

end
