(* ===== verification/FloatFormat.thy ===== *)
theory FloatFormat
  imports StrConv
begin

text \<open>
  \<open>strconv.FormatFloat\<close> with precision \<open>-1\<close> in the formats \<open>'f'\<close> and \<open>'g'\<close>: the shortest decimal that
  reads back as the value, and of those of that length the one nearest to it. The lemmas end with the
  round trip through \<open>ParseFloat\<close>.
\<close>

section \<open>The shortest decimal\<close>

text \<open>The magnitude the decimal \<open>c * 10 ^ e\<close> is read as.\<close>

definition decimal_mag :: "int \<Rightarrow> int \<Rightarrow> int" where
  "decimal_mag c e =
     (if 0 \<le> e then round_mag (c * 10 ^ nat e * f64_unit) 1 else round_mag (c * f64_unit) (10 ^ nat (- e)))"

text \<open>The number of zeros after the decimal point of \<open>n / d < 1\<close>.\<close>

function lead_zeros :: "int \<Rightarrow> int \<Rightarrow> nat" where
  "lead_zeros n d = (if n \<le> 0 \<or> d \<le> 10 * n then 0 else Suc (lead_zeros (10 * n) d))"
  by pat_completeness auto
termination
  by (relation "measure (\<lambda>(n, d). nat (d - n))") auto

declare lead_zeros.simps [simp del]

text \<open>The position of the decimal point: \<open>10 ^ (dp - 1) \<le> n / d < 10 ^ dp\<close>.\<close>

definition decimal_point :: "int \<Rightarrow> int \<Rightarrow> int" where
  "decimal_point n d =
     (if d \<le> n then int (length (format_nat (nat (n div d)))) else - int (lead_zeros n d))"

text \<open>
  With \<open>k\<close> digits: the decimals next to the value from below and from above, if they read back as \<open>m\<close>;
  of two, the nearer (the even one of two equally near).
\<close>

definition decimal_with :: "int \<Rightarrow> int \<Rightarrow> int \<Rightarrow> (int \<times> int) option" where
  "decimal_with m dp k =
     (let e = dp - k; n = scaled_mag m * (if 0 \<le> e then 1 else 10 ^ nat (- e));
          d = f64_unit * (if 0 \<le> e then 10 ^ nat e else 1);
          lo = n div d; hi = lo + 1; r = n mod d
      in if decimal_mag lo e = m \<and> (decimal_mag hi e \<noteq> m \<or> 2 * r < d \<or> (2 * r = d \<and> even lo)) then Some (lo, e)
         else if decimal_mag hi e = m then Some (hi, e)
         else None)"

text \<open>
  Seventeen digits always distinguish two values; the exact decimal expansion is the model's answer if
  no such decimal were found, so that the function is total without that analysis.
\<close>

definition exact_places :: nat where
  "exact_places = 1074"

definition shortest_decimal :: "int \<Rightarrow> int \<times> int" where
  "shortest_decimal m =
     (let dp = decimal_point (scaled_mag m) f64_unit
      in case List.find (\<lambda>k. decimal_with m dp k \<noteq> None) (map int [1..<18]) of
           Some k \<Rightarrow> the (decimal_with m dp k)
         | None \<Rightarrow> (scaled_mag m * 5 ^ exact_places, - int exact_places))"

text \<open>Trailing zeros removed.\<close>

function trim_zeros :: "int \<Rightarrow> int \<Rightarrow> int \<times> int" where
  "trim_zeros c e = (if 0 < c \<and> 10 dvd c then trim_zeros (c div 10) (e + 1) else (c, e))"
  by pat_completeness auto
termination
  by (relation "measure (\<lambda>(c, e). nat c)") auto

declare trim_zeros.simps [simp del]

definition float_decimal :: "f64 \<Rightarrow> int \<times> int" where
  "float_decimal x =
     (if is_zero x then (0, 0) else (case shortest_decimal (f64_mag x) of (c, e) \<Rightarrow> trim_zeros c e))"

section \<open>The formats\<close>

definition zeros :: "nat \<Rightarrow> string" where
  "zeros n = replicate n (CHR ''0'')"

text \<open>\<open>%f\<close>: at least one digit before the point, no point without digits after it.\<close>

definition fixed_digits :: "int \<Rightarrow> int \<Rightarrow> string" where
  "fixed_digits c e =
     (if 0 \<le> e then format_nat (nat (c * 10 ^ nat e))
      else (let k = nat (- e); s = format_nat (nat c); t = zeros (k + 1 - length s) @ s
            in take (length t - k) t @ ''.'' @ drop (length t - k) t))"

text \<open>\<open>%e\<close>: one digit before the point, an exponent of at least two digits.\<close>

definition scientific_digits :: "int \<Rightarrow> int \<Rightarrow> string" where
  "scientific_digits c e =
     (let s = format_nat (nat c); x = (if c = 0 then 0 else e + int (length s) - 1); a = format_nat (nat \<bar>x\<bar>)
      in take 1 s @ (if 1 < length s then ''.'' @ drop 1 s else [])
           @ (if x < 0 then ''e-'' else ''e+'') @ (if length a < 2 then ''0'' @ a else a))"

definition format_special :: "f64 \<Rightarrow> string option" where
  "format_special x =
     (if is_nan x then Some ''NaN''
      else if is_inf x then Some (if f64_sign x then ''-Inf'' else ''+Inf'') else None)"

definition format_float_f :: "f64 \<Rightarrow> string" where
  "format_float_f x =
     (case format_special x of Some s \<Rightarrow> s
      | None \<Rightarrow> (case float_decimal x of (c, e) \<Rightarrow> (if f64_sign x then ''-'' else []) @ fixed_digits c e))"

text \<open>
  \<open>%g\<close> with the shortest precision: scientific for decimal exponents below \<open>-4\<close> and from \<open>6\<close> on.
\<close>

definition format_float_g :: "f64 \<Rightarrow> string" where
  "format_float_g x =
     (case format_special x of Some s \<Rightarrow> s
      | None \<Rightarrow>
          (case float_decimal x of (c, e) \<Rightarrow>
             (let nd = int (length (format_nat (nat c))); dp = (if c = 0 then 0 else e + nd); x' = dp - 1
              in (if f64_sign x then ''-'' else [])
                 @ (if x' < -4 \<or> 6 \<le> x' then scientific_digits c e else fixed_digits c e))))"

section \<open>Reading back\<close>

lemma round_mag_cancel: "0 < k \<Longrightarrow> 0 < d \<Longrightarrow> round_mag (n * k) (d * k) = round_mag n d"
proof -
  assume k: "0 < k" "0 < d"
  define D where "D = d * 2 ^ (bit_length (n div d) - 53)"
  have D: "0 < D" "d * k * 2 ^ (bit_length (n div d) - 53) = D * k"
    using k by (simp_all add: D_def ac_simps)
  have "(n * k) div (d * k) = n div d" "n * k div (D * k) = n div D" "n * k mod (D * k) = n mod D * k"
    using k by (simp_all add: mult_mod_left)
  moreover have "D * k < 2 * (n mod D * k) \<longleftrightarrow> D < 2 * (n mod D)"
    using mult_less_cancel_right_pos [OF k(1), of D "2 * (n mod D)"] by (simp add: mult.assoc)
  moreover have "2 * (n mod D * k) = D * k \<longleftrightarrow> 2 * (n mod D) = D"
    using k mult_cancel_right [of "2 * (n mod D)" k D] by (simp add: mult.assoc)
  ultimately show ?thesis
    unfolding round_mag_def Let_def by (simp only: D(2)) (simp only: D_def)
qed

lemma decimal_mag_exact:
  assumes "0 \<le> m" and "m \<le> inf_mag"
  shows "decimal_mag (scaled_mag m * 5 ^ exact_places) (- int exact_places) = m"
proof -
  have unit: "f64_unit = 2 ^ exact_places" and pos: "0 < exact_places"
    by (simp_all only: f64_unit_def exact_places_def)
  have ten: "(10::int) ^ k = 5 ^ k * 2 ^ k" for k
    by (simp flip: power_mult_distrib)
  have "decimal_mag (scaled_mag m * 5 ^ exact_places) (- int exact_places)
      = round_mag (scaled_mag m * (5 ^ exact_places * f64_unit)) (1 * (5 ^ exact_places * f64_unit))"
    using pos by (simp add: decimal_mag_def ten unit mult.assoc)
  also have "\<dots> = round_mag (scaled_mag m) 1"
    by (rule round_mag_cancel) simp_all
  finally show ?thesis using round_mag_scaled [OF assms] by simp
qed

lemma decimal_mag_shift: "decimal_mag (10 * c) e = decimal_mag c (e + 1)"
proof (cases "0 \<le> e")
  case True
  then show ?thesis by (simp add: decimal_mag_def nat_add_distrib mult_ac)
next
  case False
  define k where "k = nat (- e - 1)"
  have k: "e = - int k - 1" using False by (simp add: k_def)
  have "round_mag (c * f64_unit * 10) (10 ^ k * 10) = round_mag (c * f64_unit) (10 ^ k)"
    by (rule round_mag_cancel) simp_all
  then have "decimal_mag (10 * c) e = round_mag (c * f64_unit) (10 ^ k)"
    by (simp add: decimal_mag_def k nat_add_distrib mult_ac)
  then show ?thesis by (simp add: decimal_mag_def k)
qed

lemma trim_zeros_mag: "trim_zeros c e = (c', e') \<Longrightarrow> 0 \<le> c \<Longrightarrow> decimal_mag c' e' = decimal_mag c e \<and> 0 \<le> c'"
proof (induction c e rule: trim_zeros.induct)
  case (1 c e)
  show ?case
  proof (cases "0 < c \<and> 10 dvd c")
    case True
    then have "decimal_mag c e = decimal_mag (c div 10) (e + 1)"
      by (metis decimal_mag_shift dvd_mult_div_cancel)
    moreover have "0 \<le> c div 10" using True by (simp add: pos_imp_zdiv_nonneg_iff)
    ultimately show ?thesis using 1 True by (simp add: trim_zeros.simps [of c])
  next
    case False
    with 1 show ?thesis by (simp add: trim_zeros.simps [of c])
  qed
qed

lemma decimal_with_mag:
  assumes "decimal_with m dp k = Some (c, e)"
  shows "decimal_mag c e = m \<and> 0 \<le> c"
proof -
  define n where "n = scaled_mag m * (if 0 \<le> dp - k then 1 else 10 ^ nat (- (dp - k)))"
  define d where "d = f64_unit * (if 0 \<le> dp - k then 10 ^ nat (dp - k) else 1)"
  have "0 \<le> n" "0 < d" by (simp_all add: n_def d_def scaled_mag_nonneg)
  then have "0 \<le> n div d" by (simp add: pos_imp_zdiv_nonneg_iff)
  with assms show ?thesis
    unfolding decimal_with_def Let_def n_def [symmetric] d_def [symmetric] by (auto split: if_splits)
qed

lemma shortest_decimal_mag:
  assumes "0 \<le> m" and "m \<le> inf_mag" and "shortest_decimal m = (c, e)"
  shows "decimal_mag c e = m \<and> 0 \<le> c"
proof (cases "List.find (\<lambda>k. decimal_with m (decimal_point (scaled_mag m) f64_unit) k \<noteq> None) (map int [1..<18])")
  case None
  then have "(c, e) = (scaled_mag m * 5 ^ exact_places, - int exact_places)"
    using assms(3) unfolding shortest_decimal_def Let_def by simp
  moreover have "0 \<le> scaled_mag m * 5 ^ exact_places" by (simp add: scaled_mag_nonneg)
  ultimately show ?thesis using decimal_mag_exact [OF assms(1,2)] by simp
next
  case (Some k)
  then obtain ce where "decimal_with m (decimal_point (scaled_mag m) f64_unit) k = Some ce"
    using find_SomeD by fast
  then show ?thesis
    using assms(3) Some decimal_with_mag unfolding shortest_decimal_def Let_def by simp
qed

lemma decimal_mag_0: "decimal_mag 0 e = 0"
  using round_mag_cancel [of "10 ^ nat (- e)" 1 0]
  by (simp add: decimal_mag_def round_mag_small)

lemma float_decimal_mag:
  assumes "\<not> is_nan x" and "float_decimal x = (c, e)"
  shows "decimal_mag c e = f64_mag x \<and> 0 \<le> c"
proof (cases "is_zero x")
  case True
  with assms show ?thesis by (auto simp: float_decimal_def is_zero_def decimal_mag_0)
next
  case False
  obtain c' e' where s: "shortest_decimal (f64_mag x) = (c', e')" by fastforce
  have "f64_mag x \<le> inf_mag" using assms(1) by (simp add: is_nan_def)
  from shortest_decimal_mag [OF f64_mag_range(1) this s]
  have "decimal_mag c' e' = f64_mag x \<and> 0 \<le> c'" .
  with False s assms(2) trim_zeros_mag show ?thesis by (auto simp: float_decimal_def)
qed

text \<open>Scanning digit strings.\<close>

definition digits_value :: "nat \<Rightarrow> string \<Rightarrow> nat" where
  "digits_value = foldl (\<lambda>a c. 10 * a + digit_val c)"

lemma digits_value_simps [simp]:
  "digits_value m [] = m" "digits_value m (c # s) = digits_value (10 * m + digit_val c) s"
  "digits_value m (s @ t) = digits_value (digits_value m s) t"
  by (simp_all add: digits_value_def)

lemma digits_value_format [simp]: "digits_value 0 (format_nat n) = n"
proof (induction n rule: format_nat.induct)
  case (1 n)
  then show ?case by (cases "n < 10") (simp_all add: format_nat.simps [of n])
qed

lemma digits_value_zeros [simp]: "digits_value 0 (zeros k) = 0"
  by (induction k) (simp_all add: zeros_def digit_val_def)

lemma digit_not_special: "is_digit c \<Longrightarrow> c \<noteq> CHR ''_'' \<and> c \<noteq> CHR ''.'' \<and> c \<noteq> CHR ''+'' \<and> c \<noteq> CHR ''-''
    \<and> c \<noteq> CHR ''x'' \<and> c \<noteq> CHR ''X'' \<and> c \<noteq> CHR ''i'' \<and> c \<noteq> CHR ''n'' \<and> c \<noteq> CHR ''I'' \<and> c \<noteq> CHR ''N''"
  by (auto simp: is_digit_def)

lemma scan_mantissa_digits:
  "list_all is_digit ds \<Longrightarrow>
     scan_mantissa False dot seen m fd (ds @ rest)
       = scan_mantissa False dot (seen \<or> ds \<noteq> []) (digits_value m ds) (if dot then fd + length ds else fd) rest"
  by (induction ds arbitrary: seen m fd) (auto dest: digit_not_special)

lemma ascii_lower_digit [simp]: "is_digit c \<Longrightarrow> ascii_lower c = c"
  by (auto simp: is_digit_def ascii_lower_def)

text \<open>A plain decimal literal: digits, and possibly a point and more digits.\<close>

definition decimal_literal :: "bool \<Rightarrow> string \<Rightarrow> string \<Rightarrow> string" where
  "decimal_literal neg ip fp = (if neg then ''-'' else []) @ ip @ (if fp = [] then [] else CHR ''.'' # fp)"

lemma parse_decimal_literal:
  assumes "ip \<noteq> []" and "list_all is_digit ip" and "list_all is_digit fp"
  shows "parse_float (decimal_literal neg ip fp)
     = f64_of_literal neg (int (digits_value 0 (ip @ fp))) 10 (- int (length fp))"
proof -
  obtain d ds where ip: "ip = d # ds" "is_digit d" using assms(1,2) by (cases ip) auto
  define body where "body = ip @ (if fp = [] then [] else CHR ''.'' # fp)"
  have lit: "decimal_literal neg ip fp = (if neg then ''-'' else []) @ body"
    by (simp add: decimal_literal_def body_def)
  have strip: "strip_sign (decimal_literal neg ip fp) = body"
    unfolding lit using ip digit_not_special [OF ip(2)] by (auto simp: strip_sign_def body_def)
  have sign: "(take 1 (decimal_literal neg ip fp) = ''-'') = neg"
    unfolding lit using ip digit_not_special [OF ip(2)] by (auto simp: body_def)
  have low: "map ascii_lower body = d # map ascii_lower (tl body)"
    using ip by (simp add: body_def)
  have "map ascii_lower (decimal_literal neg ip fp) \<noteq> ''nan''"
    using low digit_not_special [OF ip(2)] unfolding lit by (cases neg) (auto simp: ascii_lower_def)
  then have "special_float (decimal_literal neg ip fp) = None"
    unfolding special_float_def Let_def strip low using digit_not_special [OF ip(2)] by simp
  moreover have not_x: "ascii_lower c \<noteq> CHR ''x''" if "c = CHR ''.'' \<or> is_digit c" for c
    using that digit_not_special [of c] ascii_lower_digit [of c] by (auto simp: ascii_lower_def)
  moreover have "body ! i = CHR ''.'' \<or> is_digit (body ! i)" if "i < length body" for i
  proof -
    have "list_all (\<lambda>c. c = CHR ''.'' \<or> is_digit c) body"
      using assms(2,3) by (auto simp: body_def list_all_iff)
    with that show ?thesis by (simp add: list_all_length)
  qed
  then have dec: "(2 < length body \<and> body ! 0 = CHR ''0'' \<and> ascii_lower (body ! 1) = CHR ''x'') = False"
    using not_x by (metis Suc_1 Suc_lessD)
  moreover have "CHR ''_'' \<notin> set (decimal_literal neg ip fp)"
    unfolding lit using assms(2,3) digit_not_special by (auto simp: body_def list_all_iff)
  moreover have "scan_mantissa False False False 0 0 body
      = \<lparr>ms_value = digits_value 0 (ip @ fp), ms_frac = length fp, ms_digits = True, ms_rest = []\<rparr>"
    using scan_mantissa_digits [OF assms(2), of False False 0 0] scan_mantissa_digits [OF assms(3), of True True _ 0 "[]"]
      scan_mantissa_digits [OF assms(2), of False False 0 0 "[]"] assms(1)
    by (auto simp: body_def)
  ultimately show ?thesis
    unfolding parse_float_def Let_def strip sign dec by simp
qed

lemma fixed_digits_literal:
  assumes "0 \<le> c"
  shows "\<exists>ip fp. fixed_digits c e = decimal_literal False ip fp \<and> ip \<noteq> [] \<and> list_all is_digit ip
     \<and> list_all is_digit fp \<and> decimal_mag (int (digits_value 0 (ip @ fp))) (- int (length fp)) = decimal_mag c e"
proof (cases "0 \<le> e")
  case True
  have "list_all is_digit (format_nat n)" for n by (auto simp: list_all_iff format_nat_digits)
  moreover have "decimal_mag (c * 10 ^ nat e) 0 = decimal_mag c e"
    using True by (simp add: decimal_mag_def)
  ultimately show ?thesis
    using True assms by (intro exI [of _ "format_nat (nat (c * 10 ^ nat e))"] exI [of _ "[]"])
      (simp add: fixed_digits_def decimal_literal_def)
next
  case False
  define k t where "k = nat (- e)" and "t = zeros (k + 1 - length (format_nat (nat c))) @ format_nat (nat c)"
  have k: "0 < k" "e = - int k" using False by (simp_all add: k_def)
  have len: "k < length t" by (simp add: t_def zeros_def)
  have dig: "list_all is_digit t"
    by (auto simp: t_def list_all_iff zeros_def format_nat_digits) (simp add: is_digit_def)
  then have "list_all is_digit (take (length t - k) t)" "list_all is_digit (drop (length t - k) t)"
    by (auto simp: list_all_iff dest: in_set_takeD in_set_dropD)
  moreover have "digits_value 0 t = nat c" by (simp add: t_def)
  moreover have "fixed_digits c e = take (length t - k) t @ ''.'' @ drop (length t - k) t"
    using False unfolding fixed_digits_def Let_def k_def [symmetric] t_def [symmetric] by simp
  ultimately show ?thesis
    using k len assms by (intro exI [of _ "take (length t - k) t"] exI [of _ "drop (length t - k) t"])
      (auto simp: decimal_literal_def simp del: digits_value_simps(3))
qed

lemma parse_format_finite:
  assumes "\<not> is_nan x" and "\<not> is_inf x"
  shows "parse_float (format_float_f x) = Inr x"
proof -
  obtain c e where ce: "float_decimal x = (c, e)" by fastforce
  have mag: "decimal_mag c e = f64_mag x" "0 \<le> c" using float_decimal_mag [OF assms(1) ce] by auto
  from fixed_digits_literal [OF this(2), of e] obtain ip fp where
      f: "fixed_digits c e = decimal_literal False ip fp" "ip \<noteq> []" "list_all is_digit ip" "list_all is_digit fp"
      "decimal_mag (int (digits_value 0 (ip @ fp))) (- int (length fp)) = f64_mag x"
    unfolding mag(1) by blast
  have "format_float_f x = decimal_literal (f64_sign x) ip fp"
    using f(1) ce assms by (simp add: format_float_f_def format_special_def decimal_literal_def)
  then have "parse_float (format_float_f x)
      = f64_of_literal (f64_sign x) (int (digits_value 0 (ip @ fp))) 10 (- int (length fp))"
    by (simp add: parse_decimal_literal [OF f(2-4)])
  also have "\<dots> = Inr (mk_f64 (f64_sign x) (f64_mag x))"
    using f(5) assms(2) unfolding f64_of_literal_def decimal_mag_def Let_def by (simp add: is_inf_def)
  finally show ?thesis by simp
qed

lemma lower_specials: "map ascii_lower ''NaN'' = ''nan''" "map ascii_lower ''Inf'' = ''inf''"
  by code_simp+

lemma special_literals:
  "special_float ''+Inf'' = Some (f64_inf False)" "special_float ''-Inf'' = Some (f64_inf True)"
  "special_float ''NaN'' = Some f64_nan"
proof -
  have "strip_sign ''+Inf'' = ''Inf''" "strip_sign ''-Inf'' = ''Inf''" "strip_sign ''NaN'' = ''NaN''"
    by (simp_all add: strip_sign_def)
  then show "special_float ''+Inf'' = Some (f64_inf False)" "special_float ''-Inf'' = Some (f64_inf True)"
      "special_float ''NaN'' = Some f64_nan"
    unfolding special_float_def Let_def by (simp_all only: lower_specials) simp_all
qed

lemma parse_format_inf: "is_inf x \<Longrightarrow> parse_float (format_float_f x) = Inr x"
  using is_inf_eq [of x]
  by (cases "f64_sign x")
    (simp_all add: format_float_f_def format_special_def is_inf_def is_nan_def parse_float_def special_literals)

lemma parse_format_nan: "is_nan x \<Longrightarrow> parse_float (format_float_f x) = Inr f64_nan"
  by (simp add: format_float_f_def format_special_def parse_float_def special_literals)

end
