(* ===== verification/AggSpec.thy ===== *)
theory AggSpec
  imports FloatFormat Schema
begin

text \<open>
  \<open>internal/aggregate/spec.go\<close>: aggregate functions, their names, and aggregation specs.

  \<open>funcKind\<close> and \<open>AggFuncKind\<close> are Go integers with six named constants each; the constructors
  \<open>KindOther\<close> and \<open>FuncOther\<close> stand for the other values. The Unicode case tables are the parameter
  \<open>uni_lower\<close> of theory StrConv.
\<close>

datatype func_kind = KindSum | KindMin | KindMax | KindAvg | KindDistinct | KindPercentile | FuncKindOther int

record agg_func =
  af_kind :: func_kind
  af_q :: f64

definition FnSum :: agg_func where "FnSum = \<lparr>af_kind = KindSum, af_q = f64_zero\<rparr>"
definition FnMin :: agg_func where "FnMin = \<lparr>af_kind = KindMin, af_q = f64_zero\<rparr>"
definition FnMax :: agg_func where "FnMax = \<lparr>af_kind = KindMax, af_q = f64_zero\<rparr>"
definition FnAvg :: agg_func where "FnAvg = \<lparr>af_kind = KindAvg, af_q = f64_zero\<rparr>"
definition FnDistinct :: agg_func where "FnDistinct = \<lparr>af_kind = KindDistinct, af_q = f64_zero\<rparr>"

definition FnPercentile :: "f64 \<Rightarrow> agg_func" where
  "FnPercentile q = \<lparr>af_kind = KindPercentile, af_q = q\<rparr>"

lemmas agg_func_defs = FnSum_def FnMin_def FnMax_def FnAvg_def FnDistinct_def FnPercentile_def

datatype agg_func_kind = FuncSum | FuncMin | FuncMax | FuncAvg | FuncDistinct | FuncPercentile | FuncOther int

fun kind_of :: "agg_func \<Rightarrow> agg_func_kind" where
  "kind_of f = (case af_kind f of
      KindSum \<Rightarrow> FuncSum | KindMin \<Rightarrow> FuncMin | KindMax \<Rightarrow> FuncMax | KindAvg \<Rightarrow> FuncAvg
    | KindDistinct \<Rightarrow> FuncDistinct | KindPercentile \<Rightarrow> FuncPercentile | FuncKindOther i \<Rightarrow> FuncOther i)"

definition quantile_of :: "agg_func \<Rightarrow> f64" where
  "quantile_of f = af_q f"

datatype spec_error =
    ErrUnknownKind int
  | ErrInvalidPercentile string
  | ErrUnknownFunc string
  | ErrNotDistributable string agg_func

fun agg_func_from_kind :: "agg_func_kind \<Rightarrow> f64 \<Rightarrow> spec_error + agg_func" where
  "agg_func_from_kind FuncSum q = Inr FnSum"
| "agg_func_from_kind FuncMin q = Inr FnMin"
| "agg_func_from_kind FuncMax q = Inr FnMax"
| "agg_func_from_kind FuncAvg q = Inr FnAvg"
| "agg_func_from_kind FuncDistinct q = Inr FnDistinct"
| "agg_func_from_kind FuncPercentile q = Inr (FnPercentile q)"
| "agg_func_from_kind (FuncOther i) q = Inl (ErrUnknownKind i)"

definition requires_numeric :: "agg_func \<Rightarrow> bool" where
  "requires_numeric f \<longleftrightarrow> af_kind f \<noteq> KindDistinct"

record measure_spec =
  ms_column :: string
  ms_funcs :: "agg_func list"

record agg_spec =
  group_by :: "string list"
  measures :: "measure_spec list"

text \<open>The nested loops of \<open>ValidateDistributable\<close>: the first percentile found is the error.\<close>

fun validate_distributable :: "agg_spec \<Rightarrow> spec_error + unit" where
  "validate_distributable spec =
     (case List.find (\<lambda>(col, fn). kind_of fn = FuncPercentile)
        (concat (map (\<lambda>ms. map (Pair (ms_column ms)) (ms_funcs ms)) (measures spec))) of
        None \<Rightarrow> Inr ()
      | Some (col, fn) \<Rightarrow> Inl (ErrNotDistributable col fn))"

section \<open>Names\<close>

definition parse_agg_func :: "(bytes \<Rightarrow> bytes) \<Rightarrow> string \<Rightarrow> spec_error + agg_func" where
  "parse_agg_func uni_lower name =
     (let lower = to_lower uni_lower (trim_space name)
      in if lower = ''sum'' then Inr FnSum
         else if lower = ''min'' then Inr FnMin
         else if lower = ''max'' then Inr FnMax
         else if lower = ''avg'' then Inr FnAvg
         else if lower = ''distinct'' then Inr FnDistinct
         else (case cut_prefix lower ''p'' of
             Some rest \<Rightarrow>
               (case parse_float rest of
                  Inl _ \<Rightarrow> Inl (ErrInvalidPercentile name)
                | Inr q \<Rightarrow> (if f64_le q f64_zero \<or> f64_le (f64_of_int 100) q then Inl (ErrInvalidPercentile name)
                          else Inr (FnPercentile q)))
           | None \<Rightarrow> Inl (ErrUnknownFunc name)))"

definition agg_func_string :: "agg_func \<Rightarrow> string" where
  "agg_func_string f = (case af_kind f of
      KindSum \<Rightarrow> ''sum'' | KindMin \<Rightarrow> ''min'' | KindMax \<Rightarrow> ''max'' | KindAvg \<Rightarrow> ''avg''
    | KindDistinct \<Rightarrow> ''distinct'' | KindPercentile \<Rightarrow> ''p'' @ format_float_f (af_q f)
    | FuncKindOther i \<Rightarrow> ''AggFunc(kind='' @ format_int i @ '')'')"

section \<open>Properties\<close>

text \<open>Names without spaces and capitals are their own trimmed lower-case form.\<close>

definition plain_char :: "char \<Rightarrow> bool" where
  "plain_char c \<longleftrightarrow> 33 \<le> code c \<and> code c < 127 \<and> \<not> (65 \<le> code c \<and> code c \<le> 90)"

lemma space_encodings_ends:
  "list_all (\<lambda>w. w \<noteq> [] \<and> \<not> plain_char (hd w) \<and> \<not> plain_char (last w)) space_encodings"
  by (simp add: space_encodings_def byte_seq_def plain_char_def)

lemma find_None_iff: "List.find P xs = None \<longleftrightarrow> (\<forall>x \<in> set xs. \<not> P x)"
  by (induction xs) auto

lemma trim_space_plain: "list_all plain_char s \<Longrightarrow> trim_space s = s"
proof -
  assume s: "list_all plain_char s"
  have no_prefix: "take (length w) s \<noteq> w" if "w \<in> set space_encodings" for w
  proof
    assume w: "take (length w) s = w"
    have "w \<noteq> []" "\<not> plain_char (hd w)" using that space_encodings_ends by (auto simp: list_all_iff)
    moreover have "hd w \<in> set s" using w \<open>w \<noteq> []\<close> by (metis hd_in_set in_set_takeD)
    ultimately show False using s by (auto simp: list_all_iff)
  qed
  have no_suffix: "drop (length s - length w) s \<noteq> w" if "w \<in> set space_encodings" for w
  proof
    assume w: "drop (length s - length w) s = w"
    have "w \<noteq> []" "\<not> plain_char (last w)" using that space_encodings_ends by (auto simp: list_all_iff)
    moreover have "last w \<in> set s" using w \<open>w \<noteq> []\<close> by (metis last_in_set in_set_dropD)
    ultimately show False using s by (auto simp: list_all_iff)
  qed
  have "trim_left s = s"
    using no_prefix find_None_iff [of "\<lambda>w. take (length w) s = w" space_encodings]
    by (simp add: trim_left.simps [of s] strip_space_prefix_def)
  moreover have "trim_right s = s"
    using no_suffix find_None_iff [of "\<lambda>w. length w \<le> length s \<and> drop (length s - length w) s = w" space_encodings]
    by (simp add: trim_right.simps [of s] strip_space_suffix_def)
  ultimately show ?thesis by (simp add: trim_space_def)
qed

lemma to_lower_plain: "list_all plain_char s \<Longrightarrow> to_lower u s = s"
proof -
  assume s: "list_all plain_char s"
  then have "list_all is_ascii s" by (auto simp: list_all_iff plain_char_def is_ascii_def)
  moreover have "map ascii_lower s = s"
    using s by (intro map_idI) (auto simp: list_all_iff plain_char_def ascii_lower_def)
  ultimately show ?thesis by (simp add: to_lower_def)
qed

lemma format_finite_literal:
  assumes "\<not> is_nan x" and "\<not> is_inf x"
  shows "\<exists>ip fp. format_float_f x = decimal_literal (f64_sign x) ip fp \<and> list_all is_digit ip \<and> list_all is_digit fp"
proof -
  obtain c e where ce: "float_decimal x = (c, e)" by fastforce
  from fixed_digits_literal [OF conjunct2 [OF float_decimal_mag [OF assms(1) ce]], of e] obtain ip fp where
      "fixed_digits c e = decimal_literal False ip fp" "list_all is_digit ip" "list_all is_digit fp"
    by blast
  moreover from this have "format_float_f x = decimal_literal (f64_sign x) ip fp"
    using ce assms by (simp add: format_float_f_def format_special_def decimal_literal_def)
  ultimately show ?thesis by blast
qed

lemma format_plain: "\<not> is_nan x \<Longrightarrow> \<not> is_inf x \<Longrightarrow> list_all plain_char (format_float_f x)"
proof -
  assume "\<not> is_nan x" "\<not> is_inf x"
  then obtain ip fp where lit: "format_float_f x = decimal_literal (f64_sign x) ip fp"
      "list_all is_digit ip" "list_all is_digit fp"
    using format_finite_literal by blast
  have "is_digit c \<Longrightarrow> plain_char c" for c by (auto simp: is_digit_def plain_char_def)
  with lit show ?thesis
    by (auto simp: decimal_literal_def list_all_iff plain_char_def)
qed

definition percentile_ok :: "f64 \<Rightarrow> bool" where
  "percentile_ok q \<longleftrightarrow> f64_lt f64_zero q \<and> f64_lt q (f64_of_int 100)"

lemma f64_le_lt: "f64_lt x y \<Longrightarrow> \<not> f64_le y x" "\<not> is_nan x \<Longrightarrow> \<not> is_nan y \<Longrightarrow> \<not> f64_le y x \<Longrightarrow> f64_lt x y"
  by (auto simp: f64_le_def f64_lt_def)

lemma percentile_ok_finite: "percentile_ok q \<Longrightarrow> \<not> is_nan q \<and> \<not> is_inf q"
proof -
  assume ok: "percentile_ok q"
  have "f64_mag (f64_of_int 100) \<le> inf_mag"
    using ok by (simp add: percentile_ok_def f64_lt_def is_nan_def)
  then have "f64_key (f64_of_int 100) \<le> inf_mag" by (simp add: f64_key_def)
  moreover have "f64_key f64_zero = 0" by (simp add: f64_key_def f64_zero_def f64_mag_def)
  ultimately have "0 < f64_key q" "f64_key q < inf_mag"
    using ok by (simp_all add: percentile_ok_def f64_lt_def)
  then show ?thesis
    using f64_mag_range(1) [of q] by (auto simp: f64_key_def is_nan_def is_inf_def split: if_splits)
qed

definition writable_func :: "agg_func \<Rightarrow> bool" where
  "writable_func f \<longleftrightarrow> f \<in> {FnSum, FnMin, FnMax, FnAvg, FnDistinct} \<or> (\<exists>q. f = FnPercentile q \<and> percentile_ok q)"

lemma parse_agg_func_string: "writable_func f \<Longrightarrow> parse_agg_func uni_lower (agg_func_string f) = Inr f"
proof -
  assume w: "writable_func f"
  show ?thesis
  proof (cases "\<exists>q. f = FnPercentile q \<and> percentile_ok q")
    case False
    have "list_all plain_char ''sum''" "list_all plain_char ''min''" "list_all plain_char ''max''"
        "list_all plain_char ''avg''" "list_all plain_char ''distinct''"
      by (simp_all add: plain_char_def)
    with False w show ?thesis
      by (auto simp: writable_func_def agg_func_string_def parse_agg_func_def agg_func_defs trim_space_plain to_lower_plain)
  next
    case True
    then obtain q where q: "f = FnPercentile q" "percentile_ok q" by blast
    then have fin: "\<not> is_nan q" "\<not> is_inf q" using percentile_ok_finite by auto
    define rest where "rest = format_float_f q"
    have "list_all plain_char (''p'' @ rest)" using format_plain [OF fin] by (simp add: rest_def plain_char_def)
    moreover have "parse_float rest = Inr q" using parse_format_finite [OF fin] by (simp add: rest_def)
    moreover have "\<not> f64_le q f64_zero" "\<not> f64_le (f64_of_int 100) q"
      using q(2) f64_le_lt(1) by (auto simp: percentile_ok_def)
    moreover have "agg_func_string f = ''p'' @ rest"
      by (simp add: q(1) agg_func_string_def agg_func_defs rest_def)
    ultimately show ?thesis
      by (simp add: parse_agg_func_def trim_space_plain to_lower_plain cut_prefix_def q(1))
  qed
qed

text \<open>
  Names of aggregate functions round-trip: the function \<open>String\<close> prints is parsed back, for every
  percentile between 0 and 100 exactly.
\<close>

theorem agg_func_name_roundtrip:
  assumes "f \<in> {FnSum, FnMin, FnMax, FnAvg, FnDistinct} \<or> (\<exists>q. f = FnPercentile q \<and> percentile_ok q)"
  shows "parse_agg_func uni_lower (agg_func_string f) = Inr f"
  using assms by (intro parse_agg_func_string) (simp add: writable_func_def)

theorem agg_func_name_roundtrip_witness:
  "parse_agg_func id (agg_func_string FnAvg) = Inr FnAvg"
  by (rule agg_func_name_roundtrip) simp



text \<open>
  \<open>Kind\<close>, \<open>Quantile\<close> and \<open>AggFuncFromKind\<close> are inverse to each other on the named functions, and
  \<open>ValidateDistributable\<close> accepts exactly the specs without percentiles.
\<close>

theorem kind_roundtrip_and_validation:
  "(f \<in> {FnSum, FnMin, FnMax, FnAvg, FnDistinct, FnPercentile q} \<longleftrightarrow>
      agg_func_from_kind (kind_of f) (quantile_of f) = Inr f \<and> (af_kind f = KindPercentile \<longrightarrow> af_q f = q))
   \<and> (validate_distributable spec = Inr ()
      \<longleftrightarrow> list_all (\<lambda>ms. list_all (\<lambda>fn. af_kind fn \<noteq> KindPercentile) (ms_funcs ms)) (measures spec))"
proof
  show "f \<in> {FnSum, FnMin, FnMax, FnAvg, FnDistinct, FnPercentile q} \<longleftrightarrow>
      agg_func_from_kind (kind_of f) (quantile_of f) = Inr f \<and> (af_kind f = KindPercentile \<longrightarrow> af_q f = q)"
    by (cases "af_kind f"; cases f) (auto simp: agg_func_defs quantile_of_def)
  have "kind_of fn = FuncPercentile \<longleftrightarrow> af_kind fn = KindPercentile" for fn
    by (cases "af_kind fn") auto
  then show "validate_distributable spec = Inr ()
      \<longleftrightarrow> list_all (\<lambda>ms. list_all (\<lambda>fn. af_kind fn \<noteq> KindPercentile) (ms_funcs ms)) (measures spec)"
    by (auto simp: list_all_iff find_None_iff split: option.splits dest!: find_SomeD)
      (metis find_None_iff option.distinct(1))
qed

theorem kind_roundtrip_and_validation_witness:
  "agg_func_from_kind (kind_of FnAvg) (quantile_of FnAvg) = Inr FnAvg"
  using kind_roundtrip_and_validation [of FnAvg f64_zero "\<lparr>group_by = [], measures = []\<rparr>"] by simp

end
