(* ===== verification/Accumulator.thy ===== *)
theory Accumulator
  imports TDigest HyperLogLog AggSpec "HOL-Library.Multiset"
begin

text \<open>
  \<open>internal/aggregate/accumulator.go\<close>: the running state of one measure in one group, the state of a
  group, and the byte encoding of group keys.

  A nil pointer is \<open>None\<close>. Merging returns \<open>None\<close> where the code would dereference nil or index a slice
  out of range. Accumulators are values here: the code merges into \<open>a\<close>'s own digest, and neither side is
  used again.
\<close>

section \<open>Measures\<close>

record measure_accum =
  ma_type :: column_type
  sum_i64 :: i64
  min_i64 :: i64
  max_i64 :: i64
  sum_f64 :: f64
  min_f64 :: f64
  max_f64 :: f64
  have_min_max :: bool
  distinct_hll :: "hyper_log_log option"
  digest :: "tdigest option"

record measure_wants =
  wants_distinct :: bool
  wants_percentile :: bool

definition new_measure_accum :: "column_type \<Rightarrow> measure_wants \<Rightarrow> measure_accum" where
  "new_measure_accum t wants =
     \<lparr>ma_type = t, sum_i64 = 0, min_i64 = 0, max_i64 = 0, sum_f64 = f64_zero, min_f64 = f64_zero,
      max_f64 = f64_zero, have_min_max = False,
      distinct_hll = (if wants_distinct wants then Some new_hyper_log_log else None),
      digest = (if wants_percentile wants then Some new_tdigest else None)\<rparr>"

text \<open>The type switch of \<open>add\<close>.\<close>

definition add_numeric :: "value_t \<Rightarrow> measure_accum \<Rightarrow> measure_accum" where
  "add_numeric v m =
     (case ma_type m of
        TypeInt64 \<Rightarrow>
          (let m1 = m\<lparr>sum_i64 := sum_i64 m + vi64 v\<rparr>
           in if \<not> have_min_max m1 then m1\<lparr>min_i64 := vi64 v, max_i64 := vi64 v, have_min_max := True\<rparr>
              else (let m2 = (if vi64 v <s min_i64 m1 then m1\<lparr>min_i64 := vi64 v\<rparr> else m1)
                    in if max_i64 m2 <s vi64 v then m2\<lparr>max_i64 := vi64 v\<rparr> else m2))
      | TypeFloat64 \<Rightarrow>
          (let m1 = m\<lparr>sum_f64 := f64_add (sum_f64 m) (vf64 v)\<rparr>
           in if \<not> have_min_max m1 then m1\<lparr>min_f64 := vf64 v, max_f64 := vf64 v, have_min_max := True\<rparr>
              else m1\<lparr>min_f64 := math_min (min_f64 m1) (vf64 v), max_f64 := math_max (max_f64 m1) (vf64 v)\<rparr>)
      | _ \<Rightarrow> m)"

definition measure_add :: "runtime_lib \<Rightarrow> value_t \<Rightarrow> measure_accum \<Rightarrow> measure_accum" where
  "measure_add lib v m =
     (let m1 = add_numeric v m;
          m2 = m1\<lparr>distinct_hll := map_option (hll_add (hash_value v)) (distinct_hll m1)\<rparr>;
          f = (if ma_type m2 = TypeInt64 then f64_of_int (sint (vi64 v)) else vf64 v)
      in m2\<lparr>digest := map_option (tdigest_add lib f) (digest m2)\<rparr>)"

definition i64_min :: "i64 \<Rightarrow> i64 \<Rightarrow> i64" where "i64_min a b = (if b <s a then b else a)"
definition i64_max :: "i64 \<Rightarrow> i64 \<Rightarrow> i64" where "i64_max a b = (if a <s b then b else a)"

text \<open>Sums and extremes of \<open>mergeMeasureAccum\<close>.\<close>

definition merge_numeric :: "measure_accum \<Rightarrow> measure_accum \<Rightarrow> measure_accum" where
  "merge_numeric a b =
     (let wants = \<lparr>wants_distinct = False, wants_percentile = False\<rparr>;
          out0 = new_measure_accum (ma_type a) wants;
          out = (case ma_type a of
                   TypeInt64 \<Rightarrow> out0\<lparr>sum_i64 := sum_i64 a + sum_i64 b\<rparr>
                 | TypeFloat64 \<Rightarrow> out0\<lparr>sum_f64 := f64_add (sum_f64 a) (sum_f64 b)\<rparr>
                 | _ \<Rightarrow> out0)
      in if have_min_max a \<and> have_min_max b then
           (case ma_type a of
              TypeInt64 \<Rightarrow> out\<lparr>have_min_max := True, min_i64 := i64_min (min_i64 a) (min_i64 b),
                             max_i64 := i64_max (max_i64 a) (max_i64 b)\<rparr>
            | TypeFloat64 \<Rightarrow> out\<lparr>have_min_max := True, min_f64 := math_min (min_f64 a) (min_f64 b),
                               max_f64 := math_max (max_f64 a) (max_f64 b)\<rparr>
            | _ \<Rightarrow> out\<lparr>have_min_max := True\<rparr>)
         else if have_min_max a then
           out\<lparr>have_min_max := True, min_i64 := min_i64 a, max_i64 := max_i64 a, min_f64 := min_f64 a, max_f64 := max_f64 a\<rparr>
         else if have_min_max b then
           out\<lparr>have_min_max := True, min_i64 := min_i64 b, max_i64 := max_i64 b, min_f64 := min_f64 b, max_f64 := max_f64 b\<rparr>
         else out)"

definition merge_distinct :: "hyper_log_log option \<Rightarrow> hyper_log_log option \<Rightarrow> hyper_log_log option option" where
  "merge_distinct a b =
     (case a of None \<Rightarrow> Some None
      | Some x \<Rightarrow>
          (case b of None \<Rightarrow> None
           | Some y \<Rightarrow> (if hll_size \<le> length (registers x) \<and> hll_size \<le> length (registers y)
                       then Some (Some (merge_hyper_log_log x y)) else None)))"

definition merge_digest :: "runtime_lib \<Rightarrow> tdigest option \<Rightarrow> tdigest option \<Rightarrow> tdigest option option" where
  "merge_digest lib a b =
     (case a of None \<Rightarrow> Some None
      | Some x \<Rightarrow> (case b of None \<Rightarrow> None | Some y \<Rightarrow> Some (Some (fst (tdigest_merge lib x y)))))"

definition merge_measure_accum :: "runtime_lib \<Rightarrow> measure_accum \<Rightarrow> measure_accum \<Rightarrow> measure_accum option" where
  "merge_measure_accum lib a b =
     (let out = merge_numeric a b
      in case merge_distinct (distinct_hll a) (distinct_hll b) of
           None \<Rightarrow> None
         | Some h \<Rightarrow>
             (case merge_digest lib (digest a) (digest b) of
                None \<Rightarrow> None
              | Some d \<Rightarrow> Some (out\<lparr>distinct_hll := h, digest := d\<rparr>)))"

section \<open>Groups\<close>

record group_accum =
  ga_key :: "value_t list"
  ga_count :: i64
  ga_measures :: "measure_accum list"

definition new_group_accum :: "value_t list \<Rightarrow> column_type list \<Rightarrow> measure_wants list \<Rightarrow> group_accum" where
  "new_group_accum key types wants =
     \<lparr>ga_key = key, ga_count = 0, ga_measures = map2 new_measure_accum types wants\<rparr>"

fun merge_measures :: "runtime_lib \<Rightarrow> measure_accum list \<Rightarrow> measure_accum list \<Rightarrow> measure_accum list option" where
  "merge_measures lib [] bs = Some []"
| "merge_measures lib (a # as) [] = None"
| "merge_measures lib (a # as) (b # bs) =
     (case merge_measure_accum lib a b of None \<Rightarrow> None
      | Some m \<Rightarrow> map_option ((#) m) (merge_measures lib as bs))"

definition group_merge :: "runtime_lib \<Rightarrow> group_accum \<Rightarrow> group_accum \<Rightarrow> group_accum option" where
  "group_merge lib g other =
     map_option (\<lambda>ms. g\<lparr>ga_count := ga_count g + ga_count other, ga_measures := ms\<rparr>)
       (merge_measures lib (ga_measures g) (ga_measures other))"

section \<open>Group keys\<close>

text \<open>\<open>binary.AppendUvarint\<close>.\<close>

fun put_uvarint :: "nat \<Rightarrow> bytes" where
  "put_uvarint n = (if n < 128 then [char_of n] else char_of (n mod 128 + 128) # put_uvarint (n div 128))"

declare put_uvarint.simps [simp del]

definition encode_value :: "value_t \<Rightarrow> bytes" where
  "encode_value v =
     (case vtype v of
        TypeString \<Rightarrow> put_uvarint (length (vstr v)) @ vstr v
      | TypeInt64 \<Rightarrow> le_bytes (vi64 v)
      | TypeFloat64 \<Rightarrow> le_bytes (f64_bits (vf64 v))
      | TypeOther _ \<Rightarrow> [])"

definition encode_group_key :: "value_t list \<Rightarrow> bytes" where
  "encode_group_key dims = concat (map encode_value dims)"

section \<open>The exact part of a measure\<close>

text \<open>
  Everything in a measure except the float sum, the sketch and the digest. On this part adding and
  merging satisfy the contract of theory Mergeable, for every column type.
\<close>

lemma sint_inject: "sint (a :: i64) = sint b \<Longrightarrow> a = b"
  by (rule signed_word_eqI)

interpretation i64_min: abel_semigroup i64_min
  by unfold_locales (auto simp: i64_min_def word_sless_alt not_less intro!: sint_inject)

interpretation i64_max: abel_semigroup i64_max
  by unfold_locales (auto simp: i64_max_def word_sless_alt not_less intro!: sint_inject)

interpretation math_min: abel_semigroup math_min
  by unfold_locales (rule math_min_assoc, rule math_min_commute)

interpretation math_max: abel_semigroup math_max
  by unfold_locales (rule math_max_assoc, rule math_max_commute)

lemmas extreme_assoc = i64_min.assoc i64_max.assoc math_min.assoc math_max.assoc

lemmas extreme_ac = extreme_assoc i64_min.commute i64_max.commute math_min.commute math_max.commute
  i64_min.left_commute i64_max.left_commute math_min.left_commute math_max.left_commute

lemma sint_i64_min: "sint (i64_min a b) = min (sint a) (sint b)" "sint (i64_max a b) = max (sint a) (sint b)"
  by (auto simp: i64_min_def i64_max_def word_sless_alt)

definition core_of :: "measure_accum \<Rightarrow> measure_accum" where
  "core_of m = m\<lparr>sum_f64 := f64_zero, distinct_hll := None, digest := None\<rparr>"

definition core_add :: "value_t \<Rightarrow> measure_accum \<Rightarrow> measure_accum" where
  "core_add v m = core_of (add_numeric v m)"

definition core_merge :: "measure_accum \<Rightarrow> measure_accum \<Rightarrow> measure_accum" where
  "core_merge a b = core_of (merge_numeric a b)"

definition core_new :: "column_type \<Rightarrow> measure_accum" where
  "core_new t = new_measure_accum t \<lparr>wants_distinct = False, wants_percentile = False\<rparr>"

definition core_ok :: "column_type \<Rightarrow> measure_accum \<Rightarrow> bool" where
  "core_ok t m \<longleftrightarrow> core_of m = m \<and> ma_type m = t
     \<and> (t \<noteq> TypeInt64 \<longrightarrow> sum_i64 m = 0)
     \<and> (t \<noteq> TypeInt64 \<or> \<not> have_min_max m \<longrightarrow> min_i64 m = 0 \<and> max_i64 m = 0)
     \<and> (t \<noteq> TypeFloat64 \<or> \<not> have_min_max m \<longrightarrow> min_f64 m = f64_zero \<and> max_f64 m = f64_zero)
     \<and> (t \<noteq> TypeInt64 \<and> t \<noteq> TypeFloat64 \<longrightarrow> \<not> have_min_max m)"

lemma core_of_simps [simp]:
  "ma_type (core_of m) = ma_type m" "sum_i64 (core_of m) = sum_i64 m" "min_i64 (core_of m) = min_i64 m"
  "max_i64 (core_of m) = max_i64 m" "sum_f64 (core_of m) = f64_zero" "min_f64 (core_of m) = min_f64 m"
  "max_f64 (core_of m) = max_f64 m" "have_min_max (core_of m) = have_min_max m"
  "distinct_hll (core_of m) = None" "digest (core_of m) = None" "core_of (core_of m) = core_of m"
  by (simp_all add: core_of_def)

text \<open>The fields of the exact part after an addition and after a merge.\<close>

lemma core_add_fields:
  "ma_type (core_add v m) = ma_type m"
  "sum_i64 (core_add v m) = (if ma_type m = TypeInt64 then sum_i64 m + vi64 v else sum_i64 m)"
  "have_min_max (core_add v m) \<longleftrightarrow> have_min_max m \<or> ma_type m = TypeInt64 \<or> ma_type m = TypeFloat64"
  "min_i64 (core_add v m) = (if ma_type m = TypeInt64 then (if have_min_max m then i64_min (min_i64 m) (vi64 v) else vi64 v) else min_i64 m)"
  "max_i64 (core_add v m) = (if ma_type m = TypeInt64 then (if have_min_max m then i64_max (max_i64 m) (vi64 v) else vi64 v) else max_i64 m)"
  "min_f64 (core_add v m) = (if ma_type m = TypeFloat64 then (if have_min_max m then math_min (min_f64 m) (vf64 v) else vf64 v) else min_f64 m)"
  "max_f64 (core_add v m) = (if ma_type m = TypeFloat64 then (if have_min_max m then math_max (max_f64 m) (vf64 v) else vf64 v) else max_f64 m)"
  by (auto simp: core_add_def add_numeric_def Let_def i64_min_def i64_max_def split: column_type.splits)

lemma core_merge_fields:
  "ma_type (core_merge a b) = ma_type a"
  "sum_i64 (core_merge a b) = (if ma_type a = TypeInt64 then sum_i64 a + sum_i64 b else 0)"
  "have_min_max (core_merge a b) \<longleftrightarrow> have_min_max a \<or> have_min_max b"
  "min_i64 (core_merge a b) =
     (if have_min_max a \<and> have_min_max b then (if ma_type a = TypeInt64 then i64_min (min_i64 a) (min_i64 b) else 0)
      else if have_min_max a then min_i64 a else if have_min_max b then min_i64 b else 0)"
  "max_i64 (core_merge a b) =
     (if have_min_max a \<and> have_min_max b then (if ma_type a = TypeInt64 then i64_max (max_i64 a) (max_i64 b) else 0)
      else if have_min_max a then max_i64 a else if have_min_max b then max_i64 b else 0)"
  "min_f64 (core_merge a b) =
     (if have_min_max a \<and> have_min_max b then (if ma_type a = TypeFloat64 then math_min (min_f64 a) (min_f64 b) else f64_zero)
      else if have_min_max a then min_f64 a else if have_min_max b then min_f64 b else f64_zero)"
  "max_f64 (core_merge a b) =
     (if have_min_max a \<and> have_min_max b then (if ma_type a = TypeFloat64 then math_max (max_f64 a) (max_f64 b) else f64_zero)
      else if have_min_max a then max_f64 a else if have_min_max b then max_f64 b else f64_zero)"
  by (auto simp: core_merge_def merge_numeric_def new_measure_accum_def Let_def split: column_type.splits)

lemma core_idem [simp]:
  "core_of (core_add v m) = core_add v m" "core_of (core_merge a b) = core_merge a b" "core_of (core_new t) = core_new t"
  by (simp_all add: core_add_def core_merge_def) (simp add: core_new_def new_measure_accum_def core_of_def)

lemma core_eqI:
  assumes "core_of a = a" and "core_of b = b" and "ma_type a = ma_type b" and "sum_i64 a = sum_i64 b"
    and "min_i64 a = min_i64 b" and "max_i64 a = max_i64 b" and "min_f64 a = min_f64 b" and "max_f64 a = max_f64 b"
    and "have_min_max a = have_min_max b"
  shows "a = b"
proof -
  have "core_of a = core_of b" using assms(3-) unfolding core_of_def by simp
  then show ?thesis using assms(1,2) by simp
qed

lemma core_new_fields [simp]:
  "ma_type (core_new t) = t" "sum_i64 (core_new t) = 0" "min_i64 (core_new t) = 0" "max_i64 (core_new t) = 0"
  "min_f64 (core_new t) = f64_zero" "max_f64 (core_new t) = f64_zero" "\<not> have_min_max (core_new t)"
  by (simp_all add: core_new_def new_measure_accum_def)

interpretation core: commuting_accumulator "core_new t" core_add core_merge "core_ok t" for t
proof
  show "core_ok t (core_new t)" by (simp add: core_ok_def)
  show "core_ok t (core_add x s)" if "core_ok t s" for x s
    using that by (auto simp: core_ok_def core_add_fields)
  show "core_merge s (core_new t) = s" if "core_ok t s" for s
    by (rule core_eqI) (use that in \<open>auto simp: core_ok_def core_merge_fields\<close>)
  show "core_merge s (core_add x u) = core_add x (core_merge s u)" if "core_ok t s" "core_ok t u" for s u x
    by (rule core_eqI) (use that in \<open>auto simp: core_ok_def core_merge_fields core_add_fields extreme_assoc\<close>)
  show "core_add x (core_add y s) = core_add y (core_add x s)" if "core_ok t s" for s x y
    by (rule core_eqI) (simp_all add: core_add_fields extreme_ac ac_simps)
qed

section \<open>Merging measures\<close>

lemma measure_add_parts [simp]:
  "core_of (measure_add lib v m) = core_add v (core_of m)"
  "distinct_hll (measure_add lib v m) = map_option (hll_add (hash_value v)) (distinct_hll m)"
  "ma_type (measure_add lib v m) = ma_type m"
  "digest (measure_add lib v m) = map_option (tdigest_add lib (if ma_type m = TypeInt64 then f64_of_int (sint (vi64 v)) else vf64 v)) (digest m)"
  by (auto simp: measure_add_def core_add_def add_numeric_def core_of_def Let_def split: column_type.splits)

definition digest_input :: "column_type \<Rightarrow> value_t \<Rightarrow> f64" where
  "digest_input t v = (if t = TypeInt64 then f64_of_int (sint (vi64 v)) else vf64 v)"

lemma measure_fold_parts:
  "core_of (fold (measure_add lib) vs m) = fold core_add vs (core_of m)"
  "distinct_hll (fold (measure_add lib) vs m) = map_option (fold hll_add (map hash_value vs)) (distinct_hll m)"
  "ma_type (fold (measure_add lib) vs m) = ma_type m"
  "digest (fold (measure_add lib) vs m) = map_option (fold (tdigest_add lib) (map (digest_input (ma_type m)) vs)) (digest m)"
  by (induction vs arbitrary: m) (simp_all add: option.map_comp comp_def option.map_id option.map_ident digest_input_def)

lemma new_measure_parts [simp]:
  "core_of (new_measure_accum t w) = core_new t"
  "distinct_hll (new_measure_accum t w) = (if wants_distinct w then Some new_hyper_log_log else None)"
  "ma_type (new_measure_accum t w) = t"
  "digest (new_measure_accum t w) = (if wants_percentile w then Some new_tdigest else None)"
  "sum_f64 (new_measure_accum t w) = f64_zero"
  by (simp_all add: new_measure_accum_def core_new_def core_of_def)

abbreviation measured :: "runtime_lib \<Rightarrow> column_type \<Rightarrow> measure_wants \<Rightarrow> value_t list \<Rightarrow> measure_accum" where
  "measured lib t w vs \<equiv> fold (measure_add lib) vs (new_measure_accum t w)"

lemma core_merge_of: "core_of (merge_numeric a b) = core_merge (core_of a) (core_of b)"
  by (rule core_eqI)
    (auto simp: core_merge_def merge_numeric_def new_measure_accum_def Let_def split: column_type.splits)

lemma merge_numeric_sum:
  "sum_f64 (merge_numeric a b) = (if ma_type a = TypeFloat64 then f64_add (sum_f64 a) (sum_f64 b) else f64_zero)"
  by (auto simp: merge_numeric_def new_measure_accum_def Let_def split: column_type.splits)

lemma sum_f64_other: "ma_type m \<noteq> TypeFloat64 \<Longrightarrow> sum_f64 (fold (measure_add lib) vs m) = sum_f64 m"
  by (induction vs arbitrary: m)
    (auto simp: measure_add_def add_numeric_def Let_def split: column_type.splits)

lemma sum_f64_float:
  "ma_type m = TypeFloat64 \<Longrightarrow> sum_f64 (fold (measure_add lib) vs m) = fold (\<lambda>v s. f64_add s (vf64 v)) vs (sum_f64 m)"
  by (induction vs arbitrary: m) (auto simp: measure_add_def add_numeric_def Let_def)

lemma measure_eqI:
  "core_of a = core_of b \<Longrightarrow> sum_f64 a = sum_f64 b \<Longrightarrow> distinct_hll a = distinct_hll b \<Longrightarrow> digest a = digest b \<Longrightarrow> a = b"
  by (cases a; cases b) (simp add: core_of_def)

lemma hll_ok_measured: "distinct_hll (measured lib t w vs) = Some h \<Longrightarrow> hll_ok h"
  by (auto simp: measure_fold_parts hll.ok_fold split: if_splits)

lemma measure_merge_parts:
  "\<exists>m. merge_measure_accum lib (measured lib t w xs) (measured lib t w ys) = Some m
     \<and> core_of m = core_of (measured lib t w (xs @ ys))
     \<and> distinct_hll m = distinct_hll (measured lib t w (xs @ ys))
     \<and> digest m = (if wants_percentile w
          then Some (fst (tdigest_merge lib (the (digest (measured lib t w xs))) (the (digest (measured lib t w ys))))) else None)
     \<and> sum_f64 m = (if t = TypeFloat64 then f64_add (sum_f64 (measured lib t w xs)) (sum_f64 (measured lib t w ys)) else f64_zero)"
proof -
  define a b where "a = measured lib t w xs" and "b = measured lib t w ys"
  have h: "merge_distinct (distinct_hll a) (distinct_hll b) = Some (distinct_hll (measured lib t w (xs @ ys)))"
    using hll.merge_folds [of "map hash_value xs" "map hash_value ys"]
      hll.ok_fold [OF hll_new_ok, of "map hash_value xs"] hll.ok_fold [OF hll_new_ok, of "map hash_value ys"]
    by (simp add: measure_fold_parts merge_distinct_def hll_ok_def a_def b_def)
  have d: "merge_digest lib (digest a) (digest b)
      = Some (if wants_percentile w then Some (fst (tdigest_merge lib (the (digest a)) (the (digest b)))) else None)"
    by (simp add: merge_digest_def measure_fold_parts a_def b_def)
  have c: "core_of (merge_numeric a b) = core_of (measured lib t w (xs @ ys))"
    by (simp add: core_merge_of measure_fold_parts core.merge_folds a_def b_def del: fold_append)
  have t: "ma_type a = t" by (simp add: a_def measure_fold_parts)
  have upd: "core_of (m\<lparr>distinct_hll := x, digest := y\<rparr>) = core_of m" for m x y by (simp add: core_of_def)
  show ?thesis
    unfolding a_def [symmetric] b_def [symmetric]
    using h d c by (simp add: merge_measure_accum_def Let_def merge_numeric_sum t upd)
qed

definition numbers :: "column_type \<Rightarrow> value_t list \<Rightarrow> f64 list" where
  "numbers t vs = filter (\<lambda>v. \<not> is_nan v) (map (digest_input t) vs)"

lemma numbers_append: "numbers t (xs @ ys) = numbers t xs @ numbers t ys"
  by (simp add: numbers_def)

lemma measured_digest:
  "digest (measured lib t w vs)
     = (if wants_percentile w then Some (fold (tdigest_add lib) (map (digest_input t) vs) new_tdigest) else None)"
  by (simp add: measure_fold_parts)

lemma measured_extremes:
  "td_extremes (fold (tdigest_add lib) (map (digest_input t) vs) new_tdigest) = fold ext_add (numbers t vs) ext_init"
  unfolding tdigest_fold_extremes numbers_def by (simp add: td_extremes_def new_tdigest_def ext_init_def)

text \<open>
  C34. Merging the accumulators of two inputs gives the accumulator of both inputs together: the count of
  wrapped int64 sums, minima, maxima, the distinct sketch and the digest's extremes are identical bit for
  bit for every column type; and unless the measure is a float sum or a percentile the accumulators are
  equal in every field.
\<close>

theorem measure_merge_exact:
  "\<exists>m. merge_measure_accum lib (measured lib t w xs) (measured lib t w ys) = Some m
     \<and> core_of m = core_of (measured lib t w (xs @ ys))
     \<and> distinct_hll m = distinct_hll (measured lib t w (xs @ ys))
     \<and> map_option td_extremes (digest m) = map_option td_extremes (digest (measured lib t w (xs @ ys)))
     \<and> (t = TypeFloat64 \<or> wants_percentile w \<or> m = measured lib t w (xs @ ys))"
proof -
  from measure_merge_parts obtain m where m:
      "merge_measure_accum lib (measured lib t w xs) (measured lib t w ys) = Some m"
      "core_of m = core_of (measured lib t w (xs @ ys))" "distinct_hll m = distinct_hll (measured lib t w (xs @ ys))"
      "digest m = (if wants_percentile w
          then Some (fst (tdigest_merge lib (the (digest (measured lib t w xs))) (the (digest (measured lib t w ys))))) else None)"
      "sum_f64 m = (if t = TypeFloat64 then f64_add (sum_f64 (measured lib t w xs)) (sum_f64 (measured lib t w ys)) else f64_zero)"
    by blast
  have "map_option td_extremes (digest m) = map_option td_extremes (digest (measured lib t w (xs @ ys)))"
  proof (cases "wants_percentile w")
    case False
    then show ?thesis by (simp add: m(4) measured_digest del: fold_append)
  next
    case True
    then show ?thesis
      using ext.merge_folds [of "numbers t xs" "numbers t ys"]
      by (simp add: m(4) measured_digest tdigest_merge_extremes measured_extremes numbers_append del: fold_append map_append)
  qed
  moreover have "m = measured lib t w (xs @ ys)" if "t \<noteq> TypeFloat64" "\<not> wants_percentile w"
  proof (rule measure_eqI)
    show "sum_f64 m = sum_f64 (measured lib t w (xs @ ys))"
      using m(5) that(1) sum_f64_other [of "new_measure_accum t w" lib "xs @ ys"] by simp
    show "digest m = digest (measured lib t w (xs @ ys))"
      using m(4) that(2) by (simp add: measured_digest del: fold_append)
  qed (rule m(2), rule m(3))
  ultimately show ?thesis using m by blast
qed

text \<open>
  Order does not matter for the exact part and the sketch: rows may arrive in any order, on any
  number of workers.
\<close>

theorem measure_order_independent:
  assumes "mset xs = mset ys"
  shows "core_of (measured lib t w xs) = core_of (measured lib t w ys)
     \<and> distinct_hll (measured lib t w xs) = distinct_hll (measured lib t w ys)"
proof -
  have "fold core_add xs (core_new t) = fold core_add ys (core_new t)"
    by (rule core.fold_perm [of t, OF _ assms]) (rule core.ok_init)
  moreover have "fold hll_add (map hash_value xs) new_hyper_log_log = fold hll_add (map hash_value ys) new_hyper_log_log"
    by (rule hll.fold_perm) (simp_all add: assms)
  ultimately show ?thesis by (simp add: measure_fold_parts)
qed

definition sample_wants :: measure_wants where
  "sample_wants = \<lparr>wants_distinct = True, wants_percentile = True\<rparr>"

theorem measure_order_independent_witness:
  "core_of (measured sample_lib TypeInt64 sample_wants [int64_value 1, int64_value 2]) = core_of (measured sample_lib TypeInt64 sample_wants [int64_value 2, int64_value 1])"
  using measure_order_independent [of "[int64_value 1, int64_value 2]" "[int64_value 2, int64_value 1]" sample_lib TypeInt64 sample_wants]
  by (simp add: add_mset_commute del: fold_simps)

lemma core_int64:
  "core_ok TypeInt64 m \<Longrightarrow> have_min_max m \<Longrightarrow>
     sum_i64 (fold core_add vs m) = sum_i64 m + sum_list (map vi64 vs)
     \<and> sint (min_i64 (fold core_add vs m)) = Min (insert (sint (min_i64 m)) (sint ` vi64 ` set vs))
     \<and> sint (max_i64 (fold core_add vs m)) = Max (insert (sint (max_i64 m)) (sint ` vi64 ` set vs))"
proof (induction vs arbitrary: m)
  case Nil
  then show ?case by simp
next
  case (Cons v vs)
  have ins: "Min (insert (min x y) (A :: int set)) = Min (insert x (insert y A))"
      "Max (insert (max x y) A) = Max (insert x (insert y A))" if "finite A" for x y A
    using that by (cases "A = {}"; simp add: min.assoc max.assoc)+
  have "have_min_max (core_add v m)" "ma_type m = TypeInt64" using Cons.prems by (simp_all add: core_add_fields core_ok_def)
  then show ?case
    using Cons.IH [OF core.ok_add [OF Cons.prems(1)]] Cons.prems(2)
    by (simp add: core_add_fields sint_i64_min ins ac_simps)
qed

text \<open>
  What an int64 measure holds after any rows: their sum modulo \<open>2^64\<close>, which is the true sum when
  that fits 64 bits, and their smallest and largest value in the signed order.
\<close>

theorem measure_int64_correct:
  assumes "vs \<noteq> []"
  shows "sum_i64 (measured lib TypeInt64 w vs) = of_int (\<Sum>v\<leftarrow>vs. sint (vi64 v))
     \<and> sint (min_i64 (measured lib TypeInt64 w vs)) = Min (sint ` vi64 ` set vs)
     \<and> sint (max_i64 (measured lib TypeInt64 w vs)) = Max (sint ` vi64 ` set vs)"
proof -
  obtain u us where vs: "vs = u # us" using assms by (cases vs) auto
  define m where "m = core_add u (core_new TypeInt64)"
  have m: "core_ok TypeInt64 m" "have_min_max m" "sum_i64 m = vi64 u" "min_i64 m = vi64 u" "max_i64 m = vi64 u"
    using core.ok_add [OF core.ok_init] by (simp_all add: m_def core_add_fields)
  define x where "x = core_of (measured lib TypeInt64 w vs)"
  have x: "x = fold core_add us m" by (simp add: x_def measure_fold_parts vs m_def)
  have f: "sum_i64 (measured lib TypeInt64 w vs) = sum_i64 x" "min_i64 (measured lib TypeInt64 w vs) = min_i64 x"
      "max_i64 (measured lib TypeInt64 w vs) = max_i64 x"
    by (simp_all add: x_def)
  have "sum_list (map vi64 vs) = of_int (\<Sum>v\<leftarrow>vs. sint (vi64 v))" by (induction vs) simp_all
  with core_int64 [OF m(1,2), of us] m(3-5) show ?thesis
    unfolding f unfolding x by (simp add: vs)
qed

theorem measure_int64_correct_witness:
  "sint (min_i64 (measured sample_lib TypeInt64 sample_wants [int64_value 5, int64_value (- 3)])) = - 3"
  using measure_int64_correct [of "[int64_value 5, int64_value (- 3)]" sample_lib sample_wants] by (simp del: fold_simps)

section \<open>Float sums\<close>

definition float_sum :: "f64 list \<Rightarrow> f64" where
  "float_sum xs = fold (\<lambda>x s. f64_add s x) xs f64_zero"

lemma measured_float_sum: "sum_f64 (measured lib TypeFloat64 w vs) = float_sum (map vf64 vs)"
  by (simp add: sum_f64_float float_sum_def fold_map comp_def)

lemma f64_of_int_0: "f64_of_int 0 = f64_zero"
  by (simp add: f64_of_int_def f64_of_ratio_def round_mag_small mk_f64_def f64_zero_def)

lemma float_sum_ints:
  "(\<Sum>n\<leftarrow>ns. \<bar>n\<bar>) < exact_bound \<Longrightarrow> float_sum (map f64_of_int ns) = f64_of_int (sum_list ns)"
proof -
  have "\<bar>k\<bar> + (\<Sum>n\<leftarrow>ns. \<bar>n\<bar>) < exact_bound \<Longrightarrow>
      fold (\<lambda>x s. f64_add s x) (map f64_of_int ns) (f64_of_int k) = f64_of_int (k + sum_list ns)" for k
  proof (induction ns arbitrary: k)
    case Nil
    then show ?case by simp
  next
    case (Cons n ns)
    have nn: "0 \<le> (\<Sum>n\<leftarrow>ns. \<bar>n\<bar>)" by (rule sum_list_nonneg) auto
    then have "f64_add (f64_of_int k) (f64_of_int n) = f64_of_int (k + n)"
      using Cons.prems by (intro exact_add) auto
    moreover have "\<bar>k + n\<bar> + (\<Sum>n\<leftarrow>ns. \<bar>n\<bar>) < exact_bound" using Cons.prems abs_triangle_ineq [of k n] by simp
    ultimately show ?case using Cons.IH [of "k + n"] by (simp add: add.assoc)
  qed
  from this [of 0] show "(\<Sum>n\<leftarrow>ns. \<bar>n\<bar>) < exact_bound \<Longrightarrow> ?thesis"
    by (simp add: float_sum_def f64_of_int_0)
qed

text \<open>
  A float64 measure over integer values of total magnitude below \<open>2^53\<close> is exact, so for such data
  merged sums also equal the sequential sum.
\<close>

theorem measure_float_integers:
  assumes "map vf64 xs = map f64_of_int ms" and "map vf64 ys = map f64_of_int ns"
    and "(\<Sum>n\<leftarrow>ms @ ns. \<bar>n\<bar>) < 2 ^ 53"
  shows "sum_f64 (measured lib TypeFloat64 w (xs @ ys)) = f64_of_int (sum_list (ms @ ns))
     \<and> map_option sum_f64 (merge_measure_accum lib (measured lib TypeFloat64 w xs) (measured lib TypeFloat64 w ys))
       = Some (f64_of_int (sum_list (ms @ ns)))"
proof -
  have nn: "0 \<le> (\<Sum>n\<leftarrow>ms. \<bar>n\<bar>)" "0 \<le> (\<Sum>n\<leftarrow>ns. \<bar>n\<bar>)" by (rule sum_list_nonneg, auto)+
  have lt: "(\<Sum>n\<leftarrow>ms. \<bar>n\<bar>) < exact_bound" "(\<Sum>n\<leftarrow>ns. \<bar>n\<bar>) < exact_bound" "(\<Sum>n\<leftarrow>ms @ ns. \<bar>n\<bar>) < exact_bound"
    using assms(3) nn by (simp_all add: exact_bound_def)
  have abs: "\<bar>sum_list ks\<bar> \<le> (\<Sum>n\<leftarrow>ks. \<bar>n\<bar>)" for ks :: "int list"
    by (induction ks) auto
  have "f64_add (float_sum (map vf64 xs)) (float_sum (map vf64 ys)) = f64_of_int (sum_list ms + sum_list ns)"
    using lt abs [of ms] abs [of ns] by (simp add: assms(1,2) float_sum_ints exact_add)
  moreover have "float_sum (map vf64 (xs @ ys)) = f64_of_int (sum_list (ms @ ns))"
    using float_sum_ints [OF lt(3)] by (simp add: assms(1,2))
  moreover obtain m where "merge_measure_accum lib (measured lib TypeFloat64 w xs) (measured lib TypeFloat64 w ys) = Some m"
      "sum_f64 m = f64_add (sum_f64 (measured lib TypeFloat64 w xs)) (sum_f64 (measured lib TypeFloat64 w ys))"
    using measure_merge_parts [where t = TypeFloat64 and lib = lib and w = w and xs = xs and ys = ys] by auto
  ultimately show ?thesis
    by (simp add: measured_float_sum del: fold_append)
qed

theorem measure_float_integers_witness:
  "sum_f64 (measured sample_lib TypeFloat64 sample_wants ([float64_value (f64_of_int 1)] @ [float64_value (f64_of_int 2)])) = f64_of_int 3"
  using measure_float_integers [of "[float64_value (f64_of_int 1)]" "[1]" "[float64_value (f64_of_int 2)]" "[2]" sample_lib sample_wants]
  by (simp del: fold_simps)

lemma f64_add_at_bound: "f64_add (f64_of_int exact_bound) (f64_of_int 1) = f64_of_int exact_bound"
proof -
  define B :: int where "B = 2 ^ 52"
  have B: "exact_bound * f64_unit = B * 2 ^ 1075" "(2 :: int) ^ 52 \<le> B" "B < 2 ^ 53"
    unfolding exact_bound_def B_def f64_unit_def by (simp_all only: power_add [symmetric]) simp_all
  have mag: "int 1075 * 2 ^ 52 + B < inf_mag" by (simp add: B_def inf_mag_def)
  have r: "round_mag (exact_bound * f64_unit) 1 = int 1075 * 2 ^ 52 + B"
    unfolding B(1) by (rule round_mag_dyadic [OF B(2,3)]) (use mag in simp)
  have m: "f64_mag (f64_of_int exact_bound) = int 1075 * 2 ^ 52 + B"
    using r by (simp add: f64_mag_of_int exact_bound_def)
  have sc: "f64_scaled (f64_of_int exact_bound) = exact_bound * f64_unit"
    unfolding f64_scaled_def m scaled_mag_dyadic [OF B(2,3)] B(1) by (simp add: exact_bound_def)
  have fin: "\<not> is_nan (f64_of_int exact_bound)" "\<not> is_inf (f64_of_int exact_bound)"
    using m mag by (simp_all add: is_nan_def is_inf_def)
  have one: "f64_scaled (f64_of_int 1) = f64_unit" "\<not> is_nan (f64_of_int 1)" "\<not> is_inf (f64_of_int 1)"
    using f64_scaled_of_int [of 1] by (simp_all add: is_nan_def is_inf_def)
  define n where "n = exact_bound * f64_unit + f64_unit"
  have pos: "0 < n" by (simp add: n_def exact_bound_def add_pos_pos)
  have half: "f64_unit * 2 = 2 ^ 1075" unfolding f64_unit_def by (simp only: power_Suc2 [symmetric]) simp
  have "2 ^ 1127 \<le> n \<and> n < 2 ^ Suc 1127"
  proof -
    have "B * 2 ^ 1075 = (2 :: int) ^ 1127" unfolding B_def by (simp only: power_add [symmetric]) simp
    moreover have "f64_unit < (2 :: int) ^ 1127" unfolding f64_unit_def by (rule power_strict_increasing) simp_all
    ultimately show ?thesis unfolding n_def B(1) power_Suc using f64_unit_pos(1) by linarith
  qed
  then have bl: "bit_length n = 1128" using bit_length_eqI [of 1127 n] by simp
  have n: "n = f64_unit + B * 2 ^ 1075" by (simp add: n_def B(1))
  have "f64_unit < 2 ^ 1075" using half f64_unit_pos(1) by linarith
  then have dm: "n div 2 ^ 1075 = B" "n mod 2 ^ 1075 = f64_unit"
    unfolding n by (simp_all only: div_mult_self1 mod_mult_self1) (simp_all add: div_pos_pos_trivial)
  have "even B" by (simp add: B_def)
  then have "round_mag n 1 = int 1075 * 2 ^ 52 + B"
    unfolding round_mag_def Let_def div_by_1 bl using dm half mag by (simp add: mult.commute)
  moreover have "f64_of_int exact_bound = mk_f64 False (round_mag (exact_bound * f64_unit) 1)"
    unfolding f64_of_int_def f64_of_ratio_def by (simp add: exact_bound_def)
  ultimately have "mk_f64 False (round_mag n 1) = f64_of_int exact_bound" using r by simp
  then show ?thesis
    using fin one(2,3) pos unfolding f64_add_def Let_def sc one(1) n_def [symmetric] f64_of_ratio_def by simp
qed

lemma f64_of_int_above: "f64_of_int (exact_bound + 2) \<noteq> f64_of_int exact_bound"
proof -
  define B :: int where "B = 2 ^ 52"
  have eq: "exact_bound * f64_unit = B * 2 ^ 1075" "(exact_bound + 2) * f64_unit = (B + 1) * 2 ^ 1075"
  proof -
    have u: "2 * f64_unit = 2 ^ 1075" unfolding f64_unit_def by (simp only: power_Suc [symmetric]) simp
    have x: "exact_bound = B * 2" by (simp add: exact_bound_def B_def)
    show "exact_bound * f64_unit = B * 2 ^ 1075" unfolding x u [symmetric] by simp
    show "(exact_bound + 2) * f64_unit = (B + 1) * 2 ^ 1075" unfolding x u [symmetric] by (simp add: algebra_simps)
  qed
  have B: "2 ^ 52 \<le> B" "B < 2 ^ 53" "2 ^ 52 \<le> B + 1" "B + 1 < 2 ^ 53" by (simp_all add: B_def)
  have mag: "int 1075 * 2 ^ 52 + (B + 1) \<le> inf_mag" by (simp add: B_def inf_mag_def)
  have "round_mag (exact_bound * f64_unit) 1 = int 1075 * 2 ^ 52 + B"
    unfolding eq(1) using mag by (intro round_mag_dyadic B) simp
  moreover have "round_mag ((exact_bound + 2) * f64_unit) 1 = int 1075 * 2 ^ 52 + (B + 1)"
    unfolding eq(2) by (rule round_mag_dyadic [OF B(3,4) mag])
  moreover have "\<bar>exact_bound\<bar> = exact_bound" "\<bar>exact_bound + 2\<bar> = exact_bound + 2" by (simp_all add: exact_bound_def)
  ultimately have "f64_mag (f64_of_int exact_bound) \<noteq> f64_mag (f64_of_int (exact_bound + 2))"
    by (simp only: f64_mag_of_int)
  then show ?thesis by auto
qed

text \<open>
  Beyond that range a merged float sum can differ from the sum over one accumulator: merging
  \<open>2^53 - 1\<close> with \<open>1, 1, 1\<close> gives \<open>2^53 + 2\<close>, adding the same four values one by one gives \<open>2^53\<close>.
\<close>

theorem measure_float_rounding:
  assumes "map vf64 xs = [f64_of_int (2 ^ 53 - 1)]" and "map vf64 ys = [f64_of_int 1, f64_of_int 1, f64_of_int 1]"
  shows "map_option sum_f64 (merge_measure_accum lib (measured lib TypeFloat64 w xs) (measured lib TypeFloat64 w ys))
      \<noteq> Some (sum_f64 (measured lib TypeFloat64 w (xs @ ys)))"
proof -
  have "float_sum [f64_of_int 1, f64_of_int 1, f64_of_int 1] = f64_of_int 3"
    using float_sum_ints [of "[1, 1, 1]"] by (simp add: exact_bound_def)
  moreover have "float_sum [f64_of_int (exact_bound - 1)] = f64_of_int (exact_bound - 1)"
    using float_sum_ints [of "[exact_bound - 1]"] by (simp add: exact_bound_def)
  ultimately have merged: "f64_add (float_sum (map vf64 xs)) (float_sum (map vf64 ys)) = f64_of_int (exact_bound + 2)"
    using exact_add [of "exact_bound - 1" 3] assms by (simp add: exact_bound_def)
  have "float_sum [f64_of_int (exact_bound - 1), f64_of_int 1] = f64_of_int exact_bound"
    using exact_add [of "exact_bound - 1" 1] exact_add [of 0 "exact_bound - 1"]
    by (simp add: float_sum_def exact_bound_def flip: f64_of_int_0)
  then have single: "float_sum (map vf64 (xs @ ys)) = f64_of_int exact_bound"
    using f64_add_at_bound assms by (simp add: float_sum_def exact_bound_def)
  obtain m where "merge_measure_accum lib (measured lib TypeFloat64 w xs) (measured lib TypeFloat64 w ys) = Some m"
      "sum_f64 m = f64_add (sum_f64 (measured lib TypeFloat64 w xs)) (sum_f64 (measured lib TypeFloat64 w ys))"
    using measure_merge_parts [where t = TypeFloat64 and lib = lib and w = w and xs = xs and ys = ys] by auto
  then show ?thesis
    using merged single f64_of_int_above by (simp add: measured_float_sum del: fold_append map_append)
qed

theorem measure_float_rounding_witness:
  "map_option sum_f64 (merge_measure_accum sample_lib
       (measured sample_lib TypeFloat64 sample_wants [float64_value (f64_of_int (2 ^ 53 - 1))])
       (measured sample_lib TypeFloat64 sample_wants (replicate 3 (float64_value (f64_of_int 1)))))
     \<noteq> Some (sum_f64 (measured sample_lib TypeFloat64 sample_wants
         ([float64_value (f64_of_int (2 ^ 53 - 1))] @ replicate 3 (float64_value (f64_of_int 1)))))"
  by (rule measure_float_rounding) (simp_all add: numeral_3_eq_3)

text \<open>
  The running minimum is not poisoned by a NaN once negative infinity is seen: \<open>math.Min\<close> gives
  negative infinity precedence, in either order; likewise the maximum with positive infinity.
\<close>

theorem extremes_nan_infinity:
  "min_f64 (measured lib TypeFloat64 w [float64_value f64_nan, float64_value (f64_inf True)]) = f64_inf True
   \<and> max_f64 (measured lib TypeFloat64 w [float64_value (f64_inf False), float64_value f64_nan]) = f64_inf False"
proof -
  have "math_min f64_nan (f64_inf True) = f64_inf True" "math_max (f64_inf False) f64_nan = f64_inf False"
    by (simp_all add: math_min_def math_max_def)
  then have "min_f64 (fold core_add [float64_value f64_nan, float64_value (f64_inf True)] (core_new TypeFloat64)) = f64_inf True"
      "max_f64 (fold core_add [float64_value (f64_inf False), float64_value f64_nan] (core_new TypeFloat64)) = f64_inf False"
    by (simp_all add: core_add_fields)
  moreover have "min_f64 m = min_f64 (core_of m)" "max_f64 m = max_f64 (core_of m)" for m by simp_all
  ultimately show ?thesis
    by (metis measure_fold_parts(1) new_measure_parts(1))
qed

end
