(* ===== verification/FloatOrder.thy ===== *)
theory FloatOrder
  imports Float64
begin

text \<open>
  The order and the error of \<open>float64\<close> arithmetic: rounding is monotone and moves a value by less than one unit
  in its last place, so sums, products by a positive factor and quotients by a positive divisor are monotone too.
\<close>

section \<open>Rounding is monotone\<close>

text \<open>The quotient rounded to nearest, ties to even, that \<open>round_mag\<close> scales.\<close>

definition near_quotient :: "int \<Rightarrow> int \<Rightarrow> int" where
  "near_quotient n d = (if d < 2 * (n mod d) \<or> (2 * (n mod d) = d \<and> odd (n div d)) then n div d + 1 else n div d)"

definition binade :: "int \<Rightarrow> int \<Rightarrow> nat" where
  "binade n d = bit_length (n div d) - 53"

lemma round_mag_near: "round_mag n d = min inf_mag (int (binade n d) * 2 ^ 52 + near_quotient n (d * 2 ^ binade n d))"
  by (simp add: round_mag_def near_quotient_def binade_def Let_def)

lemma near_quotient_bounds: "n div d \<le> near_quotient n d" "near_quotient n d \<le> n div d + 1"
  by (simp_all add: near_quotient_def)

lemma near_quotient_mono:
  assumes "n \<le> m" and "0 < d"
  shows "near_quotient n d \<le> near_quotient m d"
proof -
  have "n div d \<le> m div d" using assms by (simp add: zdiv_mono1)
  then consider "n div d < m div d" | "n div d = m div d" by linarith
  then show ?thesis
  proof cases
    case 1
    then show ?thesis using near_quotient_bounds(2) [of n d] near_quotient_bounds(1) [of m d] by linarith
  next
    case 2
    then have "n mod d \<le> m mod d" using div_mult_mod_eq [of n d] div_mult_mod_eq [of m d] assms(1) by (metis add_le_cancel_left)
    with 2 show ?thesis by (auto simp: near_quotient_def)
  qed
qed

lemma near_quotient_scale: "0 < k \<Longrightarrow> near_quotient (n * k) (d * k) = near_quotient n d"
proof -
  assume k: "0 < k"
  have "(d * k < 2 * (n mod d * k)) = (d < 2 * (n mod d))"
    using mult_less_cancel_right_pos [OF k, of d "2 * (n mod d)"] by (simp add: mult.assoc)
  moreover have "(2 * (n mod d * k) = d * k) = (2 * (n mod d) = d)"
    using mult_cancel_right [of "2 * (n mod d)" k d] k by (simp add: mult.assoc)
  ultimately show ?thesis using k by (simp add: near_quotient_def flip: mult_mod_left)
qed

lemma int_div_less: "0 < b \<Longrightarrow> (a :: int) < c * b \<Longrightarrow> a div b < c"
  by (rule ccontr) (use mult_right_mono [of c "a div b" b] div_mult_mod_eq [of a b] pos_mod_sign [of b a] in linarith)

lemma bit_length_mono: "n \<le> m \<Longrightarrow> bit_length n \<le> bit_length m"
  using bit_length_upper [of m] by (simp add: bit_length_le_iff)

lemma binade_mono: "n \<le> m \<Longrightarrow> 0 < d \<Longrightarrow> binade n d \<le> binade m d"
  unfolding binade_def by (intro diff_le_mono bit_length_mono zdiv_mono1) simp_all

text \<open>The significand before rounding has at most 53 bits, and exactly 53 outside the lowest binade.\<close>

lemma significand_range:
  assumes "0 < d"
  shows "n div (d * 2 ^ binade n d) < 2 ^ 53" and "0 < binade n d \<Longrightarrow> 2 ^ 52 \<le> n div (d * 2 ^ binade n d)"
proof -
  define e where "e = binade n d"
  have q: "n div (d * 2 ^ e) = n div d div 2 ^ e" using assms by (simp add: zdiv_zmult2_eq)
  have "n div d < 2 ^ bit_length (n div d)" by (rule bit_length_upper)
  also have "\<dots> \<le> 2 ^ (53 + e)" by (rule power_increasing) (simp_all add: e_def binade_def)
  finally have "n div d < 2 ^ 53 * 2 ^ e" by (simp only: power_add)
  then have "n div d div 2 ^ e < 2 ^ 53" by (rule int_div_less [rotated]) simp
  then show "n div (d * 2 ^ binade n d) < 2 ^ 53" using q by (simp only: e_def)
  assume "0 < binade n d"
  then have b: "bit_length (n div d) = 53 + e" by (simp add: e_def binade_def)
  then have "0 < n div d" by (cases "0 < n div d") simp_all
  then have "2 ^ (52 + e) \<le> n div d" using bit_length_lower [of "n div d"] b by simp
  then have "2 ^ 52 * 2 ^ e \<le> n div d" by (simp only: power_add)
  then have "2 ^ 52 \<le> n div d div 2 ^ e" using zdiv_mono1 [of "2 ^ 52 * 2 ^ e" "n div d" "2 ^ e"] by simp
  then show "2 ^ 52 \<le> n div (d * 2 ^ binade n d)" using q by (simp only: e_def)
qed

lemma round_mag_scale: "0 < k \<Longrightarrow> round_mag (n * k) (d * k) = round_mag n d"
proof -
  assume k: "0 < k"
  have e: "binade (n * k) (d * k) = binade n d" using k by (simp add: binade_def)
  have "d * k * 2 ^ binade n d = d * 2 ^ binade n d * k" by simp
  then show ?thesis using near_quotient_scale [OF k, of n "d * 2 ^ binade n d"] unfolding round_mag_near e by (simp only:)
qed

lemma round_mag_mono_num:
  assumes "n \<le> m" and "0 < d"
  shows "round_mag n d \<le> round_mag m d"
proof -
  define e f where "e = binade n d" and "f = binade m d"
  have "int e * 2 ^ 52 + near_quotient n (d * 2 ^ e) \<le> int f * 2 ^ 52 + near_quotient m (d * 2 ^ f)"
  proof (cases "e = f")
    case True
    then show ?thesis using near_quotient_mono [OF assms(1), of "d * 2 ^ f"] assms(2) by simp
  next
    case False
    then have ef: "e < f" using binade_mono [OF assms] by (simp add: e_def f_def)
    have "near_quotient n (d * 2 ^ e) \<le> 2 ^ 53"
      using near_quotient_bounds(2) [of n "d * 2 ^ e"] significand_range(1) [OF assms(2), of n] unfolding e_def by linarith
    moreover have "2 ^ 52 \<le> near_quotient m (d * 2 ^ f)"
      using near_quotient_bounds(1) [of m "d * 2 ^ f"] significand_range(2) [OF assms(2), of m] ef unfolding f_def by linarith
    moreover have "(int e + 1) * 2 ^ 52 \<le> int f * 2 ^ 52" using ef by (intro mult_right_mono) simp_all
    ultimately show ?thesis by (simp add: distrib_right)
  qed
  then show ?thesis unfolding round_mag_near e_def f_def by linarith
qed

lemma round_mag_mono:
  assumes "0 < d" and "0 < d'" and "n * d' \<le> n' * d"
  shows "round_mag n d \<le> round_mag n' d'"
proof -
  have "round_mag n d = round_mag (n * d') (d * d')" using round_mag_scale [OF assms(2)] by simp
  also have "\<dots> \<le> round_mag (n' * d) (d * d')" using assms by (intro round_mag_mono_num) simp_all
  also have "\<dots> = round_mag n' d'" using round_mag_scale [OF assms(1), of n' d'] by (simp add: mult.commute)
  finally show ?thesis .
qed

section \<open>Magnitudes and their values\<close>

lemma scaled_mag_step: "0 \<le> m \<Longrightarrow> scaled_mag m \<le> scaled_mag (m + 1)"
proof -
  assume m: "0 \<le> m"
  define e f where "e = m div 2 ^ 52" and "f = m mod 2 ^ 52"
  have mf: "m = f + e * 2 ^ 52" "0 \<le> f" "f < 2 ^ 52" "0 \<le> e"
    using m by (simp_all add: e_def f_def pos_imp_zdiv_nonneg_iff)
  have sm: "scaled_mag (f' + e' * 2 ^ 52) = (if e' = 0 then f' else (2 ^ 52 + f') * 2 ^ (nat e' - 1))"
    if "0 \<le> f'" "f' < 2 ^ 52" "0 \<le> e'" for e' f' :: int
    unfolding scaled_mag_def Let_def using that
    by (simp only: div_mult_self1 mod_mult_self1) (simp add: div_pos_pos_trivial mod_pos_pos_trivial nat_eq_iff)
  show ?thesis
  proof (cases "f + 1 < 2 ^ 52")
    case True
    have "m + 1 = (f + 1) + e * 2 ^ 52" using mf(1) by simp
    then show ?thesis unfolding mf(1) using sm [of f e] sm [of "f + 1" e] True mf by (simp add: algebra_simps)
  next
    case False
    then have f: "f = 2 ^ 52 - 1" using mf(3) by simp
    have m1: "m + 1 = 0 + (e + 1) * 2 ^ 52" using mf(1) f by (simp add: algebra_simps)
    have "scaled_mag (m + 1) = 2 ^ 52 * 2 ^ nat e"
      unfolding m1 using sm [of 0 "e + 1"] mf(4) by (simp add: nat_add_distrib)
    moreover have "scaled_mag m \<le> 2 ^ 52 * 2 ^ nat e"
    proof (cases "e = 0")
      case True
      then show ?thesis using sm [of f e] mf f by simp
    next
      case False
      then have "nat e = Suc (nat e - 1)" using mf(4) by simp
      then have "(2 :: int) ^ nat e = 2 * 2 ^ (nat e - 1)" by (metis power_Suc)
      then show ?thesis unfolding mf(1) using sm [of f e] mf f False by simp
    qed
    ultimately show ?thesis by simp
  qed
qed

lemma scaled_mag_mono:
  assumes "0 \<le> m" and "m \<le> n"
  shows "scaled_mag m \<le> scaled_mag n"
proof -
  obtain k where "n = m + int k" using assms(2) zle_iff_zadd by blast
  moreover have "scaled_mag m \<le> scaled_mag (m + int k)"
  proof (induction k)
    case (Suc k)
    have "scaled_mag (m + int k) \<le> scaled_mag (m + int (Suc k))"
      using scaled_mag_step [of "m + int k"] assms(1) by (simp add: ac_simps)
    with Suc show ?case by (rule order_trans)
  qed simp
  ultimately show ?thesis by simp
qed

lemma scaled_mag_le_iff:
  assumes "0 \<le> m" and "m \<le> inf_mag" and "0 \<le> m'" and "m' \<le> inf_mag"
  shows "scaled_mag m \<le> scaled_mag m' \<longleftrightarrow> m \<le> m'"
  using scaled_mag_mono [of m m'] round_mag_mono_num [of "scaled_mag m" "scaled_mag m'" 1] round_mag_scaled [of m] round_mag_scaled [of m'] assms
  by auto

text \<open>The value of what is rounded, unless it overflows, and its distance from the exact one.\<close>

lemma scaled_round:
  assumes "0 \<le> n" and "0 < d" and "round_mag n d < inf_mag"
  shows "scaled_mag (round_mag n d) = near_quotient n (d * 2 ^ binade n d) * 2 ^ binade n d"
proof -
  define e q where "e = binade n d" and "q = near_quotient n (d * 2 ^ e)"
  have r: "round_mag n d = int e * 2 ^ 52 + q" using assms(3) by (simp add: round_mag_near e_def q_def min_def split: if_splits)
  have q: "0 \<le> q" "q \<le> 2 ^ 53" "0 < e \<Longrightarrow> 2 ^ 52 \<le> q"
    using near_quotient_bounds [of n "d * 2 ^ e"] significand_range [OF assms(2), of n] pos_imp_zdiv_nonneg_iff [of "d * 2 ^ e" n] assms(1,2)
    unfolding q_def e_def by (auto simp: mult_pos_pos intro: order_trans)
  consider "q < 2 ^ 52" | "2 ^ 52 \<le> q" "q < 2 ^ 53" | "q = 2 ^ 53" using q by linarith
  then have "scaled_mag (int e * 2 ^ 52 + q) = q * 2 ^ e"
  proof cases
    case 1
    then have "e = 0" using q(3) by linarith
    with 1 q(1) show ?thesis by (simp add: scaled_mag_def Let_def)
  next
    case 2
    then show ?thesis by (rule scaled_mag_dyadic)
  next
    case 3
    have eq: "int e * 2 ^ 52 + q = int (Suc e) * 2 ^ 52 + 2 ^ 52" using 3 by simp
    have "scaled_mag (int (Suc e) * 2 ^ 52 + 2 ^ 52) = 2 ^ 52 * 2 ^ Suc e" by (rule scaled_mag_dyadic) simp_all
    then show ?thesis unfolding eq using 3 by simp
  qed
  then show ?thesis by (simp only: r e_def q_def)
qed

lemma round_error:
  assumes "0 \<le> n" and "0 < d" and "round_mag n d < inf_mag"
  shows "\<bar>scaled_mag (round_mag n d) * d - n\<bar> \<le> d * 2 ^ binade n d"
proof -
  define D where "D = d * 2 ^ binade n d"
  have D: "0 < D" using assms(2) by (simp add: D_def)
  have n: "n = n div D * D + n mod D" by simp
  have m: "0 \<le> n mod D" "n mod D < D" using D by simp_all
  have "near_quotient n D = n div D \<or> near_quotient n D = n div D + 1" by (simp add: near_quotient_def)
  then have "near_quotient n D * D - n = - (n mod D) \<or> near_quotient n D * D - n = D - n mod D"
    using n by (elim disjE) (simp_all only: distrib_right, linarith+)
  then have "\<bar>near_quotient n D * D - n\<bar> \<le> D" using m by auto
  then show ?thesis unfolding scaled_round [OF assms] by (simp add: D_def ac_simps)
qed

text \<open>The value of a rounded sum or product is at most one part in \<open>2^52\<close> away, or below the smallest positive value.\<close>

lemma binade_bound:
  assumes "0 < d" and "n < d * 2 ^ (53 + k)"
  shows "binade n d \<le> k"
proof -
  have "n div d < 2 ^ (53 + k)" using assms by (intro int_div_less) (simp_all add: mult.commute)
  then show ?thesis unfolding binade_def using bit_length_le_iff [of "n div d" "53 + k"] by simp
qed

lemma round_mag_bound:
  assumes "0 < d" and "n div d < 2 ^ 1128"
  shows "round_mag n d < inf_mag"
proof -
  define e where "e = bit_length (n div d) - 53"
  have "bit_length (n div d) \<le> 1128" using assms(2) by (simp only: bit_length_le_iff)
  then have e: "e \<le> 1075" by (simp add: e_def)
  have "n div d < 2 ^ (53 + e)"
  proof -
    have "n div d < 2 ^ bit_length (n div d)" by (rule bit_length_upper)
    also have "\<dots> \<le> 2 ^ (53 + e)" by (rule power_increasing) (simp_all add: e_def)
    finally show ?thesis .
  qed
  then have "n div d div 2 ^ e < 2 ^ 53" using int_div_less [of "2 ^ e" "n div d" "2 ^ 53"] by (simp add: power_add)
  moreover have "n div (d * 2 ^ e) = n div d div 2 ^ e" using assms(1) by (simp add: zdiv_zmult2_eq)
  ultimately have q: "n div (d * 2 ^ e) + 1 \<le> 2 ^ 53" by linarith
  have "int e * 2 ^ 52 + (n div (d * 2 ^ e) + 1) < inf_mag" using e q by (simp add: inf_mag_def)
  then show ?thesis by (simp add: round_mag_def Let_def flip: e_def)
qed

section \<open>The order on values\<close>

definition finite_f64 :: "f64 \<Rightarrow> bool" where
  "finite_f64 x \<longleftrightarrow> f64_mag x < inf_mag"

lemma finite_not [simp]: "finite_f64 x \<Longrightarrow> \<not> is_nan x" "finite_f64 x \<Longrightarrow> \<not> is_inf x"
  by (simp_all add: finite_f64_def is_nan_def is_inf_def)

lemma scaled_mag_0 [simp]: "scaled_mag 0 = 0"
  by (simp add: scaled_mag_def)

lemma key_le_scaled:
  assumes "f64_mag x \<le> inf_mag" and "f64_mag y \<le> inf_mag"
  shows "f64_key x \<le> f64_key y \<longleftrightarrow> f64_scaled x \<le> f64_scaled y"
proof -
  have le: "scaled_mag (f64_mag a) \<le> scaled_mag (f64_mag b) \<longleftrightarrow> f64_mag a \<le> f64_mag b" if "a = x \<or> a = y" "b = x \<or> b = y" for a b
    using scaled_mag_le_iff [of "f64_mag a" "f64_mag b"] that assms f64_mag_range(1) by auto
  have zero: "scaled_mag (f64_mag a) \<le> 0 \<longleftrightarrow> f64_mag a \<le> 0" if "a = x \<or> a = y" for a
    using scaled_mag_le_iff [of "f64_mag a" 0] that assms f64_mag_range(1) by auto
  show ?thesis
    using le zero scaled_mag_nonneg [of "f64_mag x"] scaled_mag_nonneg [of "f64_mag y"] f64_mag_range(1) [of x] f64_mag_range(1) [of y]
    by (cases "f64_sign x"; cases "f64_sign y") (auto simp: f64_key_def f64_scaled_def, (smt (verit))+)
qed

lemma f64_le_scaled: "finite_f64 x \<Longrightarrow> finite_f64 y \<Longrightarrow> f64_le x y \<longleftrightarrow> f64_scaled x \<le> f64_scaled y"
  using key_le_scaled [of x y] by (simp add: f64_le_def finite_f64_def is_nan_def)

section \<open>Operations\<close>

text \<open>The key of a rounded signed value.\<close>

definition round_key :: "int \<Rightarrow> int" where
  "round_key s = (if s < 0 then - round_mag (- s) 1 else round_mag s 1)"

lemma round_key_mono: "s \<le> t \<Longrightarrow> round_key s \<le> round_key t"
proof -
  assume "s \<le> t"
  then show ?thesis
    using round_mag_mono_num [of "- t" "- s" 1] round_mag_mono_num [of s t 1] round_mag_nonneg [of "- s" 1] round_mag_nonneg [of t 1]
    by (auto simp: round_key_def intro: order_trans [of _ 0])
qed

lemma round_key_scaled: "f64_mag x \<le> inf_mag \<Longrightarrow> round_key (f64_scaled x) = f64_key x"
  using scaled_mag_nonneg [of "f64_mag x"] round_mag_scaled [of "f64_mag x"] f64_mag_range(1) [of x]
  by (auto simp: round_key_def f64_scaled_def f64_key_def round_mag_small)

lemma mag_of_ratio: "0 \<le> n \<Longrightarrow> 0 < d \<Longrightarrow> f64_mag (f64_of_ratio neg n d) = round_mag n d"
  and sign_of_ratio: "0 \<le> n \<Longrightarrow> 0 < d \<Longrightarrow> f64_sign (f64_of_ratio neg n d) = neg"
  using round_mag_nonneg [of n d] le_less_trans [OF round_mag_le [of n d] inf_mag_range(3)]
  by (simp_all add: f64_of_ratio_def f64_mk)

lemma add_key:
  assumes "finite_f64 x" and "finite_f64 y"
  shows "f64_key (f64_add x y) = round_key (f64_scaled x + f64_scaled y)" and "f64_mag (f64_add x y) \<le> inf_mag"
  using assms round_mag_le
  by (auto simp: f64_add_def Let_def round_key_def f64_key_def mag_of_ratio sign_of_ratio f64_mk round_mag_small)

lemma scaled_neg: "f64_scaled (f64_neg x) = - f64_scaled x" and finite_neg [simp]: "finite_f64 (f64_neg x) = finite_f64 x"
  using f64_mag_range [of x] by (simp_all add: f64_neg_def f64_scaled_def f64_mk finite_f64_def)

lemma sub_key:
  assumes "finite_f64 x" and "finite_f64 y"
  shows "f64_key (f64_sub x y) = round_key (f64_scaled x - f64_scaled y)" and "f64_mag (f64_sub x y) \<le> inf_mag"
  using add_key [of x "f64_neg y"] assms by (simp_all add: f64_sub_def scaled_neg)

text \<open>A difference that is not larger than some number exactly is not rounded past it.\<close>

lemma sub_le:
  assumes "finite_f64 x" and "finite_f64 y" and "finite_f64 z" and "f64_scaled x - f64_scaled y \<le> f64_scaled z"
  shows "f64_le (f64_sub x y) z"
  using sub_key [OF assms(1,2)] round_key_mono [OF assms(4)] round_key_scaled [of z] assms(3)
  by (simp add: f64_le_def finite_f64_def is_nan_def)

lemma mul_mag:
  assumes "finite_f64 x" and "finite_f64 y"
  shows "f64_mag (f64_mul x y) = round_mag (scaled_mag (f64_mag x) * scaled_mag (f64_mag y)) f64_unit"
    and "f64_sign (f64_mul x y) = (f64_sign x \<noteq> f64_sign y)"
  using assms by (simp_all add: f64_mul_def Let_def mag_of_ratio sign_of_ratio scaled_mag_nonneg)

lemma div_mag:
  assumes "finite_f64 x" and "finite_f64 y" and "\<not> is_zero y"
  shows "f64_mag (f64_div x y) = round_mag (scaled_mag (f64_mag x) * f64_unit) (scaled_mag (f64_mag y))"
    and "f64_sign (f64_div x y) = (f64_sign x \<noteq> f64_sign y)"
proof -
  have "0 < scaled_mag (f64_mag y)"
    using scaled_mag_le_iff [of "f64_mag y" 0] assms(2,3) f64_mag_range(1) [of y] by (auto simp: is_zero_def finite_f64_def)
  then show "f64_mag (f64_div x y) = round_mag (scaled_mag (f64_mag x) * f64_unit) (scaled_mag (f64_mag y))"
    and "f64_sign (f64_div x y) = (f64_sign x \<noteq> f64_sign y)"
    using assms by (simp_all add: f64_div_def Let_def mag_of_ratio sign_of_ratio scaled_mag_nonneg)
qed

text \<open>A product is off by at most \<open>2 ^ k\<close> units if it is below \<open>2 ^ (53 + k)\<close> units.\<close>

lemma mul_error:
  assumes "finite_f64 x" and "finite_f64 y" and "\<bar>f64_scaled x * f64_scaled y\<bar> < f64_unit * 2 ^ (53 + k)" and "k \<le> 1075"
  shows "finite_f64 (f64_mul x y)" and "\<bar>f64_scaled (f64_mul x y) * f64_unit - f64_scaled x * f64_scaled y\<bar> \<le> f64_unit * 2 ^ k"
proof -
  define n where "n = scaled_mag (f64_mag x) * scaled_mag (f64_mag y)"
  have n: "0 \<le> n" by (simp add: n_def scaled_mag_nonneg)
  have xy: "f64_scaled x * f64_scaled y = (if f64_sign x \<noteq> f64_sign y then - n else n)"
    by (auto simp: f64_scaled_def n_def)
  then have lt: "n < f64_unit * 2 ^ (53 + k)" using assms(3) n by (auto split: if_splits)
  have "n div f64_unit < 2 ^ 1128"
  proof -
    have "n div f64_unit < 2 ^ (53 + k)" using lt by (intro int_div_less) (simp_all add: mult.commute)
    also have "\<dots> \<le> 2 ^ 1128" using assms(4) by (intro power_increasing) simp_all
    finally show ?thesis .
  qed
  then have fin: "round_mag n f64_unit < inf_mag" by (intro round_mag_bound) simp_all
  then show "finite_f64 (f64_mul x y)" using mul_mag(1) [OF assms(1,2)] by (simp add: finite_f64_def n_def)
  have "\<bar>scaled_mag (round_mag n f64_unit) * f64_unit - n\<bar> \<le> f64_unit * 2 ^ binade n f64_unit"
    by (rule round_error [OF n _ fin]) simp
  also have "\<dots> \<le> f64_unit * 2 ^ k"
    using binade_bound [OF _ lt] by (intro mult_left_mono power_increasing) simp_all
  finally show "\<bar>f64_scaled (f64_mul x y) * f64_unit - f64_scaled x * f64_scaled y\<bar> \<le> f64_unit * 2 ^ k"
    using mul_mag [OF assms(1,2)] unfolding xy by (auto simp: f64_scaled_def n_def)
qed

end
