(* ===== verification/Keyed.thy ===== *)
theory Keyed
  imports Prelude
begin

text \<open>
  The contract between a keyed table and the loops that fold items into it: every step reads and replaces
  the entry of one key. The client lemmas give the table after a whole loop, key by key, and say that the
  loop neither fails nor runs forever.
\<close>

fun fold_res :: "('r \<Rightarrow> 't \<Rightarrow> 'e + 't) \<Rightarrow> 'r list \<Rightarrow> 't \<Rightarrow> 'e + 't" where
  "fold_res step [] t = Inr t"
| "fold_res step (r # rs) t = (case step r t of Inl e \<Rightarrow> Inl e | Inr t' \<Rightarrow> fold_res step rs t')"

lemma fold_res_append:
  "fold_res step (rs @ qs) t = (case fold_res step rs t of Inl e \<Rightarrow> Inl e | Inr t' \<Rightarrow> fold_res step qs t')"
  by (induction rs arbitrary: t) (auto split: sum.splits)

lemma fold_res_cong: "(\<And>r t. r \<in> set rs \<Longrightarrow> f r t = g r t) \<Longrightarrow> fold_res f rs t = fold_res g rs t"
  by (induction rs arbitrary: t) (auto split: sum.splits)

lemma fold_res_map: "fold_res step (map f rs) t = fold_res (\<lambda>r. step (f r)) rs t"
  by (induction rs arbitrary: t) (auto split: sum.splits)

text \<open>What the items of one key do to its entry.\<close>

definition entry_after :: "('r \<Rightarrow> 'k) \<Rightarrow> ('r \<Rightarrow> 'g option \<Rightarrow> 'g) \<Rightarrow> 'r list \<Rightarrow> 'k \<Rightarrow> 'g option \<Rightarrow> 'g option" where
  "entry_after key upd rs k = fold (\<lambda>r e. Some (upd r e)) (filter (\<lambda>r. key r = k) rs)"

lemma entry_after_Nil [simp]: "entry_after key upd [] k e = e"
  by (simp add: entry_after_def)

lemma entry_after_Cons [simp]:
  "entry_after key upd (r # rs) k e = entry_after key upd rs k (if key r = k then Some (upd r e) else e)"
  by (simp add: entry_after_def)

lemma entry_after_append: "entry_after key upd (rs @ qs) k e = entry_after key upd qs k (entry_after key upd rs k e)"
  by (simp add: entry_after_def)

locale keyed_fold =
  fixes inv :: "'t \<Rightarrow> bool" and abs :: "'t \<Rightarrow> 'k \<Rightarrow> 'g option" and count :: "'t \<Rightarrow> nat" and limit :: nat
    and good :: "'r \<Rightarrow> bool" and step :: "'r \<Rightarrow> 't \<Rightarrow> 'e + 't" and key :: "'r \<Rightarrow> 'k" and upd :: "'r \<Rightarrow> 'g option \<Rightarrow> 'g"
  assumes step_law: "inv t \<Longrightarrow> good r \<Longrightarrow> count t < limit \<Longrightarrow>
      \<exists>t'. step r t = Inr t' \<and> inv t' \<and> abs t' = (abs t)(key r \<mapsto> upd r (abs t (key r))) \<and> count t' \<le> Suc (count t)"
begin

lemma fold_law:
  assumes "inv t" and "\<And>r. r \<in> set rs \<Longrightarrow> good r" and "count t + length rs \<le> limit"
  shows "\<exists>t'. fold_res step rs t = Inr t' \<and> inv t' \<and> count t' \<le> count t + length rs
     \<and> (\<forall>k. abs t' k = entry_after key upd rs k (abs t k))"
  using assms
proof (induction rs arbitrary: t)
  case Nil
  then show ?case by simp
next
  case (Cons r rs)
  from Cons.prems have "good r" "count t < limit" by auto
  from step_law [OF Cons.prems(1) this] obtain t1 where t1: "step r t = Inr t1" "inv t1" "count t1 \<le> Suc (count t)"
      "abs t1 = (abs t)(key r \<mapsto> upd r (abs t (key r)))"
    by blast
  have "count t1 + length rs \<le> limit" using Cons.prems(3) t1(3) by simp
  from Cons.IH [OF t1(2) Cons.prems(2) this] obtain t' where t': "fold_res step rs t1 = Inr t'" "inv t'"
      "count t' \<le> count t1 + length rs" "\<forall>k. abs t' k = entry_after key upd rs k (abs t1 k)"
    by auto
  then show ?case using t1 by (auto simp: t1(4))
qed

lemma fold_keys:
  assumes "inv t" and "\<And>r. r \<in> set rs \<Longrightarrow> good r" and "count t + length rs \<le> limit" and "fold_res step rs t = Inr t'"
  shows "dom (abs t') = dom (abs t) \<union> key ` set rs"
proof -
  have t': "abs t' k = entry_after key upd rs k (abs t k)" for k
    using fold_law [OF assms(1-3)] assms(4) by auto
  have "entry_after key upd rs k e = None \<longleftrightarrow> e = None \<and> k \<notin> key ` set rs" for k e
    by (induction rs arbitrary: e) auto
  then show ?thesis using t' by (auto simp: dom_def)
qed

end

end
