(* ===== verification/GroupTable.thy ===== *)
theory GroupTable
  imports Accumulator Batch FloatFormat FloatOrder Keyed
begin

text \<open>
  \<open>internal/aggregate/grouptable.go\<close>: the open-addressing hash table from group keys to group states.

  The three parallel slices are lists of the same length, the capacity. Slot numbers are \<open>uint64\<close> words
  computed with the mask, as in the code. A probe loop of the code runs until it meets a free slot or a
  match; after as many steps as there are slots it has seen them all, so a loop that has found neither by
  then never ends. The model counts those steps and calls that result \<open>Loops\<close>; the invariant below
  excludes it. \<open>*groupAccum\<close> pointers are slot numbers here.
\<close>

record group_table =
  gt_hashes :: "u64 list"
  gt_slots :: "group_accum option list"
  gt_full :: "bool list"
  gt_size :: nat

definition initial_cap :: nat where
  "initial_cap = 16"

definition empty_slots :: "nat \<Rightarrow> group_table" where
  "empty_slots n = \<lparr>gt_hashes = replicate n 0, gt_slots = replicate n None, gt_full = replicate n False, gt_size = 0\<rparr>"

definition new_group_table :: group_table where
  "new_group_table = empty_slots initial_cap"

text \<open>The constant \<open>0.7\<close> as a \<open>float64\<close>.\<close>

definition max_load_factor :: f64 where
  "max_load_factor = F64 0x3FE6666666666666"

definition table_mask :: "group_table \<Rightarrow> u64" where
  "table_mask t = of_nat (length (gt_slots t)) - 1"

text \<open>The loop \<open>for idx := ...; t.full[idx]; idx = (idx + 1) & mask\<close> with the test of its body.\<close>

fun probe_slots :: "bool list \<Rightarrow> (nat \<Rightarrow> bool) \<Rightarrow> u64 \<Rightarrow> nat \<Rightarrow> u64 \<Rightarrow> (nat \<times> bool) option" where
  "probe_slots full hit m 0 idx = None"
| "probe_slots full hit m (Suc k) idx =
     (if \<not> full ! unat idx then Some (unat idx, False)
      else if hit (unat idx) then Some (unat idx, True)
      else probe_slots full hit m k ((idx + 1) AND m))"

definition probe_table :: "(nat \<Rightarrow> bool) \<Rightarrow> u64 \<Rightarrow> group_table \<Rightarrow> (nat \<times> bool) option" where
  "probe_table hit hash t =
     probe_slots (gt_full t) hit (table_mask t) (length (gt_slots t)) (hash AND table_mask t)"

datatype find_result = Found nat | Absent | Loops

definition find_by :: "(value_t list \<Rightarrow> bool) \<Rightarrow> u64 \<Rightarrow> group_table \<Rightarrow> find_result" where
  "find_by match hash t =
     (case probe_table (\<lambda>i. gt_hashes t ! i = hash \<and> match (ga_key (the (gt_slots t ! i)))) hash t of
        None \<Rightarrow> Loops
      | Some (i, hit) \<Rightarrow> (if hit then Found i else Absent))"

definition find_by_string :: "u64 \<Rightarrow> string \<Rightarrow> group_table \<Rightarrow> find_result" where
  "find_by_string hash s = find_by (\<lambda>key. length key = 1 \<and> vtype (key ! 0) = TypeString \<and> vstr (key ! 0) = s) hash"

definition find_by_i64 :: "u64 \<Rightarrow> i64 \<Rightarrow> group_table \<Rightarrow> find_result" where
  "find_by_i64 hash v = find_by (\<lambda>key. length key = 1 \<and> vtype (key ! 0) = TypeInt64 \<and> vi64 (key ! 0) = v) hash"

definition find_by_f64 :: "u64 \<Rightarrow> f64 \<Rightarrow> group_table \<Rightarrow> find_result" where
  "find_by_f64 hash v =
     find_by (\<lambda>key. length key = 1 \<and> vtype (key ! 0) = TypeFloat64 \<and> f64_bits (vf64 (key ! 0)) = f64_bits v) hash"

fun dims_equal :: "value_t list \<Rightarrow> value_t list \<Rightarrow> bool" where
  "dims_equal [] [] = True"
| "dims_equal (a # as) (b # bs) =
     (vtype a = vtype b
      \<and> (case vtype a of TypeString \<Rightarrow> vstr a = vstr b | TypeInt64 \<Rightarrow> vi64 a = vi64 b
           | TypeFloat64 \<Rightarrow> f64_bits (vf64 a) = f64_bits (vf64 b) | TypeOther _ \<Rightarrow> True)
      \<and> dims_equal as bs)"
| "dims_equal _ _ = False"

definition find_by_dims :: "u64 \<Rightarrow> value_t list \<Rightarrow> group_table \<Rightarrow> find_result" where
  "find_by_dims hash dims = find_by (\<lambda>key. dims_equal key dims) hash"

text \<open>Putting a group into the first free slot of its probe sequence; \<open>None\<close> when there is none.\<close>

definition place :: "u64 \<Rightarrow> group_accum option \<Rightarrow> group_table \<Rightarrow> group_table option" where
  "place hash g t =
     map_option (\<lambda>(i, _). t\<lparr>gt_hashes := (gt_hashes t)[i := hash], gt_slots := (gt_slots t)[i := g],
                            gt_full := (gt_full t)[i := True]\<rparr>)
       (probe_table (\<lambda>_. False) hash t)"

text \<open>The loop of \<open>grow\<close> over the old slots.\<close>

fun regrow :: "(u64 \<times> group_accum option \<times> bool) list \<Rightarrow> group_table \<Rightarrow> group_table option" where
  "regrow [] t = Some t"
| "regrow ((h, g, full) # old) t =
     (if \<not> full then regrow old t
      else (case place h g t of None \<Rightarrow> None | Some t' \<Rightarrow> regrow old t'))"

definition grow :: "group_table \<Rightarrow> group_table option" where
  "grow t =
     regrow (zip (gt_hashes t) (zip (gt_slots t) (gt_full t)))
       ((empty_slots (2 * length (gt_slots t)))\<lparr>gt_size := gt_size t\<rparr>)"

definition needs_growth :: "nat \<Rightarrow> nat \<Rightarrow> bool" where
  "needs_growth cap n \<longleftrightarrow> f64_lt (f64_mul max_load_factor (f64_of_int (int cap))) (f64_of_int (int n))"

definition insert_new :: "u64 \<Rightarrow> group_accum \<Rightarrow> group_table \<Rightarrow> group_table option" where
  "insert_new hash g t =
     (case (if needs_growth (length (gt_slots t)) (gt_size t + 1) then grow t else Some t) of
        None \<Rightarrow> None
      | Some t1 \<Rightarrow> map_option (\<lambda>t2. t2\<lparr>gt_size := gt_size t2 + 1\<rparr>) (place hash (Some g) t1))"

text \<open>Writing through the pointer a find returned.\<close>

definition set_slot :: "nat \<Rightarrow> group_accum \<Rightarrow> group_table \<Rightarrow> group_table" where
  "set_slot i g t = t\<lparr>gt_slots := (gt_slots t)[i := Some g]\<rparr>"

text \<open>The groups \<open>each\<close> visits, in slot order.\<close>

definition gt_entries :: "group_table \<Rightarrow> (u64 \<times> group_accum) list" where
  "gt_entries t = map (\<lambda>(h, g, _). (h, the g))
     (filter (\<lambda>(h, g, full). full) (zip (gt_hashes t) (zip (gt_slots t) (gt_full t))))"

definition table_each :: "group_table \<Rightarrow> group_accum list" where
  "table_each t = map snd (gt_entries t)"

section \<open>The load factor\<close>

text \<open>
  The threshold of a capacity that is a power of two is exact, so a table that does not grow keeps a free
  slot, and one that grows was more than half full.
\<close>

lemma threshold_mag:
  assumes "k < 52"
  shows "f64_mag (f64_mul max_load_factor (f64_of_int (2 ^ k))) = int (1021 + k) * 2 ^ 52 + 6305039478318694"
    and "\<not> f64_sign (f64_mul max_load_factor (f64_of_int (2 ^ k)))"
proof -
  define q :: int where "q = 6305039478318694"
  have q: "2 ^ 52 \<le> q" "q < 2 ^ 53" by (simp_all add: q_def)
  have lf: "f64_mag max_load_factor = int 1021 * 2 ^ 52 + q" "\<not> f64_sign max_load_factor"
    by (simp_all add: max_load_factor_def f64_mag_def f64_sign_def q_def)
  have k53: "\<bar>2 ^ k :: int\<bar> < 2 ^ 53" using power_strict_increasing [of k 53 "2 :: int"] assms by simp
  have cap: "scaled_mag (f64_mag (f64_of_int (2 ^ k))) = 2 ^ k * f64_unit" "f64_mag (f64_of_int (2 ^ k)) < inf_mag"
      "\<not> f64_sign (f64_of_int (2 ^ k))"
    using f64_scaled_of_int [OF k53] by (simp_all add: f64_scaled_def)
  have fin: "\<not> is_nan max_load_factor" "\<not> is_inf max_load_factor" "\<not> is_nan (f64_of_int (2 ^ k))" "\<not> is_inf (f64_of_int (2 ^ k))"
    using lf(1) cap(2) q by (simp_all add: is_nan_def is_inf_def inf_mag_def)
  have le: "int (1021 + k) * 2 ^ 52 + q \<le> inf_mag" using q(2) assms by (simp add: inf_mag_def)
  have "scaled_mag (f64_mag max_load_factor) * (2 ^ k * f64_unit) = q * 2 ^ (1021 + k) * f64_unit"
    unfolding lf(1) scaled_mag_dyadic [OF q] by (simp only: power_add mult.assoc)
  then have "round_mag (scaled_mag (f64_mag max_load_factor) * scaled_mag (f64_mag (f64_of_int (2 ^ k)))) f64_unit
      = round_mag (q * 2 ^ (1021 + k) * f64_unit) (1 * f64_unit)"
    by (simp only: cap mult_1)
  also have "\<dots> = int (1021 + k) * 2 ^ 52 + q"
    using round_mag_cancel [of f64_unit 1 "q * 2 ^ (1021 + k)"] round_mag_dyadic [OF q le] by simp
  finally have r: "round_mag (scaled_mag (f64_mag max_load_factor) * scaled_mag (f64_mag (f64_of_int (2 ^ k)))) f64_unit
      = int (1021 + k) * 2 ^ 52 + q" .
  have "f64_mul max_load_factor (f64_of_int (2 ^ k)) = mk_f64 False (int (1021 + k) * 2 ^ 52 + q)"
    using fin lf(2) cap(3) unfolding f64_mul_def Let_def f64_of_ratio_def r by simp
  moreover have "0 \<le> int (1021 + k) * 2 ^ 52 + q" "int (1021 + k) * 2 ^ 52 + q < 2 ^ 63"
    using le le_less_trans [OF le inf_mag_range(3)] q(1) by simp_all
  ultimately show "f64_mag (f64_mul max_load_factor (f64_of_int (2 ^ k))) = int (1021 + k) * 2 ^ 52 + 6305039478318694"
      "\<not> f64_sign (f64_mul max_load_factor (f64_of_int (2 ^ k)))"
    by (simp_all only: f64_mk q_def) simp_all
qed

lemma scaled_threshold: "scaled_mag (int (1021 + k) * 2 ^ 52 + 6305039478318694) = 6305039478318694 * 2 ^ (1021 + k)"
  by (rule scaled_mag_dyadic) simp_all

lemma growth_bounds:
  assumes "k < 52" and "0 < n" and "int n < 2 ^ 53"
  shows "\<not> needs_growth (2 ^ k) n \<Longrightarrow> n < 2 ^ k" and "needs_growth (2 ^ k) n \<Longrightarrow> 2 ^ k < 2 * n"
proof -
  define q :: int where "q = 6305039478318694"
  define mp where "mp = int (1021 + k) * 2 ^ 52 + q"
  define mn where "mn = f64_mag (f64_of_int (int n))"
  note th = threshold_mag [OF assms(1), folded q_def, folded mp_def]
  have sp: "scaled_mag mp = q * 2 ^ (1021 + k)" using scaled_threshold [of k] by (simp only: mp_def q_def)
  have sn: "scaled_mag mn = int n * f64_unit" "mn < inf_mag" "\<not> f64_sign (f64_of_int (int n))"
    using f64_scaled_of_int [of "int n"] assms(3) by (simp_all add: f64_scaled_def mn_def)
  have mp: "0 \<le> mp" "mp < inf_mag" using assms(1) by (simp_all add: mp_def q_def inf_mag_def)
  have growth: "needs_growth (2 ^ k) n \<longleftrightarrow> mp < mn"
    using th sn mp by (simp add: needs_growth_def f64_lt_def f64_key_def is_nan_def mn_def)
  have unit: "f64_unit = 2 ^ 1021 * 2 ^ 53" unfolding f64_unit_def by (simp only: power_add [symmetric]) simp
  have p: "(2 :: int) ^ (1021 + k) = 2 ^ 1021 * 2 ^ k" by (rule power_add)
  have pos: "0 < (2 :: int) ^ 1021" by simp
  have kk: "0 < (2 :: int) ^ k" by simp
  have cast: "int (2 ^ k) = 2 ^ k" by simp
  {
    assume "\<not> needs_growth (2 ^ k) n"
    then have "scaled_mag mn \<le> scaled_mag mp" using growth by (intro scaled_mag_mono) (simp_all add: mn_def f64_mag_range)
    then have "2 ^ 1021 * (int n * 2 ^ 53) \<le> 2 ^ 1021 * (q * 2 ^ k)"
      unfolding sp sn(1) unit p by (simp only: ac_simps)
    then have "int n * 2 ^ 53 \<le> q * 2 ^ k" using pos by (simp only: mult_le_cancel_left_pos)
    moreover have "q * 2 ^ k < 2 ^ 53 * 2 ^ k" using kk by (intro mult_strict_right_mono) (simp_all add: q_def)
    ultimately have "int n * 2 ^ 53 < 2 ^ 53 * 2 ^ k" by linarith
    then have "int n < 2 ^ k" by simp
    then show "n < 2 ^ k" using cast by linarith
  next
    assume "needs_growth (2 ^ k) n"
    then have "scaled_mag mp \<le> scaled_mag mn" using growth mp by (intro scaled_mag_mono) simp_all
    then have "2 ^ 1021 * (q * 2 ^ k) \<le> 2 ^ 1021 * (int n * 2 ^ 53)"
      unfolding sp sn(1) unit p by (simp only: ac_simps)
    then have "q * 2 ^ k \<le> int n * 2 ^ 53" using pos by (simp only: mult_le_cancel_left_pos)
    moreover have "2 ^ 52 * 2 ^ k < q * 2 ^ k" using kk by (intro mult_strict_right_mono) (simp_all add: q_def)
    ultimately have "2 ^ 52 * 2 ^ k < int n * 2 ^ 53" by linarith
    then have "2 ^ k < 2 * int n" by simp
    then show "2 ^ k < 2 * n" using cast by linarith
  }
qed

section \<open>Probe sequences\<close>

text \<open>The \<open>j\<close>-th slot probed for a hash in a table of \<open>2 ^ k\<close> slots.\<close>

definition probe_pos :: "nat \<Rightarrow> u64 \<Rightarrow> nat \<Rightarrow> nat" where
  "probe_pos k h j = (unat h + j) mod 2 ^ k"

lemma probe_pos_less [simp]: "probe_pos k h j < 2 ^ k"
  by (simp add: probe_pos_def)

lemma unat_and_mask: "unat ((w :: u64) AND (of_nat (2 ^ k) - 1)) = unat w mod 2 ^ k" if "k < 64"
proof -
  have "(of_nat (2 ^ k) - 1 :: u64) = mask k" by (simp add: mask_eq_exp_minus_1)
  then have "unat (w AND (of_nat (2 ^ k) - 1)) = unat (take_bit k w)" by (simp add: take_bit_eq_mask)
  also have "\<dots> = take_bit k (unat w)" by (rule unsigned_take_bit_eq)
  finally show ?thesis by (simp add: take_bit_eq_mod)
qed

lemma unat_suc_and_mask: "unat ((w + 1 :: u64) AND (of_nat (2 ^ k) - 1)) = (unat w + 1) mod 2 ^ k" if "k < 64"
proof -
  have "(2 :: nat) ^ k dvd 2 ^ 64" using that by (intro le_imp_power_dvd) simp
  then have "((unat w + 1) mod 2 ^ 64) mod 2 ^ k = (unat w + 1) mod 2 ^ k" by (rule mod_mod_cancel)
  moreover have "unat (w + 1) = (unat w + 1) mod 2 ^ 64" by (simp add: unat_word_ariths)
  ultimately show ?thesis using unat_and_mask [OF that, of "w + 1"] by simp
qed

lemma probe_slots_find:
  assumes "k < 64" and "unat idx = probe_pos k h j"
  shows "probe_slots full hit (of_nat (2 ^ k) - 1) n idx
     = map_option (\<lambda>j. (probe_pos k h j, full ! probe_pos k h j))
         (List.find (\<lambda>j. \<not> full ! probe_pos k h j \<or> hit (probe_pos k h j)) [j..<j + n])"
  using assms(2)
proof (induction n arbitrary: j idx)
  case 0
  then show ?case by simp
next
  case (Suc n)
  have "unat ((idx + 1) AND (of_nat (2 ^ k) - 1)) = probe_pos k h (Suc j)"
    using unat_suc_and_mask [OF assms(1), of idx] Suc.prems by (simp add: probe_pos_def mod_Suc_eq)
  then show ?case
    using Suc.IH [of "(idx + 1) AND (of_nat (2 ^ k) - 1)" "Suc j"] Suc.prems
    by (simp add: upt_conv_Cons del: upt_Suc)
qed

section \<open>The table invariant\<close>

text \<open>
  A table of \<open>2 ^ k\<close> slots in which every occupied slot can be reached from its hash without crossing a
  free one.
\<close>

definition slots_ok :: "nat \<Rightarrow> group_table \<Rightarrow> bool" where
  "slots_ok k t \<longleftrightarrow> k \<le> 52 \<and> length (gt_hashes t) = 2 ^ k \<and> length (gt_slots t) = 2 ^ k \<and> length (gt_full t) = 2 ^ k
     \<and> (\<forall>i < 2 ^ k. gt_full t ! i \<longrightarrow> gt_slots t ! i \<noteq> None)
     \<and> (\<forall>i < 2 ^ k. gt_full t ! i \<longrightarrow>
          (\<exists>j. i = probe_pos k (gt_hashes t ! i) j \<and> (\<forall>j' < j. gt_full t ! probe_pos k (gt_hashes t ! i) j')))"

definition gt_ok :: "group_table \<Rightarrow> bool" where
  "gt_ok t \<longleftrightarrow> (\<exists>k. k \<le> 51 \<and> slots_ok k t \<and> length (gt_entries t) < 2 ^ k)
     \<and> gt_size t = length (gt_entries t)"

lemma probe_table_find:
  assumes "slots_ok k t"
  shows "probe_table hit h t
     = map_option (\<lambda>j. (probe_pos k h j, gt_full t ! probe_pos k h j))
         (List.find (\<lambda>j. \<not> gt_full t ! probe_pos k h j \<or> hit (probe_pos k h j)) [0..<2 ^ k])"
proof -
  have k: "k < 64" "length (gt_slots t) = 2 ^ k" using assms by (simp_all add: slots_ok_def)
  then have "unat (h AND (of_nat (2 ^ k) - 1)) = probe_pos k h 0"
    using unat_and_mask [of k h] by (simp add: probe_pos_def)
  from probe_slots_find [OF k(1) this, of "gt_full t" hit "2 ^ k"] k(2)
  show ?thesis by (simp add: probe_table_def table_mask_def)
qed

definition triples :: "group_table \<Rightarrow> (u64 \<times> group_accum option \<times> bool) list" where
  "triples t = zip (gt_hashes t) (zip (gt_slots t) (gt_full t))"

lemma gt_entries_triples: "gt_entries t = map (\<lambda>(h, g, _). (h, the g)) (filter (\<lambda>(h, g, full). full) (triples t))"
  by (simp add: gt_entries_def triples_def)

lemma triples_nth:
  "slots_ok k t \<Longrightarrow> length (triples t) = 2 ^ k"
  "slots_ok k t \<Longrightarrow> i < 2 ^ k \<Longrightarrow> triples t ! i = (gt_hashes t ! i, gt_slots t ! i, gt_full t ! i)"
  by (simp_all add: triples_def slots_ok_def)

lemma entries_iff:
  assumes "slots_ok k t"
  shows "(h, g) \<in> set (gt_entries t) \<longleftrightarrow> (\<exists>i < 2 ^ k. gt_full t ! i \<and> gt_hashes t ! i = h \<and> gt_slots t ! i = Some g)"
proof -
  have "(h, g) \<in> set (gt_entries t) \<longleftrightarrow> (\<exists>x \<in> set (triples t). snd (snd x) \<and> fst x = h \<and> the (fst (snd x)) = g)"
    by (force simp: gt_entries_triples)
  also have "\<dots> \<longleftrightarrow> (\<exists>i < length (triples t). snd (snd (triples t ! i)) \<and> fst (triples t ! i) = h \<and> the (fst (snd (triples t ! i))) = g)"
    by (metis in_set_conv_nth)
  also have "\<dots> \<longleftrightarrow> (\<exists>i < 2 ^ k. gt_full t ! i \<and> gt_hashes t ! i = h \<and> the (gt_slots t ! i) = g)"
    unfolding triples_nth(1) [OF assms] using triples_nth(2) [OF assms] by (intro ex_cong1) auto
  finally show ?thesis using assms by (auto simp: slots_ok_def)
qed

lemma free_slot:
  assumes "slots_ok k t" and "length (gt_entries t) < 2 ^ k"
  shows "\<exists>j < 2 ^ k. \<not> gt_full t ! probe_pos k h j"
proof -
  have "\<exists>i < 2 ^ k. \<not> gt_full t ! i"
  proof (rule ccontr)
    assume "\<not> ?thesis"
    then have "filter (\<lambda>(h, g, full). full) (triples t) = triples t"
      using triples_nth [OF assms(1)] by (intro filter_True) (auto simp: in_set_conv_nth)
    then show False using assms(2) triples_nth(1) [OF assms(1)] by (simp add: gt_entries_triples)
  qed
  then obtain i where i: "i < 2 ^ k" "\<not> gt_full t ! i" by blast
  define j where "j = (i + (2 ^ k - unat h mod 2 ^ k)) mod 2 ^ k"
  have "unat h mod 2 ^ k < 2 ^ k" by simp
  then have "(unat h mod 2 ^ k + (i + (2 ^ k - unat h mod 2 ^ k))) mod 2 ^ k = (i + 2 ^ k) mod 2 ^ k"
    by (intro arg_cong [of _ _ "\<lambda>x. x mod 2 ^ k"]) linarith
  then have "probe_pos k h j = i"
    using i(1) by (simp add: probe_pos_def j_def mod_simps)
  then show ?thesis using i(2) by (intro exI [of _ j]) (simp add: j_def)
qed

lemma find_first:
  assumes "\<exists>j < n. P j"
  shows "\<exists>j < n. List.find P [0..<n] = Some j \<and> P j \<and> (\<forall>j' < j. \<not> P j')"
proof -
  have "List.find P [0..<n] \<noteq> None" using assms by (auto simp: find_None_iff)
  then obtain j where j: "List.find P [0..<n] = Some j" by blast
  then obtain i where i: "i < length [0..<n]" "P ([0..<n] ! i)" "j = [0..<n] ! i" "\<forall>j' < i. \<not> P ([0..<n] ! j')"
    unfolding find_Some_iff by blast
  then have "j = i" "i < n" by simp_all
  moreover have "\<forall>j' < i. \<not> P j'" using i(1,4) by auto
  ultimately show ?thesis using j i(2) by auto
qed

lemma probe_result:
  assumes "slots_ok k t" and "length (gt_entries t) < 2 ^ k"
  shows "\<exists>j. probe_table hit h t = Some (probe_pos k h j, gt_full t ! probe_pos k h j)
     \<and> (\<not> gt_full t ! probe_pos k h j \<or> hit (probe_pos k h j))
     \<and> (\<forall>j' < j. gt_full t ! probe_pos k h j' \<and> \<not> hit (probe_pos k h j'))"
proof -
  have "\<exists>j < 2 ^ k. \<not> gt_full t ! probe_pos k h j \<or> hit (probe_pos k h j)"
    using free_slot [OF assms] by blast
  from find_first [OF this] show ?thesis
    unfolding probe_table_find [OF assms(1)] by force
qed

lemma find_by_ok:
  assumes "gt_ok t"
  shows "(\<exists>i. find_by match h t = Found i \<and> i < length (gt_slots t) \<and> gt_full t ! i \<and> gt_hashes t ! i = h
       \<and> (\<exists>g. gt_slots t ! i = Some g \<and> match (ga_key g)))
     \<or> (find_by match h t = Absent \<and> (\<forall>g. (h, g) \<in> set (gt_entries t) \<longrightarrow> \<not> match (ga_key g)))"
proof -
  obtain k where k: "slots_ok k t" "length (gt_entries t) < 2 ^ k" using assms by (auto simp: gt_ok_def)
  define hit where "hit = (\<lambda>i. gt_hashes t ! i = h \<and> match (ga_key (the (gt_slots t ! i))))"
  obtain j where j: "probe_table hit h t = Some (probe_pos k h j, gt_full t ! probe_pos k h j)"
      "\<not> gt_full t ! probe_pos k h j \<or> hit (probe_pos k h j)"
      "\<forall>j' < j. gt_full t ! probe_pos k h j' \<and> \<not> hit (probe_pos k h j')"
    using probe_result [OF k] by blast
  show ?thesis
  proof (cases "gt_full t ! probe_pos k h j")
    case True
    then have "gt_slots t ! probe_pos k h j \<noteq> None" using k(1) by (simp add: slots_ok_def del: not_None_eq)
    then obtain g where g: "gt_slots t ! probe_pos k h j = Some g" by blast
    have "find_by match h t = Found (probe_pos k h j)"
      using j(1) True by (simp add: find_by_def hit_def)
    moreover have "length (gt_slots t) = 2 ^ k" using k(1) by (simp add: slots_ok_def)
    ultimately show ?thesis using True g j(2) by (simp add: hit_def)
  next
    case False
    have "\<not> match (ga_key g)" if "(h, g) \<in> set (gt_entries t)" for g
    proof -
      from that obtain i where i: "i < 2 ^ k" "gt_full t ! i" "gt_hashes t ! i = h" "gt_slots t ! i = Some g"
        using entries_iff [OF k(1)] by blast
      then obtain j' where j': "i = probe_pos k h j'" "\<forall>j'' < j'. gt_full t ! probe_pos k h j''"
        using k(1) by (auto simp: slots_ok_def)
      have "j' < j" using False i(2) j' by (metis linorder_neqE_nat)
      then show ?thesis using j(3) i j'(1) by (auto simp: hit_def)
    qed
    with False j(1) show ?thesis by (auto simp: find_by_def hit_def)
  qed
qed

section \<open>Filling a slot\<close>

text \<open>\<open>place\<close> after its probe.\<close>

definition fill_slot :: "nat \<Rightarrow> u64 \<Rightarrow> group_accum option \<Rightarrow> group_table \<Rightarrow> group_table" where
  "fill_slot i h g t = t\<lparr>gt_hashes := (gt_hashes t)[i := h], gt_slots := (gt_slots t)[i := g],
                        gt_full := (gt_full t)[i := True]\<rparr>"

lemma place_fill: "place h g t = map_option (\<lambda>(i, _). fill_slot i h g t) (probe_table (\<lambda>_. False) h t)"
  by (simp add: place_def fill_slot_def)

lemma fill_slots_ok:
  assumes ok: "slots_ok k t" and "g \<noteq> None" and "\<forall>j' < j. gt_full t ! probe_pos k h j'"
  shows "slots_ok k (fill_slot (probe_pos k h j) h g t)"
proof -
  define i where "i = probe_pos k h j"
  define t' where "t' = fill_slot i h g t"
  have i: "i < 2 ^ k" by (simp add: i_def)
  have len: "length (gt_hashes t) = 2 ^ k" "length (gt_slots t) = 2 ^ k" "length (gt_full t) = 2 ^ k"
    using ok by (simp_all add: slots_ok_def)
  have full: "gt_full t' ! m = (m = i \<or> gt_full t ! m)" if "m < 2 ^ k" for m
    using that len i by (simp add: t'_def fill_slot_def nth_list_update)
  have fields: "gt_hashes t' ! m = (if m = i then h else gt_hashes t ! m)"
      "gt_slots t' ! m = (if m = i then g else gt_slots t ! m)" if "m < 2 ^ k" for m
    using that len i by (simp_all add: t'_def fill_slot_def nth_list_update)
  have "\<exists>l. m = probe_pos k (gt_hashes t' ! m) l \<and> (\<forall>l' < l. gt_full t' ! probe_pos k (gt_hashes t' ! m) l')"
    if m: "m < 2 ^ k" "gt_full t' ! m" for m
  proof (cases "m = i")
    case True
    then show ?thesis using assms(3) fields(1) [OF m(1)] full by (intro exI [of _ j]) (simp add: i_def)
  next
    case False
    then have "gt_full t ! m" using full m by simp
    then obtain l where "m = probe_pos k (gt_hashes t ! m) l" "\<forall>l' < l. gt_full t ! probe_pos k (gt_hashes t ! m) l'"
      using ok m(1) by (auto simp: slots_ok_def)
    then show ?thesis using fields(1) [OF m(1)] full False by (intro exI [of _ l]) simp
  qed
  moreover have "gt_slots t' ! m \<noteq> None" if "m < 2 ^ k" "gt_full t' ! m" for m
    using that full fields(2) ok assms(2) by (auto simp: slots_ok_def)
  moreover have "length (gt_hashes t') = 2 ^ k" "length (gt_slots t') = 2 ^ k" "length (gt_full t') = 2 ^ k"
    using len by (simp_all add: t'_def fill_slot_def)
  ultimately show ?thesis using ok unfolding t'_def i_def slots_ok_def by blast
qed

lemma triples_fill:
  "slots_ok k t \<Longrightarrow> triples (fill_slot i h g t) = (triples t)[i := (h, g, True)]"
  by (simp add: triples_def fill_slot_def zip_update)

lemma entries_mset: "mset (gt_entries t) = image_mset (\<lambda>(h, g, _). (h, the g)) (filter_mset (\<lambda>(h, g, full). full) (mset (triples t)))"
  by (simp add: gt_entries_triples)

lemma fill_entries:
  assumes ok: "slots_ok k t" and i: "i < 2 ^ k" "\<not> gt_full t ! i"
  shows "mset (gt_entries (fill_slot i h g t)) = add_mset (h, the g) (mset (gt_entries t))"
proof -
  have len: "i < length (triples t)" using triples_nth(1) [OF ok] i(1) by simp
  have nth: "triples t ! i = (gt_hashes t ! i, gt_slots t ! i, False)" using triples_nth(2) [OF ok i(1)] i(2) by simp
  have "filter_mset (\<lambda>(h, g, full). full) (mset (triples t) - {#triples t ! i#}) = filter_mset (\<lambda>(h, g, full). full) (mset (triples t))"
    using nth by (simp add: filter_diff_mset)
  then show ?thesis
    using len by (simp add: entries_mset triples_fill [OF ok] mset_update)
qed

lemma place_ok:
  assumes "slots_ok k t" and "length (gt_entries t) < 2 ^ k" and "g \<noteq> None"
  shows "\<exists>t'. place h g t = Some t' \<and> slots_ok k t' \<and> mset (gt_entries t') = add_mset (h, the g) (mset (gt_entries t))
     \<and> gt_size t' = gt_size t"
proof -
  obtain j where j: "probe_table (\<lambda>_. False) h t = Some (probe_pos k h j, gt_full t ! probe_pos k h j)"
      "\<not> gt_full t ! probe_pos k h j" "\<forall>j' < j. gt_full t ! probe_pos k h j'"
    using probe_result [OF assms(1,2), of "\<lambda>_. False" h] by auto
  define t' where "t' = fill_slot (probe_pos k h j) h g t"
  have "place h g t = Some t'" using j(1) by (simp add: place_fill t'_def)
  moreover have "slots_ok k t'" unfolding t'_def by (rule fill_slots_ok [OF assms(1,3) j(3)])
  moreover have "mset (gt_entries t') = add_mset (h, the g) (mset (gt_entries t))"
    unfolding t'_def by (rule fill_entries [OF assms(1) probe_pos_less j(2)])
  moreover have "gt_size t' = gt_size t" by (simp add: t'_def fill_slot_def)
  ultimately show ?thesis by blast
qed

section \<open>Growing\<close>

lemma regrow_ok:
  assumes "slots_ok k t" and "length (gt_entries t) + length (filter (\<lambda>(h, g, full). full) old) \<le> 2 ^ k"
    and "\<forall>(h, g, full) \<in> set old. full \<longrightarrow> g \<noteq> None"
  shows "\<exists>t'. regrow old t = Some t' \<and> slots_ok k t' \<and> gt_size t' = gt_size t
     \<and> mset (gt_entries t') = mset (gt_entries t) + mset (map (\<lambda>(h, g, _). (h, the g)) (filter (\<lambda>(h, g, full). full) old))"
  using assms
proof (induction old arbitrary: t)
  case Nil
  then show ?case by simp
next
  case (Cons x old)
  obtain h g full where x: "x = (h, g, full)" by (rule prod_cases3)
  show ?case
  proof (cases full)
    case False
    then show ?thesis using Cons by (simp add: x)
  next
    case True
    then have "length (gt_entries t) < 2 ^ k" "g \<noteq> None" using Cons.prems by (auto simp: x)
    then obtain t1 where t1: "place h g t = Some t1" "slots_ok k t1"
        "mset (gt_entries t1) = add_mset (h, the g) (mset (gt_entries t))" "gt_size t1 = gt_size t"
      using place_ok [OF Cons.prems(1)] by blast
    have "length (gt_entries t1) = Suc (length (gt_entries t))" using arg_cong [OF t1(3), of size] by simp
    with Cons.prems True have "length (gt_entries t1) + length (filter (\<lambda>(h, g, full). full) old) \<le> 2 ^ k" by (simp add: x)
    from Cons.IH [OF t1(2) this] Cons.prems(3) show ?thesis
      using t1 True by (auto simp: x)
  qed
qed

lemma empty_slots_ok: "k \<le> 52 \<Longrightarrow> slots_ok k (empty_slots (2 ^ k)) \<and> gt_entries (empty_slots (2 ^ k)) = []"
  by (auto simp: slots_ok_def empty_slots_def gt_entries_def filter_empty_conv set_zip)

lemma grow_ok:
  assumes "slots_ok k t" and "k \<le> 51"
  shows "\<exists>t'. grow t = Some t' \<and> slots_ok (Suc k) t' \<and> gt_size t' = gt_size t \<and> mset (gt_entries t') = mset (gt_entries t)"
proof -
  define e where "e = (empty_slots (2 ^ Suc k))\<lparr>gt_size := gt_size t\<rparr>"
  have e: "slots_ok (Suc k) e" "gt_entries e = []"
    using empty_slots_ok [of "Suc k"] assms(2) by (simp_all add: e_def slots_ok_def gt_entries_def)
  have some: "\<forall>(h, g, full) \<in> set (triples t). full \<longrightarrow> g \<noteq> None"
    using assms(1) triples_nth [OF assms(1)] by (auto simp: in_set_conv_nth slots_ok_def)
  have "length (filter (\<lambda>(h, g, full). full) (triples t)) \<le> 2 ^ Suc k"
    using length_filter_le [of "\<lambda>(h, g, full). full" "triples t"] triples_nth(1) [OF assms(1)] by simp
  then have "length (gt_entries e) + length (filter (\<lambda>(h, g, full). full) (triples t)) \<le> 2 ^ Suc k" by (simp add: e(2))
  from regrow_ok [OF e(1) this some] obtain t' where "regrow (triples t) e = Some t'" "slots_ok (Suc k) t'" "gt_size t' = gt_size e"
      "mset (gt_entries t') = mset (gt_entries t)"
    unfolding e(2) gt_entries_triples [of t, symmetric] by auto
  moreover have "grow t = regrow (triples t) e"
    using assms(1) by (simp add: grow_def triples_def e_def slots_ok_def)
  ultimately show ?thesis by (auto simp: e_def)
qed

section \<open>Inserting\<close>

definition max_groups :: nat where
  "max_groups = 2 ^ 50"

lemma insert_new_ok:
  assumes "gt_ok t" and "gt_size t < max_groups"
  shows "\<exists>t'. insert_new h g t = Some t' \<and> gt_ok t' \<and> mset (gt_entries t') = add_mset (h, g) (mset (gt_entries t))
     \<and> gt_size t' = Suc (gt_size t)"
proof -
  obtain k where k: "slots_ok k t" "k \<le> 51" "length (gt_entries t) < 2 ^ k" "gt_size t = length (gt_entries t)"
    using assms(1) by (auto simp: gt_ok_def)
  define n where "n = gt_size t + 1"
  have n: "0 < n" "n \<le> 2 ^ 50" "int n < 2 ^ 53" using assms(2) by (simp_all add: n_def max_groups_def)
  have cap: "length (gt_slots t) = 2 ^ k" using k(1) by (simp add: slots_ok_def)
  note bounds = growth_bounds [OF _ n(1,3), of k]
  have "\<exists>k' t1. (if needs_growth (2 ^ k) n then grow t else Some t) = Some t1 \<and> slots_ok k' t1 \<and> k' \<le> 51 \<and> n < 2 ^ k'
      \<and> gt_size t1 = gt_size t \<and> mset (gt_entries t1) = mset (gt_entries t)"
  proof (cases "needs_growth (2 ^ k) n")
    case False
    then have "n < 2 ^ k" using bounds(1) k(2) by simp
    then show ?thesis using False k by auto
  next
    case True
    then have "2 ^ k < 2 * n" using bounds(2) k(2) by simp
    then have "(2 :: nat) ^ k < 2 ^ 51" using n(2) by simp
    then have "k < 51" by (rule power_less_imp_less_exp [rotated]) simp
    moreover have "n < 2 ^ Suc k" using k(3,4) by (simp add: n_def)
    ultimately show ?thesis using True grow_ok [OF k(1,2)] by (intro exI [of _ "Suc k"]) auto
  qed
  then obtain k' t1 where t1: "(if needs_growth (2 ^ k) n then grow t else Some t) = Some t1" "slots_ok k' t1" "k' \<le> 51"
      "n < 2 ^ k'" "gt_size t1 = gt_size t" "mset (gt_entries t1) = mset (gt_entries t)"
    by blast
  have len1: "length (gt_entries t1) = length (gt_entries t)" using t1(6) by (rule mset_eq_length)
  then have "length (gt_entries t1) < 2 ^ k'" using t1(4) k(4) by (simp add: n_def)
  then obtain t2 where t2: "place h (Some g) t1 = Some t2" "slots_ok k' t2"
      "mset (gt_entries t2) = add_mset (h, g) (mset (gt_entries t1))" "gt_size t2 = gt_size t1"
    using place_ok [OF t1(2), of "Some g" h] by auto
  define t' where "t' = t2\<lparr>gt_size := gt_size t2 + 1\<rparr>"
  have e: "gt_entries t' = gt_entries t2" by (simp add: t'_def gt_entries_def)
  have len2: "length (gt_entries t2) = n" using arg_cong [OF t2(3), of size] len1 k(4) by (simp add: n_def)
  have "insert_new h g t = Some t'"
    using t1(1) t2(1) by (simp add: insert_new_def cap n_def t'_def)
  moreover have "gt_ok t'"
    unfolding gt_ok_def e using len2 t1(3-5) t2(2,4)
    by (auto simp: t'_def slots_ok_def n_def intro!: exI [of _ k'])
  moreover have "mset (gt_entries t') = add_mset (h, g) (mset (gt_entries t))" using t2(3) t1(6) e by simp
  moreover have "gt_size t' = Suc (gt_size t)" using t2(4) t1(5) by (simp add: t'_def)
  ultimately show ?thesis by blast
qed

section \<open>Writing through a found group\<close>

lemma set_slot_ok:
  assumes "gt_ok t" and "i < length (gt_slots t)" and "gt_full t ! i" and "gt_slots t ! i = Some g"
  shows "gt_ok (set_slot i g' t)
     \<and> mset (gt_entries (set_slot i g' t)) = add_mset (gt_hashes t ! i, g') (mset (gt_entries t) - {#(gt_hashes t ! i, g)#})
     \<and> gt_size (set_slot i g' t) = gt_size t"
proof -
  obtain k where k: "slots_ok k t" "k \<le> 51" "length (gt_entries t) < 2 ^ k" "gt_size t = length (gt_entries t)"
    using assms(1) by (auto simp: gt_ok_def)
  have i: "i < 2 ^ k" using assms(2) k(1) by (simp add: slots_ok_def)
  have same: "gt_hashes (set_slot i g' t) = gt_hashes t" "gt_full (set_slot i g' t) = gt_full t"
      "gt_size (set_slot i g' t) = gt_size t" "gt_slots (set_slot i g' t) = (gt_slots t)[i := Some g']"
    by (simp_all add: set_slot_def)
  have slots: "(gt_slots t)[i := Some g'] ! m = (if m = i then Some g' else gt_slots t ! m)" for m
    using assms(2) by (simp add: nth_list_update)
  have ok: "slots_ok k (set_slot i g' t)"
    using k(1) by (simp add: slots_ok_def same slots del: not_None_eq)
  have "triples (set_slot i g' t) = (triples t)[i := (gt_hashes t ! i, Some g', True)]"
    using assms(3) i by (intro nth_equalityI)
      (auto simp: triples_nth [OF ok] triples_nth [OF k(1)] same nth_list_update slots)
  moreover have "i < length (triples t)" "triples t ! i = (gt_hashes t ! i, Some g, True)"
    using triples_nth [OF k(1)] i assms(3,4) by simp_all
  ultimately have "mset (triples (set_slot i g' t))
      = add_mset (gt_hashes t ! i, Some g', True) (mset (triples t) - {#(gt_hashes t ! i, Some g, True)#})"
    and "(gt_hashes t ! i, Some g, True) \<in># mset (triples t)"
    by (simp_all add: mset_update) (metis nth_mem)
  then have e: "mset (gt_entries (set_slot i g' t)) = add_mset (gt_hashes t ! i, g') (mset (gt_entries t) - {#(gt_hashes t ! i, g)#})"
    by (simp add: entries_mset image_mset_Diff)
  have "(gt_hashes t ! i, g) \<in> set (gt_entries t)" using entries_iff [OF k(1)] i assms(3,4) by blast
  then have "length (gt_entries (set_slot i g' t)) = length (gt_entries t)"
    using arg_cong [OF e, of size] by (simp add: size_Diff_singleton) (metis Suc_pred length_pos_if_in_set)
  with k ok e show ?thesis by (auto simp: gt_ok_def same)
qed

section \<open>The table as a map\<close>

definition gt_map :: "group_table \<Rightarrow> value_t list \<Rightarrow> group_accum option" where
  "gt_map t = map_of (map (\<lambda>(h, g). (ga_key g, g)) (gt_entries t))"

text \<open>
  Every group is stored under the hash of its key, and no key occurs twice. \<open>K\<close> are the keys the table may
  hold.
\<close>

definition keyed_ok :: "(value_t list \<Rightarrow> u64) \<Rightarrow> (value_t list \<Rightarrow> bool) \<Rightarrow> group_table \<Rightarrow> bool" where
  "keyed_ok H K t \<longleftrightarrow> gt_ok t \<and> (\<forall>(h, g) \<in> set (gt_entries t). h = H (ga_key g) \<and> K (ga_key g))
     \<and> distinct (map (\<lambda>(h, g). ga_key g) (gt_entries t))"

lemma gt_map_iff: "keyed_ok H K t \<Longrightarrow> gt_map t k = Some g \<longleftrightarrow> (H k, g) \<in> set (gt_entries t) \<and> ga_key g = k"
  unfolding gt_map_def
  by (subst map_of_eq_Some_iff) (force simp: keyed_ok_def comp_def case_prod_unfold)+

lemma gt_map_key: "keyed_ok H K t \<Longrightarrow> gt_map t k = Some g \<Longrightarrow> ga_key g = k \<and> K k"
  using gt_map_iff [of H K t k g] by (auto simp: keyed_ok_def)

lemma gt_map_None: "keyed_ok H K t \<Longrightarrow> gt_map t k = None \<longleftrightarrow> k \<notin> ga_key ` snd ` set (gt_entries t)"
  by (auto simp: gt_map_def map_of_eq_None_iff image_iff)

lemma keyed_mset:
  assumes "mset (gt_entries t) = mset es" and "gt_ok t" and "\<forall>(h, g) \<in> set es. h = H (ga_key g) \<and> K (ga_key g)"
    and "distinct (map (\<lambda>(h, g). ga_key g) es)"
  shows "keyed_ok H K t" and "gt_map t = map_of (map (\<lambda>(h, g). (ga_key g, g)) es)"
proof -
  have "set (gt_entries t) = set es" using assms(1) by (rule mset_eq_setD)
  moreover have d: "distinct (map (\<lambda>(h, g). ga_key g) (gt_entries t))"
    using assms(1,4) by (metis mset_eq_imp_distinct_iff mset_map)
  ultimately show "keyed_ok H K t" using assms(2,3) by (simp add: keyed_ok_def)
  show "gt_map t = map_of (map (\<lambda>(h, g). (ga_key g, g)) es)"
    unfolding gt_map_def using assms(4) d mset_eq_setD [OF assms(1)]
    by (subst map_of_inject_set) (simp_all add: comp_def case_prod_unfold)
qed

lemma keyed_find:
  assumes "keyed_ok H K t" and "K key" and match: "\<And>k. K k \<Longrightarrow> match k \<longleftrightarrow> k = key"
  shows "(\<exists>i g. find_by match (H key) t = Found i \<and> gt_map t key = Some g \<and> i < length (gt_slots t) \<and> gt_full t ! i
       \<and> gt_hashes t ! i = H key \<and> gt_slots t ! i = Some g)
     \<or> (find_by match (H key) t = Absent \<and> gt_map t key = None)"
proof -
  have ok: "gt_ok t" using assms(1) by (simp add: keyed_ok_def)
  then obtain k where k: "slots_ok k t" by (auto simp: gt_ok_def)
  have len: "length (gt_slots t) = 2 ^ k" using k by (simp add: slots_ok_def)
  from find_by_ok [OF ok, of match "H key"] show ?thesis
  proof
    assume "\<exists>i. find_by match (H key) t = Found i \<and> i < length (gt_slots t) \<and> gt_full t ! i \<and> gt_hashes t ! i = H key
       \<and> (\<exists>g. gt_slots t ! i = Some g \<and> match (ga_key g))"
    then obtain i g where i: "find_by match (H key) t = Found i" "i < length (gt_slots t)" "gt_full t ! i"
        "gt_hashes t ! i = H key" "gt_slots t ! i = Some g" "match (ga_key g)"
      by blast
    then have e: "(H key, g) \<in> set (gt_entries t)" using entries_iff [OF k] len by auto
    then have "ga_key g = key" using assms(1) match i(6) by (auto simp: keyed_ok_def)
    with e have "gt_map t key = Some g" using gt_map_iff [OF assms(1)] by simp
    with i show ?thesis by blast
  next
    assume a: "find_by match (H key) t = Absent \<and> (\<forall>g. (H key, g) \<in> set (gt_entries t) \<longrightarrow> \<not> match (ga_key g))"
    have "gt_map t key \<noteq> Some g" for g
      using a gt_map_iff [OF assms(1), of key g] match [OF assms(2)] by auto
    then show ?thesis using a by (cases "gt_map t key") auto
  qed
qed

lemma keyed_insert:
  assumes "keyed_ok H K t" and "gt_map t (ga_key g) = None" and "K (ga_key g)" and "gt_size t < max_groups"
  shows "\<exists>t'. insert_new (H (ga_key g)) g t = Some t' \<and> keyed_ok H K t' \<and> gt_size t' = Suc (gt_size t)
     \<and> gt_map t' = (gt_map t)(ga_key g \<mapsto> g)"
proof -
  have ok: "gt_ok t" using assms(1) by (simp add: keyed_ok_def)
  from insert_new_ok [OF ok assms(4)] obtain t' where t': "insert_new (H (ga_key g)) g t = Some t'" "gt_ok t'"
      "mset (gt_entries t') = mset ((H (ga_key g), g) # gt_entries t)" "gt_size t' = Suc (gt_size t)"
    by force
  have all: "\<forall>(h, g) \<in> set ((H (ga_key g), g) # gt_entries t). h = H (ga_key g) \<and> K (ga_key g)"
    using assms(1,3) by (auto simp: keyed_ok_def)
  have "distinct (map (\<lambda>(h, g). ga_key g) ((H (ga_key g), g) # gt_entries t))"
    using assms(1,2) by (force simp: keyed_ok_def gt_map_None)
  from keyed_mset [OF t'(3,2) all this] t' show ?thesis by (auto simp: gt_map_def)
qed

lemma keyed_set:
  assumes "keyed_ok H K t" and "i < length (gt_slots t)" and "gt_full t ! i" and "gt_hashes t ! i = H (ga_key g)"
    and "gt_slots t ! i = Some g" and "ga_key g' = ga_key g" and "gt_map t (ga_key g) = Some g"
  shows "keyed_ok H K (set_slot i g' t) \<and> gt_map (set_slot i g' t) = (gt_map t)(ga_key g \<mapsto> g')
     \<and> gt_size (set_slot i g' t) = gt_size t"
proof -
  have ok: "gt_ok t" using assms(1) by (simp add: keyed_ok_def)
  define h where "h = H (ga_key g)"
  have e: "(h, g) \<in> set (gt_entries t)" using assms(7) gt_map_iff [OF assms(1)] by (simp add: h_def)
  then obtain as bs where ab: "gt_entries t = as @ (h, g) # bs" by (auto simp: in_set_conv_decomp)
  define es where "es = (h, g') # as @ bs"
  have s: "gt_ok (set_slot i g' t)" "mset (gt_entries (set_slot i g' t)) = mset es" "gt_size (set_slot i g' t) = gt_size t"
    using set_slot_ok [OF ok assms(2,3,5)] assms(4) by (simp_all add: ab es_def h_def)
  have all: "\<forall>(h, g) \<in> set es. h = H (ga_key g) \<and> K (ga_key g)"
    using assms(1,6) unfolding es_def h_def keyed_ok_def ab by auto
  have "distinct (map (\<lambda>(h, g). ga_key g) es)"
    using assms(1,6) unfolding es_def keyed_ok_def ab by auto
  from keyed_mset [OF s(2,1) all this] have k: "keyed_ok H K (set_slot i g' t)"
      "gt_map (set_slot i g' t) = map_of (map (\<lambda>(h, g). (ga_key g, g)) es)"
    by blast+
  have notin: "ga_key g \<notin> (\<lambda>(h, g). ga_key g) ` set as"
    using assms(1) unfolding keyed_ok_def ab by auto
  have "map_of (map (\<lambda>(h, g). (ga_key g, g)) es) = (gt_map t)(ga_key g \<mapsto> g')"
    using notin assms(6) by (auto simp: es_def gt_map_def ab fun_eq_iff map_add_def split: option.splits)
  with k s(3) show ?thesis by simp
qed

lemma keyed_new: "keyed_ok H K new_group_table \<and> gt_map new_group_table = Map.empty \<and> gt_size new_group_table = 0"
proof -
  have "slots_ok 4 new_group_table \<and> gt_entries new_group_table = []"
    using empty_slots_ok [of 4] by (simp add: new_group_table_def initial_cap_def)
  then show ?thesis
    by (auto simp: keyed_ok_def gt_ok_def gt_map_def new_group_table_def empty_slots_def intro!: exI [of _ 4])
qed

lemma keyed_size: "keyed_ok H K t \<Longrightarrow> gt_size t = length (gt_entries t) \<and> table_each t = map snd (gt_entries t)"
  by (simp add: keyed_ok_def gt_ok_def table_each_def)

lemma keyed_each:
  assumes "keyed_ok H K t"
  shows "distinct (map ga_key (table_each t))" and "g \<in> set (table_each t) \<longleftrightarrow> gt_map t (ga_key g) = Some g"
  using assms by (auto simp: table_each_def keyed_ok_def gt_map_iff [OF assms] comp_def case_prod_unfold intro: rev_image_eqI)

section \<open>Keys\<close>

text \<open>The value \<open>readValue\<close> gives for a column of type \<open>t\<close>, and the keys over columns of the types \<open>ts\<close>.\<close>

definition canonical :: "column_type \<Rightarrow> value_t \<Rightarrow> bool" where
  "canonical t v \<longleftrightarrow>
     (case t of TypeString \<Rightarrow> v = string_value (vstr v) | TypeInt64 \<Rightarrow> v = int64_value (vi64 v)
      | TypeFloat64 \<Rightarrow> v = float64_value (vf64 v) | TypeOther _ \<Rightarrow> v = zero_value)"

definition key_ok :: "column_type list \<Rightarrow> value_t list \<Rightarrow> bool" where
  "key_ok ts key \<longleftrightarrow> list_all2 canonical ts key"

lemma canonical_values [simp]:
  "canonical TypeString (string_value s)" "canonical TypeInt64 (int64_value i)" "canonical TypeFloat64 (float64_value x)"
  "canonical (TypeOther n) zero_value"
  by (simp_all add: canonical_def)

lemma canonical_type: "canonical t v \<Longrightarrow> vtype v = (case t of TypeOther _ \<Rightarrow> TypeString | _ \<Rightarrow> t)"
  by (cases t) (auto simp: canonical_def zero_value_def dest: arg_cong [of _ _ vtype])

lemma f64_bits_inject: "f64_bits x = f64_bits y \<longleftrightarrow> x = y"
  by (cases x; cases y) simp

lemma dims_equal_iff: "key_ok ts a \<Longrightarrow> key_ok ts b \<Longrightarrow> dims_equal a b \<longleftrightarrow> a = b"
proof (induction ts arbitrary: a b)
  case Nil
  then show ?case by (simp add: key_ok_def)
next
  case (Cons t ts)
  from Cons.prems obtain v a' w b' where ab: "a = v # a'" "b = w # b'" "canonical t v" "canonical t w" "key_ok ts a'" "key_ok ts b'"
    by (auto simp: key_ok_def list_all2_Cons1)
  have "(vtype v = vtype w \<and> (case vtype v of TypeString \<Rightarrow> vstr v = vstr w | TypeInt64 \<Rightarrow> vi64 v = vi64 w
           | TypeFloat64 \<Rightarrow> f64_bits (vf64 v) = f64_bits (vf64 w) | TypeOther _ \<Rightarrow> True)) \<longleftrightarrow> v = w"
    using ab(3,4) canonical_type [OF ab(3)] canonical_type [OF ab(4)]
    by (cases t) (auto simp: canonical_def f64_bits_inject)
  then show ?case using Cons.IH [OF ab(5,6)] by (auto simp: ab)
qed

lemma single_key_ok:
  "key_ok [t] key \<longleftrightarrow> (\<exists>v. key = [v] \<and> canonical t v)"
  by (auto simp: key_ok_def list_all2_Cons1)

lemma single_match:
  "key_ok [TypeString] k \<Longrightarrow> (length k = 1 \<and> vtype (k ! 0) = TypeString \<and> vstr (k ! 0) = s) \<longleftrightarrow> k = [string_value s]"
  "key_ok [TypeInt64] k \<Longrightarrow> (length k = 1 \<and> vtype (k ! 0) = TypeInt64 \<and> vi64 (k ! 0) = i) \<longleftrightarrow> k = [int64_value i]"
  "key_ok [TypeFloat64] k \<Longrightarrow>
     (length k = 1 \<and> vtype (k ! 0) = TypeFloat64 \<and> f64_bits (vf64 (k ! 0)) = f64_bits x) \<longleftrightarrow> k = [float64_value x]"
  using canonical_type by (auto simp: single_key_ok canonical_def f64_bits_inject)

section \<open>Properties\<close>

text \<open>
  C11. The hash table is a finite map from keys to groups, whatever the hash function: a lookup ends, and finds
  the group of exactly that key or reports it absent; inserting an absent key succeeds (growing the table
  when the load factor asks for it), adds that entry and changes no other, and leaves a free slot.
\<close>

theorem group_table_map:
  assumes "keyed_ok H (key_ok ts) t" and "key_ok ts key"
  shows "(case find_by_dims (H key) key t of Found i \<Rightarrow> gt_map t key = gt_slots t ! i \<and> gt_map t key \<noteq> None
      | Absent \<Rightarrow> gt_map t key = None | Loops \<Rightarrow> False)
    \<and> (gt_map t key = None \<and> gt_size t < max_groups \<and> ga_key g = key \<longrightarrow>
        (\<exists>t'. insert_new (H key) g t = Some t' \<and> keyed_ok H (key_ok ts) t' \<and> gt_map t' = (gt_map t)(key \<mapsto> g)
           \<and> gt_size t' = gt_size t + 1 \<and> gt_size t' < length (gt_slots t')))"
proof (intro conjI impI)
  have "key_ok ts k \<Longrightarrow> dims_equal k key \<longleftrightarrow> k = key" for k using dims_equal_iff assms(2) by blast
  from keyed_find [OF assms, of "\<lambda>k. dims_equal k key", OF this]
  show "case find_by_dims (H key) key t of Found i \<Rightarrow> gt_map t key = gt_slots t ! i \<and> gt_map t key \<noteq> None
      | Absent \<Rightarrow> gt_map t key = None | Loops \<Rightarrow> False"
    by (auto simp: find_by_dims_def)
next
  assume a: "gt_map t key = None \<and> gt_size t < max_groups \<and> ga_key g = key"
  then obtain t' where t': "insert_new (H key) g t = Some t'" "keyed_ok H (key_ok ts) t'" "gt_size t' = Suc (gt_size t)"
      "gt_map t' = (gt_map t)(key \<mapsto> g)"
    using keyed_insert [OF assms(1), of g] assms(2) by auto
  from t'(2) have "gt_size t' < length (gt_slots t')"
    by (auto simp: keyed_ok_def gt_ok_def slots_ok_def)
  with t' show "\<exists>t'. insert_new (H key) g t = Some t' \<and> keyed_ok H (key_ok ts) t' \<and> gt_map t' = (gt_map t)(key \<mapsto> g)
           \<and> gt_size t' = gt_size t + 1 \<and> gt_size t' < length (gt_slots t')"
    by auto
qed

text \<open>Even when every key has the same hash.\<close>

theorem group_table_map_witness:
  "\<exists>t'. insert_new 7 \<lparr>ga_key = [string_value ''a''], ga_count = 1, ga_measures = []\<rparr> new_group_table = Some t'
     \<and> gt_map t' [string_value ''a''] = Some \<lparr>ga_key = [string_value ''a''], ga_count = 1, ga_measures = []\<rparr>"
  using group_table_map [of "\<lambda>_. 7" "[TypeString]" new_group_table "[string_value ''a'']"
      "\<lparr>ga_key = [string_value ''a''], ga_count = 1, ga_measures = []\<rparr>"] keyed_new [of "\<lambda>_. 7" "key_ok [TypeString]"]
  by (auto simp: max_groups_def single_key_ok)

end
