(* ===== verification/Aggregator.thy ===== *)
theory Aggregator
  imports GroupTable
begin

text \<open>
  \<open>internal/aggregate/aggregator.go\<close>: construction, adding batches, and merging.

  The seeded hash functions of \<open>hash/maphash\<close> are a parameter: the seed of an aggregator is the record of the
  functions it makes. \<open>AggPanic\<close> is a run-time panic (an index out of range or a nil dereference),
  \<open>AggLoops\<close> a probe that never ends. A new group is inserted and then updated through its pointer; as
  nothing reads the table in between, the model inserts the updated group. The scratch buffer \<open>keyBuf\<close> is
  not part of the state.
\<close>

record maphash =
  hash_string :: "string \<Rightarrow> u64"
  hash_int64 :: "i64 \<Rightarrow> u64"
  hash_uint64 :: "u64 \<Rightarrow> u64"
  hash_bytes :: "bytes \<Rightarrow> u64"

record aggregator =
  ag_schema :: schema
  ag_spec :: agg_spec
  group_by_idx :: "nat list"
  group_by_types :: "column_type list"
  measure_idx :: "nat list"
  measure_types :: "column_type list"
  ag_wants :: "measure_wants list"
  ag_table :: group_table
  ag_seed :: maphash

datatype agg_error =
    ErrDuplicateGroupBy string
  | ErrUnknownGroupBy string
  | ErrUnknownMeasure string
  | ErrNeedsNumeric string agg_func column_type
  | ErrColumnCount nat nat
  | ErrDifferentSpecs
  | ErrMergeTypes string column_type column_type
  | ErrPercentileState string
  | ErrKeyArity nat nat
  | ErrKeyType nat column_type column_type
  | ErrMeasureCount nat nat
  | ErrMeasureType nat column_type column_type
  | ErrHllPresence nat bool
  | ErrHllLength nat nat nat
  | AggPanic
  | AggLoops

section \<open>Construction\<close>

definition col_index :: "column_schema list \<Rightarrow> string \<Rightarrow> nat option" where
  "col_index cs = fold (\<lambda>(i, c) m. m(cs_name c \<mapsto> i)) (enumerate 0 cs) Map.empty"

fun resolve_group_by :: "schema \<Rightarrow> string list \<Rightarrow> string list \<Rightarrow> agg_error + (nat \<times> column_type) list" where
  "resolve_group_by s seen [] = Inr []"
| "resolve_group_by s seen (name # names) =
     (if name \<in> set seen then Inl (ErrDuplicateGroupBy name)
      else (case col_index (columns s) name of
          None \<Rightarrow> Inl (ErrUnknownGroupBy name)
        | Some idx \<Rightarrow>
            (case resolve_group_by s (name # seen) names of
               Inl e \<Rightarrow> Inl e
             | Inr rest \<Rightarrow> Inr ((idx, cs_type (columns s ! idx)) # rest))))"

fun resolve_wants :: "string \<Rightarrow> column_type \<Rightarrow> agg_func list \<Rightarrow> measure_wants \<Rightarrow> agg_error + measure_wants" where
  "resolve_wants col t [] w = Inr w"
| "resolve_wants col t (fn # fns) w =
     (if requires_numeric fn \<and> t \<noteq> TypeInt64 \<and> t \<noteq> TypeFloat64 then Inl (ErrNeedsNumeric col fn t)
      else resolve_wants col t fns
        (case af_kind fn of
           KindDistinct \<Rightarrow> w\<lparr>wants_distinct := True\<rparr>
         | KindPercentile \<Rightarrow> w\<lparr>wants_percentile := True\<rparr>
         | _ \<Rightarrow> w))"

fun resolve_measures :: "schema \<Rightarrow> measure_spec list \<Rightarrow> agg_error + (nat \<times> column_type \<times> measure_wants) list" where
  "resolve_measures s [] = Inr []"
| "resolve_measures s (ms # mss) =
     (case col_index (columns s) (ms_column ms) of
        None \<Rightarrow> Inl (ErrUnknownMeasure (ms_column ms))
      | Some idx \<Rightarrow>
          (let t = cs_type (columns s ! idx)
           in case resolve_wants (ms_column ms) t (ms_funcs ms) \<lparr>wants_distinct = False, wants_percentile = False\<rparr> of
                Inl e \<Rightarrow> Inl e
              | Inr w \<Rightarrow>
                  (case resolve_measures s mss of
                     Inl e \<Rightarrow> Inl e
                   | Inr rest \<Rightarrow> Inr ((idx, t, w) # rest))))"

definition new_aggregator :: "maphash \<Rightarrow> schema \<Rightarrow> agg_spec \<Rightarrow> agg_error + aggregator" where
  "new_aggregator seed s spec =
     (case resolve_group_by s [] (group_by spec) of
        Inl e \<Rightarrow> Inl e
      | Inr gs \<Rightarrow>
          (case resolve_measures s (measures spec) of
             Inl e \<Rightarrow> Inl e
           | Inr ms \<Rightarrow> Inr
               \<lparr>ag_schema = s, ag_spec = spec, group_by_idx = map fst gs, group_by_types = map snd gs,
                measure_idx = map fst ms, measure_types = map (fst \<circ> snd) ms, ag_wants = map (snd \<circ> snd) ms,
                ag_table = new_group_table, ag_seed = seed\<rparr>))"

section \<open>Adding a batch\<close>

text \<open>\<open>addMeasures\<close>; \<open>None\<close> where a slice index is out of range.\<close>

fun add_measures_loop :: "runtime_lib \<Rightarrow> batch \<Rightarrow> nat \<Rightarrow> nat list \<Rightarrow> measure_accum list \<Rightarrow> measure_accum list option" where
  "add_measures_loop lib b r [] ms = Some ms"
| "add_measures_loop lib b r (idx # idxs) [] = None"
| "add_measures_loop lib b r (idx # idxs) (m # ms) =
     (case nth_opt (cols b) idx of
        None \<Rightarrow> None
      | Some c \<Rightarrow>
          (case read_value c r of
             None \<Rightarrow> None
           | Some v \<Rightarrow> map_option ((#) (measure_add lib v m)) (add_measures_loop lib b r idxs ms)))"

definition add_measures :: "runtime_lib \<Rightarrow> aggregator \<Rightarrow> batch \<Rightarrow> nat \<Rightarrow> group_accum \<Rightarrow> group_accum option" where
  "add_measures lib a b r g =
     map_option (\<lambda>ms. g\<lparr>ga_count := ga_count g + 1, ga_measures := ms\<rparr>)
       (add_measures_loop lib b r (measure_idx a) (ga_measures g))"

text \<open>
  What the code does with the outcome of a lookup: update the group found, or insert a new one under the
  hash. \<open>upd None\<close> is the new group, \<open>upd (Some g)\<close> the updated one; \<open>None\<close> is a panic.
\<close>

definition upsert :: "find_result \<Rightarrow> u64 \<Rightarrow> (group_accum option \<Rightarrow> group_accum option) \<Rightarrow> group_table
    \<Rightarrow> agg_error + group_table" where
  "upsert found hash upd t =
     (case found of
        Loops \<Rightarrow> Inl AggLoops
      | Found i \<Rightarrow> (case upd (gt_slots t ! i) of None \<Rightarrow> Inl AggPanic | Some g \<Rightarrow> Inr (set_slot i g t))
      | Absent \<Rightarrow>
          (case upd None of
             None \<Rightarrow> Inl AggPanic
           | Some g \<Rightarrow> (case insert_new hash g t of None \<Rightarrow> Inl AggLoops | Some t' \<Rightarrow> Inr t')))"

definition upsert_group :: "find_result \<Rightarrow> u64 \<Rightarrow> (group_accum option \<Rightarrow> group_accum option) \<Rightarrow> aggregator
    \<Rightarrow> agg_error + aggregator" where
  "upsert_group found hash upd a = map_sum id (\<lambda>t. a\<lparr>ag_table := t\<rparr>) (upsert found hash upd (ag_table a))"

text \<open>The group a row goes to: \<open>newGroupAccum\<close> unless the lookup found one; then \<open>addMeasures\<close>.\<close>

definition row_update :: "runtime_lib \<Rightarrow> aggregator \<Rightarrow> batch \<Rightarrow> nat \<Rightarrow> value_t list \<Rightarrow> group_accum option \<Rightarrow> group_accum option" where
  "row_update lib a b r key g =
     add_measures lib a b r (case g of None \<Rightarrow> new_group_accum key (measure_types a) (ag_wants a) | Some g \<Rightarrow> g)"

definition add_string_row :: "runtime_lib \<Rightarrow> batch \<Rightarrow> column \<Rightarrow> nat \<Rightarrow> aggregator \<Rightarrow> agg_error + aggregator" where
  "add_string_row lib b col r a =
     (case nth_opt (strs col) r of
        None \<Rightarrow> Inl AggPanic
      | Some s \<Rightarrow>
          (let hash = hash_string (ag_seed a) s
           in upsert_group (find_by_string hash s (ag_table a)) hash (row_update lib a b r [string_value s]) a))"

definition add_int64_row :: "runtime_lib \<Rightarrow> batch \<Rightarrow> column \<Rightarrow> nat \<Rightarrow> aggregator \<Rightarrow> agg_error + aggregator" where
  "add_int64_row lib b col r a =
     (case nth_opt (i64s col) r of
        None \<Rightarrow> Inl AggPanic
      | Some v \<Rightarrow>
          (let hash = hash_int64 (ag_seed a) v
           in upsert_group (find_by_i64 hash v (ag_table a)) hash (row_update lib a b r [int64_value v]) a))"

definition add_float64_row :: "runtime_lib \<Rightarrow> batch \<Rightarrow> column \<Rightarrow> nat \<Rightarrow> aggregator \<Rightarrow> agg_error + aggregator" where
  "add_float64_row lib b col r a =
     (case nth_opt (f64s col) r of
        None \<Rightarrow> Inl AggPanic
      | Some v \<Rightarrow>
          (let hash = hash_uint64 (ag_seed a) (f64_bits v)
           in upsert_group (find_by_f64 hash v (ag_table a)) hash (row_update lib a b r [float64_value v]) a))"

definition read_dim :: "batch \<Rightarrow> nat \<Rightarrow> nat \<Rightarrow> agg_error + value_t" where
  "read_dim b r idx =
     (case nth_opt (cols b) idx of
        None \<Rightarrow> Inl AggPanic
      | Some c \<Rightarrow> (case read_value c r of None \<Rightarrow> Inl AggPanic | Some v \<Rightarrow> Inr v))"

definition add_dims_row :: "runtime_lib \<Rightarrow> batch \<Rightarrow> nat \<Rightarrow> aggregator \<Rightarrow> agg_error + aggregator" where
  "add_dims_row lib b r a =
     (case traverse (read_dim b r) (group_by_idx a) of
        Inl e \<Rightarrow> Inl e
      | Inr dims \<Rightarrow>
          (let hash = hash_bytes (ag_seed a) (encode_group_key dims)
           in upsert_group (find_by_dims hash dims (ag_table a)) hash (row_update lib a b r dims) a))"

text \<open>The row function \<open>Add\<close> chooses for a batch.\<close>

definition add_row :: "runtime_lib \<Rightarrow> batch \<Rightarrow> nat list \<Rightarrow> nat \<Rightarrow> aggregator \<Rightarrow> agg_error + aggregator" where
  "add_row lib b idxs =
     (case idxs of
        [idx] \<Rightarrow>
          (case nth_opt (cols b) idx of
             None \<Rightarrow> (\<lambda>_ _. Inl AggPanic)
           | Some col \<Rightarrow>
               (case col_type col of
                  TypeString \<Rightarrow> add_string_row lib b col
                | TypeInt64 \<Rightarrow> add_int64_row lib b col
                | TypeFloat64 \<Rightarrow> add_float64_row lib b col
                | TypeOther _ \<Rightarrow> add_dims_row lib b))
      | _ \<Rightarrow> add_dims_row lib b)"

definition agg_add :: "runtime_lib \<Rightarrow> batch \<Rightarrow> aggregator \<Rightarrow> agg_error + aggregator" where
  "agg_add lib b a =
     (if length (cols b) \<noteq> length (columns (ag_schema a))
      then Inl (ErrColumnCount (length (cols b)) (length (columns (ag_schema a))))
      else fold_res (add_row lib b (group_by_idx a)) [0..<num_rows b] a)"

section \<open>Merging\<close>

definition hash_key :: "maphash \<Rightarrow> value_t list \<Rightarrow> u64" where
  "hash_key seed key =
     (case key of
        [v] \<Rightarrow>
          (case vtype v of
             TypeString \<Rightarrow> hash_string seed (vstr v)
           | TypeInt64 \<Rightarrow> hash_int64 seed (vi64 v)
           | TypeFloat64 \<Rightarrow> hash_uint64 seed (f64_bits (vf64 v))
           | TypeOther _ \<Rightarrow> hash_bytes seed (encode_group_key key))
      | _ \<Rightarrow> hash_bytes seed (encode_group_key key))"

definition find_by_key :: "u64 \<Rightarrow> value_t list \<Rightarrow> group_table \<Rightarrow> find_result" where
  "find_by_key hash key =
     (case key of
        [v] \<Rightarrow>
          (case vtype v of
             TypeString \<Rightarrow> find_by_string hash (vstr v)
           | TypeInt64 \<Rightarrow> find_by_i64 hash (vi64 v)
           | TypeFloat64 \<Rightarrow> find_by_f64 hash (vf64 v)
           | TypeOther _ \<Rightarrow> find_by_dims hash key)
      | _ \<Rightarrow> find_by_dims hash key)"

text \<open>The body of the loops of \<open>Merge\<close> and \<open>MergeState\<close>: fold a group in, or take it over.\<close>

definition merge_group :: "runtime_lib \<Rightarrow> group_accum \<Rightarrow> aggregator \<Rightarrow> agg_error + aggregator" where
  "merge_group lib og a =
     (let hash = hash_key (ag_seed a) (ga_key og)
      in upsert_group (find_by_key hash (ga_key og) (ag_table a)) hash
           (\<lambda>g. case g of None \<Rightarrow> Some og | Some g \<Rightarrow> group_merge lib g og) a)"

definition agg_func_equal :: "agg_func \<Rightarrow> agg_func \<Rightarrow> bool" where
  "agg_func_equal f g \<longleftrightarrow> af_kind f = af_kind g \<and> f64_eq (af_q f) (af_q g)"

definition specs_equal :: "agg_spec \<Rightarrow> agg_spec \<Rightarrow> bool" where
  "specs_equal a b \<longleftrightarrow> group_by a = group_by b
     \<and> list_all2 (\<lambda>m n. ms_column m = ms_column n \<and> list_all2 agg_func_equal (ms_funcs m) (ms_funcs n)) (measures a) (measures b)"

text \<open>
  The loop over \<open>a.measureTypes\<close>; the specs are equal there, so both lists have the length of
  \<open>a.spec.Measures\<close>.
\<close>

fun merge_types :: "measure_spec list \<Rightarrow> column_type list \<Rightarrow> column_type list \<Rightarrow> agg_error + unit" where
  "merge_types mss [] us = Inr ()"
| "merge_types mss (t # ts) us =
     (case us of
        [] \<Rightarrow> Inl AggPanic
      | u # us' \<Rightarrow>
          (if t \<noteq> u then (case mss of [] \<Rightarrow> Inl AggPanic | ms # _ \<Rightarrow> Inl (ErrMergeTypes (ms_column ms) t u))
           else merge_types (tl mss) ts us'))"

definition agg_merge :: "runtime_lib \<Rightarrow> aggregator \<Rightarrow> aggregator \<Rightarrow> agg_error + aggregator" where
  "agg_merge lib a other =
     (if \<not> specs_equal (ag_spec a) (ag_spec other) then Inl ErrDifferentSpecs
      else (case merge_types (measures (ag_spec a)) (measure_types a) (measure_types other) of
          Inl e \<Rightarrow> Inl e
        | Inr _ \<Rightarrow> fold_res (merge_group lib) (table_each (ag_table other)) a))"

section \<open>Configurations\<close>

definition known_type :: "column_type \<Rightarrow> bool" where
  "known_type t \<longleftrightarrow> t = TypeString \<or> t = TypeInt64 \<or> t = TypeFloat64"

definition resolved :: "schema \<Rightarrow> nat \<Rightarrow> column_type \<Rightarrow> bool" where
  "resolved s i t \<longleftrightarrow> i < length (columns s) \<and> cs_type (columns s ! i) = t"

text \<open>What \<open>New\<close> establishes; the schema gives the group-by columns one of the three types.\<close>

definition config_ok :: "aggregator \<Rightarrow> bool" where
  "config_ok a \<longleftrightarrow> list_all2 (resolved (ag_schema a)) (group_by_idx a) (group_by_types a)
     \<and> list_all2 (resolved (ag_schema a)) (measure_idx a) (measure_types a)
     \<and> length (ag_wants a) = length (measure_types a) \<and> list_all known_type (group_by_types a)"

lemma col_index_lookup:
  "col_index cs name = Some i \<longleftrightarrow> i < length cs \<and> cs_name (cs ! i) = name \<and> (\<forall>j. i < j \<and> j < length cs \<longrightarrow> cs_name (cs ! j) \<noteq> name)"
proof (induction cs arbitrary: i rule: rev_induct)
  case Nil
  then show ?case by (simp add: col_index_def)
next
  case (snoc c cs)
  have "col_index (cs @ [c]) = (col_index cs)(cs_name c \<mapsto> length cs)"
    by (simp add: col_index_def enumerate_append_eq)
  moreover have "(\<forall>j. i < j \<and> j < Suc (length cs) \<longrightarrow> P j) \<longleftrightarrow> (\<forall>j. i < j \<and> j < length cs \<longrightarrow> P j) \<and> (i < length cs \<longrightarrow> P (length cs))" for P
    by (metis less_Suc_eq)
  ultimately show ?case
    using snoc.IH by (cases "i < length cs"; cases "cs_name c = name") (simp_all add: nth_append, auto)
qed

lemma resolved_ex: "list_all2 (resolved s) is ts \<Longrightarrow> i \<in> set is \<Longrightarrow> \<exists>t. resolved s i t"
  by (induction rule: list_all2_induct) auto

lemma config_okD:
  "config_ok a \<Longrightarrow> list_all2 (resolved (ag_schema a)) (group_by_idx a) (group_by_types a)"
  "config_ok a \<Longrightarrow> list_all2 (resolved (ag_schema a)) (measure_idx a) (measure_types a)"
  "config_ok a \<Longrightarrow> list_all known_type (group_by_types a)"
  by (simp_all add: config_ok_def)

lemma resolved_lookup: "col_index (columns s) name = Some i \<Longrightarrow> resolved s i (cs_type (columns s ! i))"
  by (simp add: resolved_def col_index_lookup)

lemma resolve_group_by_ok:
  "resolve_group_by s seen names = Inr gs \<Longrightarrow> list_all2 (resolved s) (map fst gs) (map snd gs)
     \<and> list_all2 (\<lambda>n i. col_index (columns s) n = Some i) names (map fst gs)"
  by (induction names arbitrary: seen gs) (auto simp: resolved_lookup split: if_splits option.splits sum.splits)

lemma resolve_measures_ok:
  "resolve_measures s mss = Inr ms \<Longrightarrow> list_all2 (resolved s) (map fst ms) (map (fst \<circ> snd) ms)"
proof (induction mss arbitrary: ms)
  case Nil
  then show ?case by simp
next
  case (Cons m mss)
  from Cons.prems obtain i w rest where "col_index (columns s) (ms_column m) = Some i" "resolve_measures s mss = Inr rest"
      "ms = (i, cs_type (columns s ! i), w) # rest"
    by (auto simp: Let_def split: option.splits sum.splits)
  then show ?case using Cons.IH resolved_lookup by auto
qed

lemma new_aggregator_ok:
  assumes "new_aggregator seed s spec = Inr a" and "\<forall>c \<in> set (columns s). known_type (cs_type c)"
  shows "config_ok a" and "ag_table a = new_group_table" and "ag_schema a = s" and "ag_spec a = spec" and "ag_seed a = seed"
proof -
  obtain gs ms where gm: "resolve_group_by s [] (group_by spec) = Inr gs" "resolve_measures s (measures spec) = Inr ms"
    and a: "a = \<lparr>ag_schema = s, ag_spec = spec, group_by_idx = map fst gs, group_by_types = map snd gs,
                measure_idx = map fst ms, measure_types = map (fst \<circ> snd) ms, ag_wants = map (snd \<circ> snd) ms,
                ag_table = new_group_table, ag_seed = seed\<rparr>"
    using assms(1) by (auto simp: new_aggregator_def split: sum.splits)
  have "known_type t" if "t \<in> set (map snd gs)" for t
  proof -
    from that obtain i where "i < length gs" "t = map snd gs ! i" by (auto simp: in_set_conv_nth)
    then have "resolved s (map fst gs ! i) t"
      using conjunct1 [OF resolve_group_by_ok [OF gm(1)]] by (auto simp: list_all2_conv_all_nth)
    then show ?thesis using assms(2) by (auto simp: resolved_def)
  qed
  then show "config_ok a"
    using resolve_group_by_ok [OF gm(1)] resolve_measures_ok [OF gm(2)] by (simp add: config_ok_def a list_all_iff)
  show "ag_table a = new_group_table" "ag_schema a = s" "ag_spec a = spec" "ag_seed a = seed" by (simp_all add: a)
qed

section \<open>Rows\<close>

text \<open>A row as the aggregator sees it: its group key and the values of its measure columns.\<close>

type_synonym agg_row = "value_t list \<times> value_t list"

definition cell :: "batch \<Rightarrow> nat \<Rightarrow> nat \<Rightarrow> value_t" where
  "cell b r i = the (read_value (cols b ! i) r)"

definition row_of :: "aggregator \<Rightarrow> batch \<Rightarrow> nat \<Rightarrow> agg_row" where
  "row_of a b r = (map (cell b r) (group_by_idx a), map (cell b r) (measure_idx a))"

definition rows_of :: "aggregator \<Rightarrow> batch \<Rightarrow> agg_row list" where
  "rows_of a b = map (row_of a b) [0..<num_rows b]"

definition group_add :: "runtime_lib \<Rightarrow> value_t list \<Rightarrow> group_accum \<Rightarrow> group_accum" where
  "group_add lib vs g = g\<lparr>ga_count := ga_count g + 1, ga_measures := map2 (measure_add lib) vs (ga_measures g)\<rparr>"

definition new_group :: "aggregator \<Rightarrow> value_t list \<Rightarrow> group_accum" where
  "new_group a key = new_group_accum key (measure_types a) (ag_wants a)"

definition add_to_group :: "runtime_lib \<Rightarrow> aggregator \<Rightarrow> agg_row \<Rightarrow> group_accum option \<Rightarrow> group_accum" where
  "add_to_group lib a row g = group_add lib (snd row) (case g of None \<Rightarrow> new_group a (fst row) | Some g \<Rightarrow> g)"

lemma canonical_read:
  assumes "wf_column n t c" and "r < n"
  shows "\<exists>v. read_value c r = Some v \<and> canonical t v"
  using assms by (cases t) (auto simp: wf_column_def read_value_def nth_opt_def)

lemma cell_ok:
  assumes "wf_batch s b" and "r < num_rows b" and "resolved s i t"
  shows "nth_opt (cols b) i = Some (cols b ! i)" and "col_type (cols b ! i) = t"
    and "read_value (cols b ! i) r = Some (cell b r i)" and "canonical t (cell b r i)"
proof -
  have i: "i < length (cols b)" using assms wf_batch_length by (auto simp: resolved_def)
  then show "nth_opt (cols b) i = Some (cols b ! i)" by (simp add: nth_opt_def)
  have w: "wf_column (num_rows b) t (cols b ! i)"
    using assms i by (auto simp: wf_batch_def resolved_def list_all2_conv_all_nth)
  then show "col_type (cols b ! i) = t" by (simp add: wf_column_def)
  show "read_value (cols b ! i) r = Some (cell b r i)" "canonical t (cell b r i)"
    using canonical_read [OF w assms(2)] by (auto simp: cell_def)
qed

lemma row_key_ok:
  assumes "config_ok a" and "wf_batch (ag_schema a) b" and "r < num_rows b"
  shows "key_ok (group_by_types a) (fst (row_of a b r))"
  using assms cell_ok(4) [OF assms(2,3)]
  by (auto simp: key_ok_def row_of_def config_ok_def list_all2_conv_all_nth)

lemma read_dims:
  assumes "config_ok a" and "wf_batch (ag_schema a) b" and "r < num_rows b"
  shows "traverse (read_dim b r) (group_by_idx a) = Inr (fst (row_of a b r))"
proof -
  have "read_dim b r i = Inr (cell b r i)" if i: "i \<in> set (group_by_idx a)" for i
  proof -
    obtain t where "resolved (ag_schema a) i t"
      using resolved_ex [OF config_okD(1) [OF assms(1)] i] by blast
    from cell_ok [OF assms(2,3) this] show ?thesis by (simp add: read_dim_def)
  qed
  then show ?thesis by (simp add: row_of_def traverse_map_Inr)
qed

lemma add_measures_loop_ok:
  assumes "\<And>i. i \<in> set idxs \<Longrightarrow> nth_opt (cols b) i = Some (cols b ! i) \<and> read_value (cols b ! i) r = Some (cell b r i)"
    and "length idxs = length ms"
  shows "add_measures_loop lib b r idxs ms = Some (map2 (measure_add lib) (map (cell b r) idxs) ms)"
  using assms(2,1) by (induction idxs ms rule: list_induct2) auto

lemma row_update_ok:
  assumes "config_ok a" and "wf_batch (ag_schema a) b" and "r < num_rows b"
    and "\<And>g'. g = Some g' \<Longrightarrow> length (ga_measures g') = length (measure_idx a)"
  shows "row_update lib a b r (fst (row_of a b r)) g = Some (add_to_group lib a (row_of a b r) g)"
proof -
  define g0 where "g0 = (case g of None \<Rightarrow> new_group a (fst (row_of a b r)) | Some g \<Rightarrow> g)"
  have len: "length (measure_idx a) = length (ga_measures g0)"
    using assms(1,4) by (cases g)
      (auto simp: g0_def new_group_def new_group_accum_def config_ok_def dest: list_all2_lengthD)
  have "nth_opt (cols b) i = Some (cols b ! i) \<and> read_value (cols b ! i) r = Some (cell b r i)" if i: "i \<in> set (measure_idx a)" for i
  proof -
    obtain t where "resolved (ag_schema a) i t"
      using resolved_ex [OF config_okD(2) [OF assms(1)] i] by blast
    from cell_ok [OF assms(2,3) this] show ?thesis by simp
  qed
  from add_measures_loop_ok [OF this len] have "add_measures lib a b r g0 = Some (group_add lib (snd (row_of a b r)) g0)"
    by (simp add: add_measures_def group_add_def row_of_def)
  then show ?thesis by (cases g) (simp_all add: row_update_def add_to_group_def g0_def new_group_def)
qed

section \<open>Dispatch on the key\<close>

text \<open>
  On keys of one of the three types, the paths of \<open>Add\<close>, specialised to a single group-by column or not,
  do what \<open>hashKey\<close> and \<open>findByKey\<close> do.
\<close>

lemma find_by_key_match:
  assumes "key_ok ts key" and "list_all known_type ts"
  shows "\<exists>match. (\<forall>hash t. find_by_key hash key t = find_by match hash t) \<and> (\<forall>k. key_ok ts k \<longrightarrow> match k = (k = key))"
proof (cases "\<exists>t v. ts = [t] \<and> key = [v]")
  case True
  then obtain t v where tv: "ts = [t]" "key = [v]" "canonical t v" "known_type t"
    using assms by (auto simp: single_key_ok)
  then consider "t = TypeString" "v = string_value (vstr v)" | "t = TypeInt64" "v = int64_value (vi64 v)"
    | "t = TypeFloat64" "v = float64_value (vf64 v)"
    by (auto simp: known_type_def canonical_def)
  then show ?thesis
  proof cases
    case 1
    moreover from this have "vtype v = TypeString" by (metis value_simps(1))
    ultimately show ?thesis unfolding tv(1,2)
      by (intro exI [of _ "\<lambda>key. length key = 1 \<and> vtype (key ! 0) = TypeString \<and> vstr (key ! 0) = vstr v"])
        (simp add: find_by_key_def find_by_string_def single_match(1) del: One_nat_def)
  next
    case 2
    moreover from this have "vtype v = TypeInt64" by (metis value_simps(3))
    ultimately show ?thesis unfolding tv(1,2)
      by (intro exI [of _ "\<lambda>key. length key = 1 \<and> vtype (key ! 0) = TypeInt64 \<and> vi64 (key ! 0) = vi64 v"])
        (simp add: find_by_key_def find_by_i64_def single_match(2) del: One_nat_def)
  next
    case 3
    moreover from this have "vtype v = TypeFloat64" by (metis value_simps(5))
    ultimately show ?thesis unfolding tv(1,2)
      by (intro exI [of _ "\<lambda>key. length key = 1 \<and> vtype (key ! 0) = TypeFloat64 \<and> f64_bits (vf64 (key ! 0)) = f64_bits (vf64 v)"])
        (simp add: find_by_key_def find_by_f64_def single_match(3) del: One_nat_def)
  qed
next
  case False
  then have "find_by_key hash key t = find_by_dims hash key t" for hash t
    using assms(1) by (auto simp: find_by_key_def key_ok_def list_all2_Cons2 split: list.splits)
  then show ?thesis
    using assms(1) dims_equal_iff by (intro exI [of _ "\<lambda>k. dims_equal k key"]) (auto simp: find_by_dims_def)
qed

lemma add_row_dispatch:
  assumes "config_ok a" and "wf_batch (ag_schema a) b" and "r < num_rows b" and key: "key = fst (row_of a b r)"
  shows "add_row lib b (group_by_idx a) r a
     = (let hash = hash_key (ag_seed a) key
        in upsert_group (find_by_key hash key (ag_table a)) hash (row_update lib a b r key) a)"
proof (cases "\<exists>idx. group_by_idx a = [idx]")
  case False
  then have "add_row lib b (group_by_idx a) r a = add_dims_row lib b r a"
    by (auto simp: add_row_def split: list.splits)
  moreover have "\<nexists>v. key = [v]" using False by (auto simp: key row_of_def)
  then have "hash_key (ag_seed a) key = hash_bytes (ag_seed a) (encode_group_key key)"
      "find_by_key hash key = find_by_dims hash key" for hash
    by (auto simp: hash_key_def find_by_key_def split: list.splits)
  ultimately show ?thesis
    using read_dims [OF assms(1-3)] key by (simp add: add_dims_row_def Let_def)
next
  case True
  then obtain idx t where idx: "group_by_idx a = [idx]" "group_by_types a = [t]" "resolved (ag_schema a) idx t" "known_type t"
    using assms(1) by (auto simp: config_ok_def list_all2_Cons1)
  note c = cell_ok [OF assms(2,3) idx(3)]
  have k: "key = [cell b r idx]" using idx(1) by (simp add: key row_of_def)
  consider "t = TypeString" | "t = TypeInt64" | "t = TypeFloat64" using idx(4) by (auto simp: known_type_def)
  then show ?thesis
  proof cases
    case 1
    then obtain s where "nth_opt (strs (cols b ! idx)) r = Some s" "cell b r idx = string_value s"
      using c(2,3) by (auto simp: read_value_def)
    then show ?thesis using 1 c by (simp add: add_row_def idx k add_string_row_def hash_key_def find_by_key_def Let_def)
  next
    case 2
    then obtain v where "nth_opt (i64s (cols b ! idx)) r = Some v" "cell b r idx = int64_value v"
      using c(2,3) by (auto simp: read_value_def)
    then show ?thesis using 2 c by (simp add: add_row_def idx k add_int64_row_def hash_key_def find_by_key_def Let_def)
  next
    case 3
    then obtain v where "nth_opt (f64s (cols b ! idx)) r = Some v" "cell b r idx = float64_value v"
      using c(2,3) by (auto simp: read_value_def)
    then show ?thesis using 3 c by (simp add: add_row_def idx k add_float64_row_def hash_key_def find_by_key_def Let_def)
  qed
qed

section \<open>What adding leaves alone\<close>

definition same_but_table :: "aggregator \<Rightarrow> aggregator \<Rightarrow> bool" where
  "same_but_table a a' \<longleftrightarrow> a' = a\<lparr>ag_table := ag_table a'\<rparr>"

lemma same_but_table_trans: "same_but_table a b \<Longrightarrow> same_but_table b c \<Longrightarrow> same_but_table a c"
  unfolding same_but_table_def by (metis aggregator.update_convs(8) aggregator.surjective)

lemma upsert_group_frame: "upsert_group found hash upd a = Inr a' \<Longrightarrow> same_but_table a a'"
  by (auto simp: upsert_group_def same_but_table_def map_sum_def split: sum.splits)

lemma add_row_frame: "add_row lib b idxs r a = Inr a' \<Longrightarrow> same_but_table a a'"
  by (auto simp: add_row_def add_string_row_def add_int64_row_def add_float64_row_def add_dims_row_def Let_def
      intro: upsert_group_frame split: list.splits option.splits column_type.splits sum.splits)

lemma fold_res_frame:
  assumes "\<And>r a a'. step r a = Inr a' \<Longrightarrow> same_but_table a a'" and "fold_res step rs a = Inr a'"
  shows "same_but_table a a'"
  using assms(2)
proof (induction rs arbitrary: a)
  case Nil
  then show ?case by (simp add: same_but_table_def)
next
  case (Cons r rs)
  then obtain b where "step r a = Inr b" "fold_res step rs b = Inr a'" by (auto split: sum.splits)
  with assms(1) [OF this(1)] Cons.IH [OF this(2)] show ?case by (blast intro: same_but_table_trans)
qed

lemma agg_add_frame: "agg_add lib b a = Inr a' \<Longrightarrow> same_but_table a a'"
  using fold_res_frame [of "add_row lib b (group_by_idx a)"] add_row_frame by (auto simp: agg_add_def split: if_splits)

lemma same_but_table_fields:
  "same_but_table a a' \<Longrightarrow> ag_schema a' = ag_schema a \<and> ag_spec a' = ag_spec a \<and> measure_types a' = measure_types a \<and> ag_seed a' = ag_seed a"
  unfolding same_but_table_def by (metis aggregator.select_convs(1,2,6,9) aggregator.surjective aggregator.update_convs(8))

section \<open>The aggregator as a map from keys to groups\<close>

definition groups :: "aggregator \<Rightarrow> value_t list \<Rightarrow> group_accum option" where
  "groups a = gt_map (ag_table a)"

text \<open>The measures of a group have the types and the optional structures \<open>New\<close> resolved.\<close>

definition measure_shape :: "column_type \<Rightarrow> measure_wants \<Rightarrow> measure_accum \<Rightarrow> bool" where
  "measure_shape t w m \<longleftrightarrow> ma_type m = t \<and> (case distinct_hll m of None \<Rightarrow> \<not> wants_distinct w | Some h \<Rightarrow> wants_distinct w \<and> hll_ok h)
     \<and> (digest m \<noteq> None \<longleftrightarrow> wants_percentile w)"

definition group_shape :: "aggregator \<Rightarrow> group_accum \<Rightarrow> bool" where
  "group_shape a g \<longleftrightarrow> list_all2 (\<lambda>(t, w). measure_shape t w) (zip (measure_types a) (ag_wants a)) (ga_measures g)"

text \<open>The invariant of the states an aggregator with the configuration of \<open>a0\<close> goes through.\<close>

definition agg_inv :: "aggregator \<Rightarrow> aggregator \<Rightarrow> bool" where
  "agg_inv a0 a \<longleftrightarrow> config_ok a0 \<and> a = a0\<lparr>ag_table := ag_table a\<rparr>
     \<and> keyed_ok (hash_key (ag_seed a0)) (key_ok (group_by_types a0)) (ag_table a)
     \<and> (\<forall>g \<in> ran (groups a). group_shape a0 g)"

lemma upsert_law:
  assumes "keyed_ok H K t" and "K key" and "\<And>k. K k \<Longrightarrow> match k \<longleftrightarrow> k = key"
    and upd: "upd (gt_map t key) = Some g'" "ga_key g' = key" and "gt_size t < max_groups"
  shows "\<exists>t'. upsert (find_by match (H key) t) (H key) upd t = Inr t' \<and> keyed_ok H K t'
     \<and> gt_map t' = (gt_map t)(key \<mapsto> g') \<and> gt_size t' \<le> Suc (gt_size t)"
proof (cases "gt_map t key")
  case None
  then have "find_by match (H key) t = Absent" using keyed_find [OF assms(1-3)] by auto
  moreover obtain t' where "insert_new (H key) g' t = Some t'" "keyed_ok H K t'" "gt_size t' = Suc (gt_size t)"
      "gt_map t' = (gt_map t)(key \<mapsto> g')"
    using keyed_insert [OF assms(1), of g'] None assms(2,6) upd(2) by auto
  ultimately show ?thesis using upd None by (simp add: upsert_def)
next
  case (Some g)
  then obtain i where i: "find_by match (H key) t = Found i" "i < length (gt_slots t)" "gt_full t ! i"
      "gt_hashes t ! i = H key" "gt_slots t ! i = Some g"
    using keyed_find [OF assms(1-3)] by auto
  have k: "ga_key g = key" using gt_map_key [OF assms(1) Some] by simp
  with keyed_set [OF assms(1) i(2,3), of g g'] i(4,5) upd(2) Some
  have "keyed_ok H K (set_slot i g' t)" "gt_map (set_slot i g' t) = (gt_map t)(key \<mapsto> g')" "gt_size (set_slot i g' t) = gt_size t"
    by simp_all
  then show ?thesis using i upd Some by (simp add: upsert_def)
qed

lemma upsert_group_law:
  assumes "agg_inv a0 a" and "key_ok (group_by_types a0) key" and "hash = hash_key (ag_seed a) key"
    and upd: "upd (groups a key) = Some g'" "ga_key g' = key" "group_shape a0 g'" and "gt_size (ag_table a) < max_groups"
  shows "\<exists>a'. upsert_group (find_by_key hash key (ag_table a)) hash upd a = Inr a' \<and> agg_inv a0 a'
     \<and> groups a' = (groups a)(key \<mapsto> g') \<and> gt_size (ag_table a') \<le> Suc (gt_size (ag_table a))"
proof -
  define H where "H = hash_key (ag_seed a0)"
  define K where "K = key_ok (group_by_types a0)"
  have inv: "config_ok a0" "a = a0\<lparr>ag_table := ag_table a\<rparr>" "keyed_ok H K (ag_table a)" "\<forall>g \<in> ran (groups a). group_shape a0 g"
    using assms(1) by (simp_all add: agg_inv_def H_def K_def)
  have hash: "hash = H key" using assms(3) inv(2) by (metis H_def aggregator.select_convs(9) aggregator.surjective aggregator.update_convs(8))
  obtain match where m: "\<And>hash t. find_by_key hash key t = find_by match hash t" "\<And>k. K k \<Longrightarrow> match k \<longleftrightarrow> k = key"
    using find_by_key_match [OF assms(2) config_okD(3) [OF inv(1)]] by (auto simp: K_def)
  obtain t' where t': "upsert (find_by match (H key) (ag_table a)) (H key) upd (ag_table a) = Inr t'" "keyed_ok H K t'"
      "gt_map t' = (gt_map (ag_table a))(key \<mapsto> g')" "gt_size t' \<le> Suc (gt_size (ag_table a))"
    using upsert_law [OF inv(3) _ m(2), of upd g'] assms(2,7) upd(1,2) by (auto simp: K_def groups_def)
  define a' where "a' = a\<lparr>ag_table := t'\<rparr>"
  have "groups a' = (groups a)(key \<mapsto> g')" using t'(3) by (simp add: groups_def a'_def)
  moreover have "ran ((groups a)(key \<mapsto> g')) \<subseteq> insert g' (ran (groups a))" by (auto simp: ran_def)
  moreover have "a' = a0\<lparr>ag_table := ag_table a'\<rparr>" using inv(2) by (metis a'_def aggregator.select_convs(8) aggregator.surjective aggregator.update_convs(8))
  ultimately have "agg_inv a0 a'"
    using inv t'(2) upd(3) by (auto simp: agg_inv_def a'_def H_def K_def)
  moreover have "upsert_group (find_by_key hash key (ag_table a)) hash upd a = Inr a'"
    using t'(1) by (simp add: upsert_group_def m(1) hash a'_def)
  ultimately show ?thesis using t'(4) \<open>groups a' = (groups a)(key \<mapsto> g')\<close> by (auto simp: a'_def)
qed

section \<open>Adding rows\<close>

lemma new_measure_shape: "measure_shape t w (new_measure_accum t w)"
  by (simp add: measure_shape_def)

lemma add_measure_shape: "measure_shape t w m \<Longrightarrow> measure_shape t w (measure_add lib v m)"
  by (auto simp: measure_shape_def split: option.splits)

lemma new_group_shape: "config_ok a \<Longrightarrow> group_shape a (new_group a key)"
  by (auto simp: group_shape_def new_group_def new_group_accum_def config_ok_def list_all2_conv_all_nth new_measure_shape)

lemma group_shape_length: "config_ok a \<Longrightarrow> group_shape a g \<Longrightarrow> length (ga_measures g) = length (measure_idx a)"
  by (auto simp: group_shape_def config_ok_def dest!: list_all2_lengthD)

lemma group_add_shape:
  assumes "group_shape a g" and "length vs = length (ga_measures g)"
  shows "group_shape a (group_add lib vs g)"
  using assms unfolding group_shape_def group_add_def list_all2_conv_all_nth
  by (clarsimp, metis add_measure_shape min_less_iff_conj)

lemma add_to_group_shape:
  assumes "config_ok a" and "length (snd row) = length (measure_idx a)" and "\<And>g'. g = Some g' \<Longrightarrow> group_shape a g'"
  shows "group_shape a (add_to_group lib a row g)"
proof -
  have "group_shape a (case g of None \<Rightarrow> new_group a (fst row) | Some g \<Rightarrow> g)"
    using assms new_group_shape by (cases g) auto
  then show ?thesis
    unfolding add_to_group_def using group_shape_length [OF assms(1)] assms(2) by (intro group_add_shape) auto
qed

lemma add_to_group_key: "(\<And>g'. g = Some g' \<Longrightarrow> ga_key g' = fst row) \<Longrightarrow> ga_key (add_to_group lib a row g) = fst row"
  by (cases g) (simp_all add: add_to_group_def group_add_def new_group_def new_group_accum_def)

lemma same_config:
  assumes "agg_inv a0 a"
  shows "ag_schema a = ag_schema a0" "ag_spec a = ag_spec a0" "group_by_idx a = group_by_idx a0" "group_by_types a = group_by_types a0"
    "measure_idx a = measure_idx a0" "measure_types a = measure_types a0" "ag_wants a = ag_wants a0" "ag_seed a = ag_seed a0"
    "config_ok a" "row_of a = row_of a0" "rows_of a = rows_of a0" "add_to_group lib a = add_to_group lib a0"
proof -
  define t where "t = ag_table a"
  have a: "a = a0\<lparr>ag_table := t\<rparr>" and c: "config_ok a0" using assms by (simp_all add: agg_inv_def t_def)
  show "ag_schema a = ag_schema a0" "ag_spec a = ag_spec a0" "group_by_idx a = group_by_idx a0" "group_by_types a = group_by_types a0"
    "measure_idx a = measure_idx a0" "measure_types a = measure_types a0" "ag_wants a = ag_wants a0" "ag_seed a = ag_seed a0"
    by (simp_all add: a)
  show "config_ok a" using c by (simp add: a config_ok_def)
  show "row_of a = row_of a0" by (simp add: a row_of_def fun_eq_iff)
  then show "rows_of a = rows_of a0" by (simp add: a rows_of_def fun_eq_iff)
  show "add_to_group lib a = add_to_group lib a0"
    by (simp add: a add_to_group_def new_group_def fun_eq_iff cong: option.case_cong)
qed

lemma groups_key: "agg_inv a0 a \<Longrightarrow> groups a key = Some g \<Longrightarrow> ga_key g = key \<and> key_ok (group_by_types a0) key \<and> group_shape a0 g"
  unfolding agg_inv_def groups_def using gt_map_key by (blast intro: ranI)

lemma add_row_law:
  assumes "agg_inv a0 a" and "wf_batch (ag_schema a0) b" and "r < num_rows b" and "gt_size (ag_table a) < max_groups"
  shows "\<exists>a'. add_row lib b (group_by_idx a0) r a = Inr a' \<and> agg_inv a0 a'
     \<and> groups a' = (groups a)(fst (row_of a0 b r) \<mapsto> add_to_group lib a0 (row_of a0 b r) (groups a (fst (row_of a0 b r))))
     \<and> gt_size (ag_table a') \<le> Suc (gt_size (ag_table a))"
proof -
  note same = same_config [OF assms(1)]
  define row where "row = row_of a0 b r"
  have row: "row_of a b r = row" by (simp add: row_def same)
  have wf: "wf_batch (ag_schema a) b" using assms(2) by (simp add: same)
  have g: "g = Some g' \<Longrightarrow> ga_key g' = fst row \<and> group_shape a0 g'" if "g = groups a (fst row)" for g g'
    using groups_key [OF assms(1)] that by auto
  have len: "length (ga_measures g') = length (measure_idx a)" if "groups a (fst row) = Some g'" for g'
    using group_shape_length [of a0 g'] g [OF refl that] assms(1) by (simp add: same agg_inv_def)
  have upd: "row_update lib a b r (fst row) (groups a (fst row)) = Some (add_to_group lib a0 row (groups a (fst row)))"
    using row_update_ok [OF same(9) wf assms(3), of "groups a (fst row)", OF len] by (simp add: same row_def)
  have key: "key_ok (group_by_types a0) (fst row)" using row_key_ok [OF same(9) wf assms(3)] by (simp add: same row_def)
  have shape: "group_shape a0 (add_to_group lib a0 row (groups a (fst row)))"
    using assms(1) g by (intro add_to_group_shape) (auto simp: agg_inv_def row_def row_of_def)
  have "ga_key (add_to_group lib a0 row (groups a (fst row))) = fst row"
    using g by (intro add_to_group_key) auto
  from upsert_group_law [where upd = "row_update lib a b r (fst row)", OF assms(1) key refl upd this shape assms(4)] show ?thesis
    using add_row_dispatch [OF same(9) wf assms(3) row [symmetric, THEN arg_cong [of _ _ fst]]]
    by (simp add: Let_def row_def [symmetric] same)
qed

interpretation adds: keyed_fold "agg_inv a0" groups "\<lambda>a. gt_size (ag_table a)" max_groups
    "\<lambda>r. wf_batch (ag_schema a0) b \<and> r < num_rows b" "add_row lib b (group_by_idx a0)" "\<lambda>r. fst (row_of a0 b r)"
    "\<lambda>r. add_to_group lib a0 (row_of a0 b r)" for lib a0 b
  by unfold_locales (rule add_row_law, simp_all)

definition groups_after :: "runtime_lib \<Rightarrow> aggregator \<Rightarrow> agg_row list \<Rightarrow> value_t list \<Rightarrow> group_accum option \<Rightarrow> group_accum option" where
  "groups_after lib a rows = entry_after fst (add_to_group lib a) rows"

lemma agg_add_law:
  assumes inv: "agg_inv a0 a" and "wf_batch (ag_schema a0) b" and "gt_size (ag_table a) + num_rows b \<le> max_groups"
  shows "\<exists>a'. agg_add lib b a = Inr a' \<and> agg_inv a0 a' \<and> gt_size (ag_table a') \<le> gt_size (ag_table a) + num_rows b
     \<and> (\<forall>k. groups a' k = groups_after lib a0 (rows_of a0 b) k (groups a k))"
proof -
  obtain a' where a': "fold_res (add_row lib b (group_by_idx a0)) [0..<num_rows b] a = Inr a'" "agg_inv a0 a'"
      "gt_size (ag_table a') \<le> gt_size (ag_table a) + num_rows b"
      "\<forall>k. groups a' k = entry_after (\<lambda>r. fst (row_of a0 b r)) (\<lambda>r. add_to_group lib a0 (row_of a0 b r)) [0..<num_rows b] k (groups a k)"
    using adds.fold_law [OF inv, of "[0..<num_rows b]" b lib] assms by auto
  have "entry_after (\<lambda>r. fst (row_of a0 b r)) (\<lambda>r. add_to_group lib a0 (row_of a0 b r)) rs k e
      = groups_after lib a0 (map (row_of a0 b) rs) k e" for rs k e
    by (induction rs arbitrary: e) (simp_all add: groups_after_def)
  moreover have "agg_add lib b a = fold_res (add_row lib b (group_by_idx a0)) [0..<num_rows b] a"
    using wf_batch_length [OF assms(2)] by (simp add: agg_add_def same_config [OF inv])
  ultimately show ?thesis using a' by (simp add: rows_of_def)
qed

end
