(* ===== verification/GroupBy.thy ===== *)
theory GroupBy
  imports Aggregator
begin

text \<open>
  What an aggregator promises, without its hash table: for every key the count and the measures of the
  rows with that key. \<open>holds\<close> relates an aggregator to the rows it has taken in, directly or through
  merges of other aggregators; adding, merging and exporting states are proved against it.
\<close>

section \<open>The group-by specification\<close>

definition rows_with :: "value_t list \<Rightarrow> agg_row list \<Rightarrow> value_t list list" where
  "rows_with k rows = map snd (filter (\<lambda>row. fst row = k) rows)"

text \<open>The values of measure \<open>i\<close>.\<close>

definition measure_column :: "nat \<Rightarrow> value_t list list \<Rightarrow> value_t list" where
  "measure_column i vss = map (\<lambda>vs. vs ! i) vss"

definition group_of :: "runtime_lib \<Rightarrow> aggregator \<Rightarrow> value_t list \<Rightarrow> agg_row list \<Rightarrow> group_accum" where
  "group_of lib a k rows =
     \<lparr>ga_key = k, ga_count = of_nat (length (rows_with k rows)),
      ga_measures = map (\<lambda>i. measured lib (measure_types a ! i) (ag_wants a ! i) (measure_column i (rows_with k rows)))
        [0..<length (measure_types a)]\<rparr>"

definition group_spec :: "runtime_lib \<Rightarrow> aggregator \<Rightarrow> agg_row list \<Rightarrow> value_t list \<Rightarrow> group_accum option" where
  "group_spec lib a rows k = (if rows_with k rows = [] then None else Some (group_of lib a k rows))"

lemma rows_with_append [simp]: "rows_with k (xs @ ys) = rows_with k xs @ rows_with k ys"
  by (simp add: rows_with_def)

lemma rows_with_Nil [simp]: "rows_with k [] = []"
  by (simp add: rows_with_def)

lemma rows_with_empty: "rows_with k rows = [] \<longleftrightarrow> k \<notin> fst ` set rows"
  by (auto simp: rows_with_def filter_empty_conv)

lemma measure_column_append [simp]: "measure_column i (xs @ ys) = measure_column i xs @ measure_column i ys"
  by (simp add: measure_column_def)

lemma group_of_snoc:
  assumes "config_ok a" and "length vs = length (measure_types a)"
  shows "group_of lib a k (rows @ [(k, vs)]) = group_add lib vs (group_of lib a k rows)"
  using assms by (auto simp: group_of_def group_add_def rows_with_def measure_column_def intro!: nth_equalityI)

lemma group_of_new:
  assumes "config_ok a" and "rows_with k rows = []"
  shows "group_of lib a k rows = new_group a k"
  using assms by (auto simp: group_of_def new_group_def new_group_accum_def measure_column_def config_ok_def intro!: nth_equalityI)

lemma groups_after_spec:
  assumes "config_ok a" and "\<forall>row \<in> set rows. length (snd row) = length (measure_types a)"
  shows "groups_after lib a rows k None = group_spec lib a rows k"
  using assms(2)
proof (induction rows rule: rev_induct)
  case Nil
  then show ?case by (simp add: groups_after_def group_spec_def)
next
  case (snoc row rows)
  obtain k' vs where row: "row = (k', vs)" by fastforce
  have e: "groups_after lib a (rows @ [row]) k None
      = (if k' = k then Some (add_to_group lib a row (groups_after lib a rows k None)) else groups_after lib a rows k None)"
    by (simp add: groups_after_def entry_after_append row)
  show ?case
  proof (cases "k' = k")
    case False
    then have "rows_with k (rows @ [row]) = rows_with k rows" by (simp add: row rows_with_def)
    then show ?thesis using e False snoc by (simp add: group_spec_def group_of_def)
  next
    case True
    have vs: "length vs = length (measure_types a)" using snoc.prems by (simp add: row)
    have "(case group_spec lib a rows k of None \<Rightarrow> new_group a (fst (k, vs)) | Some g \<Rightarrow> g) = group_of lib a k rows"
      using group_of_new [OF assms(1)] by (simp add: group_spec_def)
    then have "add_to_group lib a row (group_spec lib a rows k) = group_of lib a k (rows @ [row])"
      using group_of_snoc [OF assms(1) vs] by (simp add: add_to_group_def row True)
    moreover have "rows_with k (rows @ [row]) \<noteq> []" by (simp add: rows_with_def row True)
    ultimately show ?thesis using e True snoc by (simp add: group_spec_def)
  qed
qed

lemma rows_of_length: "config_ok a \<Longrightarrow> row \<in> set (rows_of a b) \<Longrightarrow> length (snd row) = length (measure_types a)"
  by (auto simp: rows_of_def row_of_def config_ok_def dest: list_all2_lengthD)

lemma length_rows_of [simp]: "length (rows_of a b) = num_rows b"
  by (simp add: rows_of_def)

section \<open>Adding batches one after another\<close>

definition add_all :: "runtime_lib \<Rightarrow> batch list \<Rightarrow> aggregator \<Rightarrow> agg_error + aggregator" where
  "add_all lib bs = fold_res (agg_add lib) bs"

definition all_rows :: "aggregator \<Rightarrow> batch list \<Rightarrow> agg_row list" where
  "all_rows a bs = concat (map (rows_of a) bs)"

lemma add_all_law:
  assumes "agg_inv a0 a" and "\<forall>b \<in> set bs. wf_batch (ag_schema a0) b"
    and "gt_size (ag_table a) + length (all_rows a0 bs) \<le> max_groups"
  shows "\<exists>a'. add_all lib bs a = Inr a' \<and> agg_inv a0 a' \<and> gt_size (ag_table a') \<le> gt_size (ag_table a) + length (all_rows a0 bs)
     \<and> (\<forall>k. groups a' k = groups_after lib a0 (all_rows a0 bs) k (groups a k))"
  using assms
proof (induction bs arbitrary: a)
  case Nil
  then show ?case by (simp add: add_all_def all_rows_def groups_after_def)
next
  case (Cons b bs)
  have len: "length (all_rows a0 (b # bs)) = num_rows b + length (all_rows a0 bs)" by (simp add: all_rows_def)
  obtain a1 where a1: "agg_add lib b a = Inr a1" "agg_inv a0 a1" "gt_size (ag_table a1) \<le> gt_size (ag_table a) + num_rows b"
      "\<forall>k. groups a1 k = groups_after lib a0 (rows_of a0 b) k (groups a k)"
    using agg_add_law [OF Cons.prems(1), of b lib] Cons.prems(2,3) len by auto
  have "gt_size (ag_table a1) + length (all_rows a0 bs) \<le> max_groups" using a1(3) Cons.prems(3) len by simp
  from Cons.IH [OF a1(2) _ this] Cons.prems(2) obtain a' where a': "add_all lib bs a1 = Inr a'" "agg_inv a0 a'"
      "gt_size (ag_table a') \<le> gt_size (ag_table a1) + length (all_rows a0 bs)"
      "\<forall>k. groups a' k = groups_after lib a0 (all_rows a0 bs) k (groups a1 k)"
    by auto
  have "groups_after lib a0 (all_rows a0 (b # bs)) k e
      = groups_after lib a0 (all_rows a0 bs) k (groups_after lib a0 (rows_of a0 b) k e)" for k e
    by (simp add: all_rows_def groups_after_def entry_after_append)
  then show ?case using a1 a' len by (simp add: add_all_def)
qed

lemma new_agg_inv:
  assumes "new_aggregator seed s spec = Inr a" and "\<forall>c \<in> set (columns s). known_type (cs_type c)"
  shows "agg_inv a a" and "groups a = Map.empty" and "gt_size (ag_table a) = 0"
proof -
  note n = new_aggregator_ok [OF assms]
  show "groups a = Map.empty" "gt_size (ag_table a) = 0"
    using keyed_new by (auto simp: groups_def n(2))
  then show "agg_inv a a"
    using n(1) keyed_new by (simp add: agg_inv_def n(2))
qed

text \<open>
  C5. What a fresh aggregator computes: adding well-formed batches of a schema with known column types never
  fails, and afterwards there is a group for exactly the keys that occur, holding the number of its rows
  and for every measure the accumulator over that group's values in arrival order. The hash functions do
  not matter, nor which of the specialised paths the batch takes.
\<close>

theorem aggregator_group_by:
  assumes "new_aggregator seed s spec = Inr a" and "\<forall>c \<in> set (columns s). known_type (cs_type c)"
    and "\<forall>b \<in> set bs. wf_batch s b" and "length (all_rows a bs) \<le> max_groups"
  shows "\<exists>a'. add_all lib bs a = Inr a' \<and> groups a' = group_spec lib a (all_rows a bs)
     \<and> mset (map ga_key (table_each (ag_table a'))) = mset_set (fst ` set (all_rows a bs))"
proof -
  note n = new_agg_inv [OF assms(1,2)] new_aggregator_ok [OF assms(1,2)]
  obtain a' where a': "add_all lib bs a = Inr a'" "agg_inv a a'"
      "\<forall>k. groups a' k = groups_after lib a (all_rows a bs) k (groups a k)"
    using add_all_law [OF n(1), of bs lib] assms(3,4) n(3,6) by auto
  have len: "\<forall>row \<in> set (all_rows a bs). length (snd row) = length (measure_types a)"
    using rows_of_length [OF n(4)] by (auto simp: all_rows_def)
  have g: "groups a' = group_spec lib a (all_rows a bs)"
    using a'(3) groups_after_spec [OF n(4) len] n(2) by (simp add: fun_eq_iff)
  have k: "keyed_ok (hash_key (ag_seed a)) (key_ok (group_by_types a)) (ag_table a')" using a'(2) by (simp add: agg_inv_def)
  have "k \<in> ga_key ` set (table_each (ag_table a')) \<longleftrightarrow> k \<in> fst ` set (all_rows a bs)" for k
    using gt_map_None [OF k, of k] fun_cong [OF g, of k] rows_with_empty [of k "all_rows a bs"]
    by (auto simp: groups_def group_spec_def table_each_def image_image split: if_splits)
  then have "set (map ga_key (table_each (ag_table a'))) = fst ` set (all_rows a bs)" by auto
  then have "mset (map ga_key (table_each (ag_table a'))) = mset_set (fst ` set (all_rows a bs))"
    using mset_set_set [OF keyed_each(1) [OF k]] by simp
  with a'(1) g show ?thesis by blast
qed

text \<open>A one-column-by-one-measure example: stations and temperatures.\<close>

definition sample_schema :: schema where
  "sample_schema = \<lparr>delimiter = CHR '';'', has_header = False, quote_aware = False,
     columns = [\<lparr>cs_name = ''station'', cs_type = TypeString, cs_kind = KindDimension\<rparr>,
                \<lparr>cs_name = ''temp'', cs_type = TypeInt64, cs_kind = KindMeasure\<rparr>]\<rparr>"

definition sample_spec :: agg_spec where
  "sample_spec = \<lparr>group_by = [''station''], measures = [\<lparr>ms_column = ''temp'', ms_funcs = [FnMin, FnMax, FnAvg, FnDistinct]\<rparr>]\<rparr>"

definition sample_seed :: maphash where
  "sample_seed = \<lparr>hash_string = fnv1a, hash_int64 = mix64, hash_uint64 = mix64, hash_bytes = fnv1a\<rparr>"

definition sample_batch :: batch where
  "sample_batch = \<lparr>num_rows = 2,
     cols = [\<lparr>col_type = TypeString, strs = [''Oslo'', ''Rome''], i64s = [], f64s = []\<rparr>,
             \<lparr>col_type = TypeInt64, strs = [], i64s = [3, 20], f64s = []\<rparr>]\<rparr>"

definition sample_agg :: aggregator where
  "sample_agg =
     \<lparr>ag_schema = sample_schema, ag_spec = sample_spec, group_by_idx = [0], group_by_types = [TypeString], measure_idx = [1],
      measure_types = [TypeInt64], ag_wants = [\<lparr>wants_distinct = True, wants_percentile = False\<rparr>],
      ag_table = new_group_table, ag_seed = sample_seed\<rparr>"

lemma sample_facts:
  "new_aggregator sample_seed sample_schema sample_spec = Inr sample_agg"
  "\<forall>c \<in> set (columns sample_schema). known_type (cs_type c)"
  "wf_batch sample_schema sample_batch"
  "all_rows sample_agg [sample_batch] = [([string_value ''Oslo''], [int64_value 3]), ([string_value ''Rome''], [int64_value 20])]"
proof -
  show "new_aggregator sample_seed sample_schema sample_spec = Inr sample_agg"
    by (simp add: new_aggregator_def sample_schema_def sample_spec_def sample_agg_def col_index_def agg_func_defs requires_numeric_def Let_def)
  show "\<forall>c \<in> set (columns sample_schema). known_type (cs_type c)" by (simp add: sample_schema_def known_type_def)
  show "wf_batch sample_schema sample_batch"
    by (simp add: wf_batch_def sample_schema_def sample_batch_def wf_column_def)
  show "all_rows sample_agg [sample_batch] = [([string_value ''Oslo''], [int64_value 3]), ([string_value ''Rome''], [int64_value 20])]"
    by (simp add: all_rows_def rows_of_def row_of_def sample_agg_def sample_batch_def cell_def read_value_def nth_opt_def upt_rec)
qed

theorem aggregator_group_by_witness:
  "\<exists>a'. add_all sample_lib [sample_batch] sample_agg = Inr a'
     \<and> groups a' [string_value ''Paris''] = None \<and> groups a' [string_value ''Rome''] \<noteq> None"
proof -
  have "\<exists>a'. add_all sample_lib [sample_batch] sample_agg = Inr a'
      \<and> groups a' = group_spec sample_lib sample_agg (all_rows sample_agg [sample_batch])
      \<and> mset (map ga_key (table_each (ag_table a'))) = mset_set (fst ` set (all_rows sample_agg [sample_batch]))"
    by (rule aggregator_group_by [OF sample_facts(1,2)]) (simp_all add: sample_facts(3,4) max_groups_def)
  then show ?thesis
    by (auto simp: sample_facts(4) group_spec_def rows_with_def string_value_def zero_value_def)
qed

end
