(* ===== verification/Merging.thy ===== *)
theory Merging
  imports GroupBy
begin

text \<open>
  \<open>Aggregator.Merge\<close> against the group-by specification. Everything a measure holds is determined by the
  rows exactly, except float sums and the centroids of a digest, which depend on how the rows were split;
  \<open>measure_sim\<close> says so field by field, and is kept by merging.
\<close>

section \<open>Measures up to the order of float operations\<close>

definition measure_sim :: "runtime_lib \<Rightarrow> column_type \<Rightarrow> measure_wants \<Rightarrow> value_t list \<Rightarrow> measure_accum \<Rightarrow> bool" where
  "measure_sim lib t w vs m \<longleftrightarrow> measure_shape t w m
     \<and> core_of m = core_of (measured lib t w vs)
     \<and> distinct_hll m = distinct_hll (measured lib t w vs)
     \<and> map_option td_extremes (digest m) = map_option td_extremes (digest (measured lib t w vs))
     \<and> (t \<noteq> TypeFloat64 \<longrightarrow> sum_f64 m = f64_zero)"

lemma measured_shape: "measure_shape t w (measured lib t w vs)"
proof -
  have "measure_shape t w m \<Longrightarrow> measure_shape t w (fold (measure_add lib) vs m)" for m
    by (induction vs arbitrary: m) (simp_all add: add_measure_shape)
  then show ?thesis using new_measure_shape by blast
qed

lemma measured_sim: "measure_sim lib t w vs (measured lib t w vs)"
  using sum_f64_other [of "new_measure_accum t w" lib vs] by (simp add: measure_sim_def measured_shape)

lemma measure_sim_exact:
  assumes "measure_sim lib t w vs m" and "t \<noteq> TypeFloat64" and "\<not> wants_percentile w"
  shows "m = measured lib t w vs"
proof (rule measure_eqI)
  show "sum_f64 m = sum_f64 (measured lib t w vs)"
    using assms sum_f64_other [of "new_measure_accum t w" lib vs] by (simp add: measure_sim_def)
  show "digest m = digest (measured lib t w vs)"
    using assms by (simp add: measure_sim_def measured_digest measure_shape_def)
qed (use assms in \<open>simp_all add: measure_sim_def\<close>)

lemma measured_perm_extremes:
  assumes "mset xs = mset ys"
  shows "map_option td_extremes (digest (measured lib t w xs)) = map_option td_extremes (digest (measured lib t w ys))"
proof -
  have "mset (numbers t xs) = mset (numbers t ys)"
    unfolding numbers_def mset_filter mset_map assms ..
  then have "fold ext_add (numbers t xs) ext_init = fold ext_add (numbers t ys) ext_init"
    by (intro ext.fold_perm) simp
  then show ?thesis by (simp add: measured_digest measured_extremes)
qed

lemma measured_perm_core:
  assumes "mset xs = mset ys"
  shows "core_of (measured lib t w xs) = core_of (measured lib t w ys)"
    and "distinct_hll (measured lib t w xs) = distinct_hll (measured lib t w ys)"
proof -
  have "fold core_add xs (core_new t) = fold core_add ys (core_new t)"
    by (rule core.fold_perm [of t, OF _ assms]) (rule core.ok_init)
  moreover have "fold hll_add (map hash_value xs) new_hyper_log_log = fold hll_add (map hash_value ys) new_hyper_log_log"
    by (rule hll.fold_perm) (simp_all add: assms)
  ultimately show "core_of (measured lib t w xs) = core_of (measured lib t w ys)"
      "distinct_hll (measured lib t w xs) = distinct_hll (measured lib t w ys)"
    by (simp_all add: measure_fold_parts)
qed

lemma measure_sim_perm: "measure_sim lib t w xs m \<Longrightarrow> mset xs = mset ys \<Longrightarrow> measure_sim lib t w ys m"
  using measured_perm_extremes measured_perm_core unfolding measure_sim_def by metis

lemma merge_parts:
  assumes "measure_shape t w a" and "measure_shape t w b"
  shows "\<exists>m. merge_measure_accum lib a b = Some m \<and> measure_shape t w m
     \<and> core_of m = core_merge (core_of a) (core_of b)
     \<and> distinct_hll m = (if wants_distinct w then Some (merge_hyper_log_log (the (distinct_hll a)) (the (distinct_hll b))) else None)
     \<and> digest m = (if wants_percentile w then Some (fst (tdigest_merge lib (the (digest a)) (the (digest b)))) else None)
     \<and> (t \<noteq> TypeFloat64 \<longrightarrow> sum_f64 m = f64_zero)"
proof -
  have h: "merge_distinct (distinct_hll a) (distinct_hll b)
      = Some (if wants_distinct w then Some (merge_hyper_log_log (the (distinct_hll a)) (the (distinct_hll b))) else None)"
    using assms by (auto simp: measure_shape_def merge_distinct_def hll_ok_def split: option.splits)
  have d: "merge_digest lib (digest a) (digest b)
      = Some (if wants_percentile w then Some (fst (tdigest_merge lib (the (digest a)) (the (digest b)))) else None)"
    using assms by (auto simp: measure_shape_def merge_digest_def split: option.splits)
  have upd: "core_of (m\<lparr>distinct_hll := x, digest := y\<rparr>) = core_of m" for m x y by (simp add: core_of_def)
  have c: "core_of (merge_numeric a b) = core_merge (core_of a) (core_of b)" by (rule core_merge_of)
  then have t: "ma_type (merge_numeric a b) = t"
    using assms(1) by (metis core_merge_fields(1) core_of_simps(1) measure_shape_def)
  show ?thesis
    using h d c t assms by (auto simp: merge_measure_accum_def Let_def measure_shape_def upd merge_numeric_sum)
qed

lemma measure_sim_merge:
  assumes "measure_sim lib t w xs a" and "measure_sim lib t w ys b"
  shows "\<exists>m. merge_measure_accum lib a b = Some m \<and> measure_sim lib t w (xs @ ys) m"
proof -
  define A B where "A = measured lib t w xs" and "B = measured lib t w ys"
  have A: "measure_shape t w a" "core_of a = core_of A" "distinct_hll a = distinct_hll A"
      "map_option td_extremes (digest a) = map_option td_extremes (digest A)"
    and B: "measure_shape t w b" "core_of b = core_of B" "distinct_hll b = distinct_hll B"
      "map_option td_extremes (digest b) = map_option td_extremes (digest B)"
    using assms by (simp_all add: measure_sim_def A_def B_def)
  obtain m where m: "merge_measure_accum lib a b = Some m" "measure_shape t w m" "core_of m = core_merge (core_of a) (core_of b)"
      "distinct_hll m = (if wants_distinct w then Some (merge_hyper_log_log (the (distinct_hll a)) (the (distinct_hll b))) else None)"
      "digest m = (if wants_percentile w then Some (fst (tdigest_merge lib (the (digest a)) (the (digest b)))) else None)"
      "t \<noteq> TypeFloat64 \<longrightarrow> sum_f64 m = f64_zero"
    using merge_parts [OF A(1) B(1)] by blast
  have shapes: "measure_shape t w A" "measure_shape t w B" using measured_shape by (simp_all add: A_def B_def)
  from merge_parts [OF this] obtain M where M: "merge_measure_accum lib A B = Some M"
      "core_of M = core_merge (core_of A) (core_of B)"
      "distinct_hll M = (if wants_distinct w then Some (merge_hyper_log_log (the (distinct_hll A)) (the (distinct_hll B))) else None)"
      "digest M = (if wants_percentile w then Some (fst (tdigest_merge lib (the (digest A)) (the (digest B)))) else None)"
    by blast
  have R: "core_of M = core_of (measured lib t w (xs @ ys))" "distinct_hll M = distinct_hll (measured lib t w (xs @ ys))"
    using measure_merge_parts [where lib = lib and t = t and w = w and xs = xs and ys = ys] M(1) unfolding A_def B_def by auto
  have "map_option td_extremes (digest m) = map_option td_extremes (digest (measured lib t w (xs @ ys)))"
  proof (cases "wants_percentile w")
    case False
    then show ?thesis by (simp add: m(5) measured_digest del: fold_append)
  next
    case True
    then obtain da db where d: "digest a = Some da" "digest b = Some db"
      using A(1) B(1) by (auto simp: measure_shape_def)
    then have "td_extremes da = fold ext_add (numbers t xs) ext_init" "td_extremes db = fold ext_add (numbers t ys) ext_init"
      using A(4) B(4) True by (simp_all add: A_def B_def measured_digest measured_extremes)
    then show ?thesis
      using ext.merge_folds [of "numbers t xs" "numbers t ys"] True d
      by (simp add: m(5) tdigest_merge_extremes measured_digest measured_extremes numbers_append del: fold_append map_append)
  qed
  moreover have "core_of m = core_of (measured lib t w (xs @ ys))" using m(3) M(2) R(1) A(2) B(2) by metis
  moreover have "distinct_hll m = distinct_hll (measured lib t w (xs @ ys))" using m(4) M(3) R(2) A(3) B(3) by metis
  ultimately show ?thesis using m(1,2,6) by (auto simp: measure_sim_def simp del: fold_append)
qed

section \<open>Groups\<close>

definition group_sim :: "runtime_lib \<Rightarrow> aggregator \<Rightarrow> value_t list \<Rightarrow> value_t list list \<Rightarrow> group_accum \<Rightarrow> bool" where
  "group_sim lib a k vss g \<longleftrightarrow> ga_key g = k \<and> ga_count g = of_nat (length vss)
     \<and> length (ga_measures g) = length (measure_types a)
     \<and> (\<forall>i < length (measure_types a). measure_sim lib (measure_types a ! i) (ag_wants a ! i) (measure_column i vss) (ga_measures g ! i))"

lemma group_sim_shape: "config_ok a \<Longrightarrow> group_sim lib a k vss g \<Longrightarrow> group_shape a g"
  by (auto simp: group_sim_def group_shape_def config_ok_def list_all2_conv_all_nth measure_sim_def)

lemma group_sim_perm: "group_sim lib a k vss g \<Longrightarrow> mset vss = mset uss \<Longrightarrow> group_sim lib a k uss g"
  unfolding group_sim_def measure_column_def
  by (metis measure_sim_perm mset_eq_length mset_map)

lemma group_of_sim: "group_sim lib a k (rows_with k rows) (group_of lib a k rows)"
  by (simp add: group_sim_def group_of_def measured_sim)

lemma merge_measures_all:
  "length as = length bs \<Longrightarrow> (\<forall>i < length as. \<exists>m. merge_measure_accum lib (as ! i) (bs ! i) = Some m \<and> P i m) \<Longrightarrow>
     \<exists>ms. merge_measures lib as bs = Some ms \<and> length ms = length as \<and> (\<forall>i < length as. P i (ms ! i))"
proof (induction as bs arbitrary: P rule: list_induct2)
  case Nil
  then show ?case by simp
next
  case (Cons a as b bs)
  from Cons.prems obtain m where m: "merge_measure_accum lib a b = Some m" "P 0 m" by force
  from Cons.prems have "\<forall>i < length as. \<exists>m. merge_measure_accum lib (as ! i) (bs ! i) = Some m \<and> P (Suc i) m" by force
  from Cons.IH [OF this] obtain ms where "merge_measures lib as bs = Some ms" "length ms = length as" "\<forall>i < length as. P (Suc i) (ms ! i)"
    by blast
  with m show ?case by (auto simp: less_Suc_eq_0_disj)
qed

lemma group_merge_sim:
  assumes "group_sim lib a k xs g" and "group_sim lib a k ys og"
  shows "\<exists>g'. group_merge lib g og = Some g' \<and> group_sim lib a k (xs @ ys) g'"
proof -
  let ?P = "\<lambda>i. measure_sim lib (measure_types a ! i) (ag_wants a ! i) (measure_column i (xs @ ys))"
  have "\<forall>i < length (ga_measures g). \<exists>m. merge_measure_accum lib (ga_measures g ! i) (ga_measures og ! i) = Some m \<and> ?P i m"
    using assms measure_sim_merge by (auto simp: group_sim_def)
  then obtain ms where "merge_measures lib (ga_measures g) (ga_measures og) = Some ms" "length ms = length (ga_measures g)"
      "\<forall>i < length (ga_measures g). ?P i (ms ! i)"
    using merge_measures_all [of "ga_measures g" "ga_measures og" lib ?P] assms by (auto simp: group_sim_def)
  then show ?thesis using assms by (auto simp: group_merge_def group_sim_def)
qed

lemma group_merge_shape:
  assumes "group_shape a g" and "group_shape a og"
  shows "\<exists>g'. group_merge lib g og = Some g' \<and> group_shape a g' \<and> ga_key g' = ga_key g"
proof -
  let ?P = "\<lambda>i. measure_shape (measure_types a ! i) (ag_wants a ! i)"
  have "\<forall>i < length (ga_measures g). \<exists>m. merge_measure_accum lib (ga_measures g ! i) (ga_measures og ! i) = Some m \<and> ?P i m"
    using assms merge_parts unfolding group_shape_def list_all2_conv_all_nth by (fastforce simp: nth_zip)
  then obtain ms where "merge_measures lib (ga_measures g) (ga_measures og) = Some ms" "length ms = length (ga_measures g)"
      "\<forall>i < length (ga_measures g). ?P i (ms ! i)"
    using merge_measures_all [of "ga_measures g" "ga_measures og" lib ?P] assms
    by (auto simp: group_shape_def dest!: list_all2_lengthD)
  then show ?thesis using assms by (auto simp: group_merge_def group_shape_def list_all2_conv_all_nth)
qed

section \<open>Aggregators and their rows\<close>

text \<open>An aggregator configured like \<open>a0\<close> that has taken in exactly these rows.\<close>

definition holds :: "runtime_lib \<Rightarrow> aggregator \<Rightarrow> aggregator \<Rightarrow> agg_row list \<Rightarrow> bool" where
  "holds lib a0 a rows \<longleftrightarrow> agg_inv a0 a \<and> gt_size (ag_table a) \<le> length rows
     \<and> (\<forall>k. case groups a k of None \<Rightarrow> rows_with k rows = []
          | Some g \<Rightarrow> rows_with k rows \<noteq> [] \<and> group_sim lib a0 k (rows_with k rows) g)"

lemma holds_inv: "holds lib a0 a rows \<Longrightarrow> agg_inv a0 a"
  by (simp add: holds_def)

lemma holds_None: "holds lib a0 a rows \<Longrightarrow> groups a k = None \<longleftrightarrow> rows_with k rows = []"
  unfolding holds_def by (auto split: option.splits dest!: spec [of _ k])

lemma holds_Some: "holds lib a0 a rows \<Longrightarrow> groups a k = Some g \<Longrightarrow> group_sim lib a0 k (rows_with k rows) g"
  by (auto simp: holds_def split: option.splits dest!: spec [of _ k])

lemma holdsI:
  assumes "agg_inv a0 a" and "gt_size (ag_table a) \<le> length rows"
    and "\<And>k. groups a k = None \<longleftrightarrow> rows_with k rows = []"
    and "\<And>k g. groups a k = Some g \<Longrightarrow> group_sim lib a0 k (rows_with k rows) g"
  shows "holds lib a0 a rows"
proof -
  have "case groups a k of None \<Rightarrow> rows_with k rows = []
          | Some g \<Rightarrow> rows_with k rows \<noteq> [] \<and> group_sim lib a0 k (rows_with k rows) g" for k
    using assms(3) [of k] assms(4) [of k] by (cases "groups a k") simp_all
  with assms(1,2) show ?thesis by (simp add: holds_def)
qed

lemma rows_with_perm: "mset xs = mset ys \<Longrightarrow> mset (rows_with k xs) = mset (rows_with k ys)"
  unfolding rows_with_def mset_map mset_filter by simp

lemma holds_perm:
  assumes "holds lib a0 a xs" and "mset xs = mset ys"
  shows "holds lib a0 a ys"
proof (rule holdsI)
  show "agg_inv a0 a" "gt_size (ag_table a) \<le> length ys"
    using assms(1) mset_eq_length [OF assms(2)] by (simp_all add: holds_def)
  show "groups a k = None \<longleftrightarrow> rows_with k ys = []" for k
    using holds_None [OF assms(1)] rows_with_perm [OF assms(2), of k] by (metis mset.simps(1) mset_zero_iff)
  show "group_sim lib a0 k (rows_with k ys) g" if "groups a k = Some g" for k g
    using group_sim_perm holds_Some [OF assms(1) that] rows_with_perm [OF assms(2)] by blast
qed

lemma holds_new:
  assumes "new_aggregator seed s spec = Inr a" and "\<forall>c \<in> set (columns s). known_type (cs_type c)"
  shows "holds lib a a []"
  using new_agg_inv [OF assms] by (intro holdsI) auto

lemma holds_exact:
  assumes "agg_inv a0 a" and "gt_size (ag_table a) \<le> length rows" and "\<And>k. groups a k = group_spec lib a0 rows k"
  shows "holds lib a0 a rows"
  using assms by (intro holdsI) (auto simp: group_spec_def group_of_sim split: if_splits)

section \<open>Adding\<close>

lemma measure_sim_add:
  assumes "measure_sim lib t w vs m"
  shows "measure_sim lib t w (vs @ [v]) (measure_add lib v m)"
proof -
  have "map_option td_extremes (digest (measure_add lib v m)) = map_option td_extremes (digest (measured lib t w (vs @ [v])))"
    using assms by (cases "digest m"; cases "digest (measured lib t w vs)")
      (auto simp: measure_sim_def measure_shape_def tdigest_add_extremes measure_fold_parts(3))
  moreover have "sum_f64 (measure_add lib v m) = sum_f64 m" if "t \<noteq> TypeFloat64"
    using sum_f64_other [of m lib "[v]"] assms that by (simp add: measure_sim_def measure_shape_def)
  ultimately show ?thesis
    using assms by (simp add: measure_sim_def add_measure_shape)
qed

lemma group_sim_add:
  assumes "group_sim lib a k vss g" and "length vs = length (measure_types a)"
  shows "group_sim lib a k (vss @ [vs]) (group_add lib vs g)"
  using assms measure_sim_add by (simp add: group_sim_def group_add_def measure_column_def)

lemma add_to_group_sim:
  assumes "config_ok a" and "length vs = length (measure_types a)"
    and "case e of None \<Rightarrow> vss = [] | Some g \<Rightarrow> group_sim lib a k vss g"
  shows "group_sim lib a k (vss @ [vs]) (add_to_group lib a (k, vs) e)"
proof -
  have "group_sim lib a k vss (case e of None \<Rightarrow> new_group a k | Some g \<Rightarrow> g)"
    using assms(3) group_of_sim [of lib a k "[]"] group_of_new [OF assms(1), of k "[]" lib] by (cases e) simp_all
  from group_sim_add [OF this assms(2)] show ?thesis by (simp add: add_to_group_def cong: option.case_cong)
qed

lemma groups_after_sim:
  assumes c: "config_ok a" and "\<forall>row \<in> set ys. length (snd row) = length (measure_types a)"
    and "case e of None \<Rightarrow> rows_with k xs = [] | Some g \<Rightarrow> rows_with k xs \<noteq> [] \<and> group_sim lib a k (rows_with k xs) g"
  shows "case groups_after lib a ys k e of None \<Rightarrow> rows_with k (xs @ ys) = []
     | Some g \<Rightarrow> rows_with k (xs @ ys) \<noteq> [] \<and> group_sim lib a k (rows_with k (xs @ ys)) g"
  using assms(2,3)
proof (induction ys arbitrary: xs e)
  case Nil
  then show ?case by (simp add: groups_after_def cong: option.case_cong)
next
  case (Cons y ys)
  obtain k' vs where y: "y = (k', vs)" by fastforce
  define e' where "e' = (if k' = k then Some (add_to_group lib a y e) else e)"
  have r: "rows_with k [y] = (if k' = k then [vs] else [])" by (simp add: rows_with_def y)
  have "case e' of None \<Rightarrow> rows_with k (xs @ [y]) = []
      | Some g \<Rightarrow> rows_with k (xs @ [y]) \<noteq> [] \<and> group_sim lib a k (rows_with k (xs @ [y])) g"
  proof (cases "k' = k")
    case False
    then show ?thesis using Cons.prems(2) by (simp add: e'_def r cong: option.case_cong)
  next
    case True
    have "case e of None \<Rightarrow> rows_with k xs = [] | Some g \<Rightarrow> group_sim lib a k (rows_with k xs) g"
      using Cons.prems(2) by (cases e) simp_all
    from add_to_group_sim [OF c _ this, of vs] Cons.prems(1) True show ?thesis
      by (simp add: e'_def y rows_with_def [of _ "[(k, vs)]"])
  qed
  from Cons.IH [OF _ this] Cons.prems(1)
  have "case groups_after lib a ys k e' of None \<Rightarrow> rows_with k ((xs @ [y]) @ ys) = []
      | Some g \<Rightarrow> rows_with k ((xs @ [y]) @ ys) \<noteq> [] \<and> group_sim lib a k (rows_with k ((xs @ [y]) @ ys)) g"
    by simp
  moreover have "groups_after lib a (y # ys) k e = groups_after lib a ys k e'" by (simp add: groups_after_def e'_def y)
  moreover have "xs @ y # ys = (xs @ [y]) @ ys" by simp
  ultimately show ?case by (simp only:)
qed

lemma holds_add:
  assumes a: "holds lib a0 a xs" and "wf_batch (ag_schema a0) b" and "length xs + num_rows b \<le> max_groups"
  shows "\<exists>a'. agg_add lib b a = Inr a' \<and> holds lib a0 a' (xs @ rows_of a0 b)"
proof -
  have inv: "agg_inv a0 a" and size: "gt_size (ag_table a) \<le> length xs" using a by (simp_all add: holds_def)
  then have c: "config_ok a0" by (simp add: agg_inv_def)
  obtain a' where a': "agg_add lib b a = Inr a'" "agg_inv a0 a'" "gt_size (ag_table a') \<le> gt_size (ag_table a) + num_rows b"
      "\<And>k. groups a' k = groups_after lib a0 (rows_of a0 b) k (groups a k)"
    using agg_add_law [OF inv assms(2)] size assms(3) by force
  have "\<forall>row \<in> set (rows_of a0 b). length (snd row) = length (measure_types a0)" using rows_of_length [OF c] by blast
  then have "case groups a' k of None \<Rightarrow> rows_with k (xs @ rows_of a0 b) = []
     | Some g \<Rightarrow> rows_with k (xs @ rows_of a0 b) \<noteq> [] \<and> group_sim lib a0 k (rows_with k (xs @ rows_of a0 b)) g" for k
    unfolding a'(4) using a by (intro groups_after_sim [OF c]) (simp_all only: holds_def)
  then have "holds lib a0 a' (xs @ rows_of a0 b)"
    unfolding holds_def using a'(2,3) size by simp
  with a'(1) show ?thesis by blast
qed

lemma all_rows_Cons: "all_rows a (b # bs) = rows_of a b @ all_rows a bs"
  by (simp add: all_rows_def)

lemma holds_add_all:
  assumes "holds lib a0 a xs" and "\<forall>b \<in> set bs. wf_batch (ag_schema a0) b" and "length xs + length (all_rows a0 bs) \<le> max_groups"
  shows "\<exists>a'. add_all lib bs a = Inr a' \<and> holds lib a0 a' (xs @ all_rows a0 bs)"
  using assms
proof (induction bs arbitrary: a xs)
  case Nil
  then show ?case by (simp add: add_all_def all_rows_def)
next
  case (Cons b bs)
  have "length xs + num_rows b \<le> max_groups" "wf_batch (ag_schema a0) b"
    using Cons.prems by (simp_all add: all_rows_Cons)
  then obtain a1 where a1: "agg_add lib b a = Inr a1" "holds lib a0 a1 (xs @ rows_of a0 b)"
    using holds_add [OF Cons.prems(1)] by blast
  have "\<forall>b \<in> set bs. wf_batch (ag_schema a0) b" "length (xs @ rows_of a0 b) + length (all_rows a0 bs) \<le> max_groups"
    using Cons.prems by (simp_all add: all_rows_Cons)
  from Cons.IH [OF a1(2) this] a1(1) show ?case by (simp add: add_all_def all_rows_Cons)
qed

section \<open>Merging\<close>

definition merge_into :: "runtime_lib \<Rightarrow> group_accum \<Rightarrow> group_accum option \<Rightarrow> group_accum" where
  "merge_into lib og g = (case g of None \<Rightarrow> og | Some g \<Rightarrow> the (group_merge lib g og))"

lemma merge_group_law:
  assumes inv: "agg_inv a0 a" and og: "group_shape a0 og" "key_ok (group_by_types a0) (ga_key og)" and room: "gt_size (ag_table a) < max_groups"
  shows "\<exists>a'. merge_group lib og a = Inr a' \<and> agg_inv a0 a'
     \<and> groups a' = (groups a)(ga_key og \<mapsto> merge_into lib og (groups a (ga_key og)))
     \<and> gt_size (ag_table a') \<le> Suc (gt_size (ag_table a))"
proof -
  define upd where "upd g = (case g of None \<Rightarrow> Some og | Some g \<Rightarrow> group_merge lib g og)" for g
  define g where "g = groups a (ga_key og)"
  have old: "ga_key g' = ga_key og \<and> group_shape a0 g'" if "g = Some g'" for g'
    using groups_key [OF inv] that by (auto simp: g_def)
  have "upd g = Some (merge_into lib og g) \<and> ga_key (merge_into lib og g) = ga_key og \<and> group_shape a0 (merge_into lib og g)"
  proof (cases g)
    case None
    then show ?thesis using og(1) by (simp add: upd_def merge_into_def)
  next
    case (Some g')
    obtain h where "group_merge lib g' og = Some h" "group_shape a0 h" "ga_key h = ga_key g'"
      using group_merge_shape [OF conjunct2 [OF old [OF Some]] og(1)] by blast
    then show ?thesis using old [OF Some] by (simp add: Some upd_def merge_into_def)
  qed
  then have u: "upd (groups a (ga_key og)) = Some (merge_into lib og g)" "ga_key (merge_into lib og g) = ga_key og"
      "group_shape a0 (merge_into lib og g)"
    by (simp_all add: g_def)
  from upsert_group_law [where upd = upd, OF inv og(2) refl u room] show ?thesis
    by (simp add: merge_group_def Let_def upd_def [abs_def] g_def)
qed

interpretation merges: keyed_fold "agg_inv a0" groups "\<lambda>a. gt_size (ag_table a)" max_groups
    "\<lambda>og. group_shape a0 og \<and> key_ok (group_by_types a0) (ga_key og)" "merge_group lib" ga_key "merge_into lib" for lib a0
  by unfold_locales (erule merge_group_law; (elim conjE)?; assumption)

text \<open>Folding in a list of groups with distinct keys, as the groups of a table are.\<close>

lemma entry_after_distinct:
  assumes "distinct (map ga_key ogs)"
  shows "entry_after ga_key (merge_into lib) ogs k e
     = (case map_of (map (\<lambda>og. (ga_key og, og)) ogs) k of None \<Rightarrow> e | Some og \<Rightarrow> Some (merge_into lib og e))"
  using assms
proof (induction ogs arbitrary: e)
  case Nil
  then show ?case by simp
next
  case (Cons og ogs)
  have "map_of (map (\<lambda>og. (ga_key og, og)) ogs) (ga_key og) = None"
    using Cons.prems by (auto simp: map_of_eq_None_iff image_iff)
  then show ?case using Cons by auto
qed

lemma merge_groups_holds:
  assumes a: "holds lib a0 a xs" and room: "length xs + length ys \<le> max_groups"
    and ogs: "distinct (map ga_key ogs)" "length ogs \<le> length ys" "\<And>og. og \<in> set ogs \<Longrightarrow> key_ok (group_by_types a0) (ga_key og)"
    and all: "\<And>k. (case map_of (map (\<lambda>og. (ga_key og, og)) ogs) k of None \<Rightarrow> rows_with k ys = []
        | Some og \<Rightarrow> rows_with k ys \<noteq> [] \<and> group_sim lib a0 k (rows_with k ys) og)"
  shows "\<exists>c. fold_res (merge_group lib) ogs a = Inr c \<and> holds lib a0 c (xs @ ys)"
proof -
  define m where "m = map_of (map (\<lambda>og. (ga_key og, og)) ogs)"
  have inv: "agg_inv a0 a" and size: "gt_size (ag_table a) \<le> length xs" using a by (simp_all add: holds_def)
  then have c: "config_ok a0" by (simp add: agg_inv_def)
  have mog: "m (ga_key og) = Some og" if "og \<in> set ogs" for og
    using that ogs(1) unfolding m_def by (intro map_of_is_SomeI) (simp_all add: comp_def)
  have good: "group_shape a0 og \<and> key_ok (group_by_types a0) (ga_key og)" if "og \<in> set ogs" for og
    using all [of "ga_key og"] mog [OF that] group_sim_shape [OF c] ogs(3) [OF that] by (auto simp flip: m_def)
  have "gt_size (ag_table a) + length ogs \<le> max_groups" using size room ogs(2) by simp
  from merges.fold_law [OF inv good this, where lib = lib] obtain c where c: "fold_res (merge_group lib) ogs a = Inr c" "agg_inv a0 c"
      "gt_size (ag_table c) \<le> gt_size (ag_table a) + length ogs"
      "\<And>k. groups c k = entry_after ga_key (merge_into lib) ogs k (groups a k)"
    by auto
  have e: "groups c k = (case m k of None \<Rightarrow> groups a k | Some og \<Rightarrow> Some (merge_into lib og (groups a k)))" for k
    unfolding c(4) m_def by (rule entry_after_distinct [OF ogs(1)])
  have "holds lib a0 c (xs @ ys)"
  proof (rule holdsI [OF c(2)])
    show "gt_size (ag_table c) \<le> length (xs @ ys)" using c(3) size ogs(2) by simp
    show "groups c k = None \<longleftrightarrow> rows_with k (xs @ ys) = []" for k
      using all [of k] holds_None [OF a, of k] by (auto simp: e simp flip: m_def split: option.splits)
    show "group_sim lib a0 k (rows_with k (xs @ ys)) g" if g: "groups c k = Some g" for k g
    proof (cases "m k")
      case None
      then have "groups a k = Some g" "rows_with k ys = []" using g all [of k] by (simp_all add: e flip: m_def)
      then show ?thesis using holds_Some [OF a] by simp
    next
      case (Some og)
      then have og: "group_sim lib a0 k (rows_with k ys) og" using all [of k] by (simp flip: m_def)
      show ?thesis
      proof (cases "groups a k")
        case None
        then have "g = og" "rows_with k xs = []" using g Some None holds_None [OF a, of k] by (simp_all add: e merge_into_def)
        then show ?thesis using og by simp
      next
        case (Some h)
        then have "g = the (group_merge lib h og)" using g \<open>m k = Some og\<close> by (simp add: e merge_into_def)
        then show ?thesis using group_merge_sim [OF holds_Some [OF a Some] og] by auto
      qed
    qed
  qed
  then show ?thesis using c(1) by blast
qed

definition same_shape :: "aggregator \<Rightarrow> aggregator \<Rightarrow> bool" where
  "same_shape a b \<longleftrightarrow> ag_spec a = ag_spec b \<and> group_by_types a = group_by_types b \<and> measure_types a = measure_types b
     \<and> ag_wants a = ag_wants b"

lemma same_shape_sim: "same_shape a b \<Longrightarrow> group_sim lib a = group_sim lib b"
  by (simp add: same_shape_def group_sim_def fun_eq_iff)

lemma new_same_shape:
  assumes "new_aggregator seed s spec = Inr a" and "new_aggregator seed' s spec = Inr b"
  shows "same_shape a b" and "row_of a = row_of b"
  using assms by (auto simp: new_aggregator_def same_shape_def row_of_def fun_eq_iff split: sum.splits)

text \<open>Comparing a spec with itself fails when it has a NaN percentile.\<close>

definition spec_reflexive :: "agg_spec \<Rightarrow> bool" where
  "spec_reflexive spec \<longleftrightarrow> (\<forall>ms \<in> set (measures spec). \<forall>f \<in> set (ms_funcs ms). \<not> is_nan (af_q f))"

lemma specs_equal_refl: "specs_equal spec spec \<longleftrightarrow> spec_reflexive spec"
proof -
  have "list_all2 agg_func_equal fs fs \<longleftrightarrow> (\<forall>f \<in> set fs. \<not> is_nan (af_q f))" for fs
    by (auto simp: list_all2_same agg_func_equal_def f64_eq_def)
  then show ?thesis by (simp add: specs_equal_def spec_reflexive_def list_all2_same)
qed

lemma merge_types_same: "merge_types mss ts ts = Inr ()"
  by (induction ts arbitrary: mss) auto

lemma table_each_map: "map_of (map (\<lambda>g. (ga_key g, g)) (table_each t)) = gt_map t"
  by (simp add: table_each_def gt_map_def comp_def case_prod_unfold)

lemma holds_entries:
  assumes "holds lib b0 b ys"
  shows "distinct (map ga_key (table_each (ag_table b)))" and "length (table_each (ag_table b)) \<le> length ys"
    and "og \<in> set (table_each (ag_table b)) \<Longrightarrow> key_ok (group_by_types b0) (ga_key og)"
    and "case map_of (map (\<lambda>og. (ga_key og, og)) (table_each (ag_table b))) k of None \<Rightarrow> rows_with k ys = []
        | Some og \<Rightarrow> rows_with k ys \<noteq> [] \<and> group_sim lib b0 k (rows_with k ys) og"
proof -
  have k: "keyed_ok (hash_key (ag_seed b0)) (key_ok (group_by_types b0)) (ag_table b)"
    using assms by (simp add: holds_def agg_inv_def)
  show "distinct (map ga_key (table_each (ag_table b)))" by (rule keyed_each(1) [OF k])
  show "length (table_each (ag_table b)) \<le> length ys"
    using keyed_size [OF k] assms by (simp add: holds_def)
  show "key_ok (group_by_types b0) (ga_key og)" if "og \<in> set (table_each (ag_table b))"
    using gt_map_key [OF k iffD1 [OF keyed_each(2) [OF k] that]] by blast
  show "case map_of (map (\<lambda>og. (ga_key og, og)) (table_each (ag_table b))) k of None \<Rightarrow> rows_with k ys = []
        | Some og \<Rightarrow> rows_with k ys \<noteq> [] \<and> group_sim lib b0 k (rows_with k ys) og"
    using assms unfolding table_each_map by (simp add: holds_def flip: groups_def)
qed

lemma merge_table_holds:
  assumes a: "holds lib a0 a xs" and b: "holds lib b0 b ys" and same: "same_shape a0 b0" and room: "length xs + length ys \<le> max_groups"
  shows "\<exists>c. fold_res (merge_group lib) (table_each (ag_table b)) a = Inr c \<and> holds lib a0 c (xs @ ys)"
proof -
  have "group_by_types b0 = group_by_types a0" using same by (simp add: same_shape_def)
  then show ?thesis
    by (intro merge_groups_holds [OF a room holds_entries(1,2) [OF b]])
      (use holds_entries(3) [OF b] in simp, unfold same_shape_sim [OF same], rule holds_entries(4) [OF b])
qed

lemma agg_merge_holds:
  assumes a: "holds lib a0 a xs" and b: "holds lib b0 b ys" and same: "same_shape a0 b0"
    and spec: "spec_reflexive (ag_spec a0)" and room: "length xs + length ys \<le> max_groups"
  shows "\<exists>c. agg_merge lib a b = Inr c \<and> holds lib a0 c (xs @ ys)"
proof -
  note ca = same_config [OF holds_inv [OF a]] and cb = same_config [OF holds_inv [OF b]]
  have s: "ag_spec b0 = ag_spec a0" "measure_types b0 = measure_types a0" using same by (simp_all add: same_shape_def)
  show ?thesis
    using merge_table_holds [OF a b same room] spec by (simp add: agg_merge_def ca cb s specs_equal_refl merge_types_same)
qed

text \<open>
  C6. Merging two aggregators of the same schema and spec, whatever their seeds, gives an aggregator for the
  rows of both: the same keys, the counts, wrapped sums, extremes and sketches of one aggregator that saw
  all rows, bit for bit; for int64 measures without a percentile the accumulators are identical. Only float
  sums and digests may differ.
\<close>

theorem merge_is_concatenation:
  assumes new: "new_aggregator seed s spec = Inr a" "new_aggregator seed' s spec = Inr b"
    and s: "\<forall>c \<in> set (columns s). known_type (cs_type c)" and spec: "spec_reflexive spec"
    and bs: "\<forall>x \<in> set (as @ bs). wf_batch s x" and room: "length (all_rows a (as @ bs)) \<le> max_groups"
  shows "\<exists>a' b' c. add_all lib as a = Inr a' \<and> add_all lib bs b = Inr b' \<and> agg_merge lib a' b' = Inr c
     \<and> holds lib a c (all_rows a (as @ bs))
     \<and> (\<forall>g k i. groups c k = Some g \<and> i < length (measure_types a) \<and> measure_types a ! i \<noteq> TypeFloat64
          \<and> \<not> wants_percentile (ag_wants a ! i) \<longrightarrow>
            ga_measures g ! i = measured lib (measure_types a ! i) (ag_wants a ! i) (measure_column i (rows_with k (all_rows a (as @ bs)))))"
proof -
  have rows: "rows_of a = rows_of b" using new_same_shape(2) [OF new] by (simp add: rows_of_def fun_eq_iff)
  then have all: "all_rows b bs = all_rows a bs" by (simp add: all_rows_def)
  have split: "all_rows a (as @ bs) = all_rows a as @ all_rows a bs" by (simp add: all_rows_def)
  note na = holds_new [OF new(1) s] new_aggregator_ok [OF new(1) s] and nb = holds_new [OF new(2) s] new_aggregator_ok [OF new(2) s]
  obtain a' where a': "add_all lib as a = Inr a'" "holds lib a a' (all_rows a as)"
    using holds_add_all [OF na(1), of as] bs room split na(4) by auto
  obtain b' where b': "add_all lib bs b = Inr b'" "holds lib b b' (all_rows a bs)"
    using holds_add_all [OF nb(1), of bs] bs room split nb(4) all by auto
  obtain c where c: "agg_merge lib a' b' = Inr c" "holds lib a c (all_rows a (as @ bs))"
    using agg_merge_holds [OF a'(2) b'(2) new_same_shape(1) [OF new]] spec room na(5) split by auto
  have "ga_measures g ! i = measured lib (measure_types a ! i) (ag_wants a ! i) (measure_column i (rows_with k (all_rows a (as @ bs))))"
    if "groups c k = Some g \<and> i < length (measure_types a) \<and> measure_types a ! i \<noteq> TypeFloat64 \<and> \<not> wants_percentile (ag_wants a ! i)" for g k i
    using that holds_Some [OF c(2), of k g] measure_sim_exact by (simp add: group_sim_def)
  with a'(1) b'(1) c show ?thesis by blast
qed

theorem merge_is_concatenation_witness:
  "\<exists>a' c. add_all sample_lib [sample_batch] sample_agg = Inr a' \<and> agg_merge sample_lib a' a' = Inr c
     \<and> holds sample_lib sample_agg c (all_rows sample_agg ([sample_batch] @ [sample_batch]))"
proof -
  have "spec_reflexive sample_spec"
    by (simp add: spec_reflexive_def sample_spec_def agg_func_defs is_nan_def f64_zero_def f64_mag_def inf_mag_def)
  moreover have "length (all_rows sample_agg ([sample_batch] @ [sample_batch])) \<le> max_groups"
    using sample_facts(4) by (simp add: all_rows_def max_groups_def)
  ultimately show ?thesis
    using merge_is_concatenation [OF sample_facts(1,1,2), of "[sample_batch]" "[sample_batch]" sample_lib] sample_facts(3) by auto
qed

end
