(* ===== verification/AggState.thy ===== *)
theory AggState
  imports Merging
begin

text \<open>
  \<open>internal/aggregate/state.go\<close>: the mergeable snapshot of an aggregator that workers send to the
  coordinator. A nil register slice is \<open>None\<close>.
\<close>

record measure_state =
  st_type :: column_type
  st_sum_i64 :: i64
  st_min_i64 :: i64
  st_max_i64 :: i64
  st_sum_f64 :: f64
  st_min_f64 :: f64
  st_max_f64 :: f64
  st_have_min_max :: bool
  st_registers :: "u8 list option"

record group_state =
  gs_key :: "value_t list"
  gs_count :: i64
  gs_measures :: "measure_state list"

text \<open>
  \<open>append([]byte(nil), xs...)\<close> is nil when \<open>xs\<close> is empty.
\<close>

definition copy_bytes :: "'a list \<Rightarrow> 'a list option" where
  "copy_bytes xs = (if xs = [] then None else Some xs)"

definition measure_accum_to_state :: "measure_accum \<Rightarrow> measure_state" where
  "measure_accum_to_state m =
     \<lparr>st_type = ma_type m, st_sum_i64 = sum_i64 m, st_min_i64 = min_i64 m, st_max_i64 = max_i64 m,
      st_sum_f64 = sum_f64 m, st_min_f64 = min_f64 m, st_max_f64 = max_f64 m, st_have_min_max = have_min_max m,
      st_registers = (case distinct_hll m of None \<Rightarrow> None | Some h \<Rightarrow> copy_bytes (registers h))\<rparr>"

definition group_accum_to_state :: "group_accum \<Rightarrow> group_state" where
  "group_accum_to_state g =
     \<lparr>gs_key = ga_key g, gs_count = ga_count g, gs_measures = map measure_accum_to_state (ga_measures g)\<rparr>"

definition export_state :: "aggregator \<Rightarrow> group_state list" where
  "export_state a = map group_accum_to_state (table_each (ag_table a))"

section \<open>Merging states\<close>

fun check_key :: "nat \<Rightarrow> value_t list \<Rightarrow> column_type list \<Rightarrow> agg_error + unit" where
  "check_key i (v # vs) (t # ts) =
     (if vtype v \<noteq> t then Inl (ErrKeyType i (vtype v) t) else check_key (Suc i) vs ts)"
| "check_key i vs ts = Inr ()"

definition state_to_measure :: "nat \<Rightarrow> measure_state \<Rightarrow> column_type \<Rightarrow> measure_wants \<Rightarrow> agg_error + measure_accum" where
  "state_to_measure i ms t w =
     (if st_type ms \<noteq> t then Inl (ErrMeasureType i (st_type ms) t)
      else if wants_distinct w \<noteq> (st_registers ms \<noteq> None) then Inl (ErrHllPresence i (wants_distinct w))
      else
        (let m = \<lparr>ma_type = st_type ms, sum_i64 = st_sum_i64 ms, min_i64 = st_min_i64 ms, max_i64 = st_max_i64 ms,
                  sum_f64 = st_sum_f64 ms, min_f64 = st_min_f64 ms, max_f64 = st_max_f64 ms,
                  have_min_max = st_have_min_max ms, distinct_hll = None, digest = None\<rparr>
         in if wants_distinct w
            then (if length (the (st_registers ms)) \<noteq> hll_size
                  then Inl (ErrHllLength i (length (the (st_registers ms))) hll_size)
                  else Inr (m\<lparr>distinct_hll := Some \<lparr>registers = the (st_registers ms)\<rparr>\<rparr>))
            else Inr m))"

fun state_to_measures :: "nat \<Rightarrow> measure_state list \<Rightarrow> column_type list \<Rightarrow> measure_wants list \<Rightarrow> agg_error + measure_accum list" where
  "state_to_measures i (ms # mss) (t # ts) (w # ws) =
     (case state_to_measure i ms t w of
        Inl e \<Rightarrow> Inl e
      | Inr m \<Rightarrow> (case state_to_measures (Suc i) mss ts ws of Inl e \<Rightarrow> Inl e | Inr rest \<Rightarrow> Inr (m # rest)))"
| "state_to_measures i [] ts ws = Inr []"
| "state_to_measures i (ms # mss) ts ws = Inl AggPanic"

definition state_to_group_accum :: "aggregator \<Rightarrow> group_state \<Rightarrow> agg_error + group_accum" where
  "state_to_group_accum a s =
     (if length (gs_key s) \<noteq> length (group_by_types a) then Inl (ErrKeyArity (length (gs_key s)) (length (group_by_types a)))
      else (case check_key 0 (gs_key s) (group_by_types a) of
          Inl e \<Rightarrow> Inl e
        | Inr _ \<Rightarrow>
            (if length (gs_measures s) \<noteq> length (measure_types a)
             then Inl (ErrMeasureCount (length (gs_measures s)) (length (measure_types a)))
             else (case state_to_measures 0 (gs_measures s) (measure_types a) (ag_wants a) of
                 Inl e \<Rightarrow> Inl e
               | Inr ms \<Rightarrow> Inr \<lparr>ga_key = gs_key s, ga_count = gs_count s, ga_measures = ms\<rparr>))))"

fun reject_percentiles :: "measure_wants list \<Rightarrow> measure_spec list \<Rightarrow> agg_error + unit" where
  "reject_percentiles [] mss = Inr ()"
| "reject_percentiles (w # ws) mss =
     (if wants_percentile w then (case mss of [] \<Rightarrow> Inl AggPanic | ms # _ \<Rightarrow> Inl (ErrPercentileState (ms_column ms)))
      else reject_percentiles ws (tl mss))"

definition merge_state :: "runtime_lib \<Rightarrow> group_state list \<Rightarrow> aggregator \<Rightarrow> agg_error + aggregator" where
  "merge_state lib states a =
     (case reject_percentiles (ag_wants a) (measures (ag_spec a)) of
        Inl e \<Rightarrow> Inl e
      | Inr _ \<Rightarrow>
          (case traverse (state_to_group_accum a) states of
             Inl e \<Rightarrow> Inl e
           | Inr accums \<Rightarrow> fold_res (merge_group lib) accums a))"

section \<open>Exported states are accepted\<close>

lemma hll_size_pos: "0 < hll_size"
  by (simp add: hll_size_def)

lemma state_measure_roundtrip:
  assumes "measure_shape t w m" and "\<not> wants_percentile w"
  shows "state_to_measure i (measure_accum_to_state m) t w = Inr m"
proof -
  have d: "digest m = None" using assms by (simp add: measure_shape_def)
  show ?thesis
  proof (cases "distinct_hll m")
    case None
    then show ?thesis using assms d
      by (cases m) (simp add: state_to_measure_def measure_accum_to_state_def measure_shape_def)
  next
    case (Some h)
    then have "wants_distinct w" "length (registers h) = hll_size" using assms by (simp_all add: measure_shape_def hll_ok_def)
    moreover from this have "registers h \<noteq> []" using hll_size_pos by auto
    ultimately show ?thesis using assms d Some
      by (cases m; cases h) (simp add: state_to_measure_def measure_accum_to_state_def measure_shape_def copy_bytes_def)
  qed
qed

lemma state_measures_roundtrip:
  "list_all2 (\<lambda>(t, w). measure_shape t w) (zip ts ws) ms \<Longrightarrow> length ts = length ws \<Longrightarrow> list_all (\<lambda>w. \<not> wants_percentile w) ws \<Longrightarrow>
     state_to_measures i (map measure_accum_to_state ms) ts ws = Inr ms"
proof (induction ms arbitrary: i ts ws)
  case Nil
  then show ?case by simp
next
  case (Cons m ms)
  then obtain t ts' w ws' where "ts = t # ts'" "ws = w # ws'" by (cases ts; cases ws) auto
  with Cons show ?case by (simp add: state_measure_roundtrip)
qed

lemma check_key_ok: "key_ok ts key \<Longrightarrow> list_all known_type ts \<Longrightarrow> check_key i key ts = Inr ()"
proof (induction ts arbitrary: i key)
  case Nil
  then show ?case by (simp add: key_ok_def)
next
  case (Cons t ts)
  then obtain v vs where v: "key = v # vs" "canonical t v" "key_ok ts vs" by (auto simp: key_ok_def list_all2_Cons1)
  then have "vtype v = t" using canonical_type [OF v(2)] Cons.prems(2) by (auto simp: known_type_def)
  then show ?case using Cons v by simp
qed

lemma group_state_roundtrip:
  assumes "config_ok a" and "group_shape a g" and "key_ok (group_by_types a) (ga_key g)"
    and "list_all (\<lambda>w. \<not> wants_percentile w) (ag_wants a)"
  shows "state_to_group_accum a (group_accum_to_state g) = Inr g"
proof -
  have "state_to_measures 0 (map measure_accum_to_state (ga_measures g)) (measure_types a) (ag_wants a) = Inr (ga_measures g)"
    using assms by (intro state_measures_roundtrip) (simp_all add: group_shape_def config_ok_def)
  moreover have "length (ga_measures g) = length (measure_types a)"
    using assms(1,2) group_shape_length [OF assms(1,2)] config_okD(2) [OF assms(1)] by (auto dest: list_all2_lengthD)
  moreover have "length (ga_key g) = length (group_by_types a)" using assms(3) by (auto simp: key_ok_def dest: list_all2_lengthD)
  ultimately show ?thesis
    using check_key_ok [OF assms(3)] config_okD(3) [OF assms(1)]
    by (simp add: state_to_group_accum_def group_accum_to_state_def)
qed

lemma reject_percentiles_ok: "list_all (\<lambda>w. \<not> wants_percentile w) ws \<Longrightarrow> reject_percentiles ws mss = Inr ()"
  by (induction ws arbitrary: mss) auto

lemma wants_of_types: "agg_inv a0 a \<Longrightarrow> state_to_group_accum a = state_to_group_accum a0"
  unfolding state_to_group_accum_def by (simp only: same_config)

lemma export_accepted:
  assumes b: "agg_inv b0 b" and same: "same_shape a0 b0" and c: "config_ok a0" and no: "list_all (\<lambda>w. \<not> wants_percentile w) (ag_wants a0)"
  shows "traverse (state_to_group_accum a0) (export_state b) = Inr (table_each (ag_table b))"
proof -
  have "state_to_group_accum a0 (group_accum_to_state g) = Inr g" if g: "g \<in> set (table_each (ag_table b))" for g
  proof -
    have k: "keyed_ok (hash_key (ag_seed b0)) (key_ok (group_by_types b0)) (ag_table b)" using b by (simp add: agg_inv_def)
    have "groups b (ga_key g) = Some g" unfolding groups_def using keyed_each(2) [OF k] g by blast
    from groups_key [OF b this] have "key_ok (group_by_types a0) (ga_key g)" "group_shape a0 g"
      using same by (simp_all add: same_shape_def group_shape_def)
    with group_state_roundtrip [OF c] no show ?thesis by blast
  qed
  then show ?thesis
    by (simp add: export_state_def traverse_Inr_iff list_all2_conv_all_nth)
qed

lemma merge_state_fold:
  assumes "agg_inv a0 a" and "agg_inv b0 b" and "same_shape a0 b0" and "list_all (\<lambda>w. \<not> wants_percentile w) (ag_wants a0)"
  shows "merge_state lib (export_state b) a = fold_res (merge_group lib) (table_each (ag_table b)) a"
proof -
  have c: "config_ok a0" using assms(1) by (simp add: agg_inv_def)
  show ?thesis
    by (simp add: merge_state_def same_config [OF assms(1)] wants_of_types [OF assms(1)]
        export_accepted [OF assms(2,3) c assms(4)] reject_percentiles_ok [OF assms(4)])
qed

lemma merge_state_holds:
  assumes a: "holds lib a0 a xs" and b: "holds lib b0 b ys" and same: "same_shape a0 b0"
    and no: "list_all (\<lambda>w. \<not> wants_percentile w) (ag_wants a0)" and room: "length xs + length ys \<le> max_groups"
  shows "\<exists>c. merge_state lib (export_state b) a = Inr c \<and> holds lib a0 c (xs @ ys)"
  unfolding merge_state_fold [OF holds_inv [OF a] holds_inv [OF b] same no] by (rule merge_table_holds [OF a b same room])

text \<open>
  C13. Sending a state over the wire changes nothing: merging the exported state of an aggregator is the same
  as merging the aggregator itself, result and errors included, for any two aggregators built from one
  schema and spec without percentiles.
\<close>

theorem merge_state_is_merge:
  assumes "holds lib a0 a xs" and "holds lib b0 b ys" and "same_shape a0 b0" and "spec_reflexive (ag_spec a0)"
    and "list_all (\<lambda>w. \<not> wants_percentile w) (ag_wants a0)"
  shows "merge_state lib (export_state b) a = agg_merge lib a b"
proof -
  have a: "agg_inv a0 a" and b: "agg_inv b0 b" using assms(1,2) by (simp_all add: holds_def)
  note ca = same_config [OF a] and cb = same_config [OF b]
  have same: "ag_spec b0 = ag_spec a0" "measure_types b0 = measure_types a0" using assms(3) by (simp_all add: same_shape_def)
  have "merge_state lib (export_state b) a = fold_res (merge_group lib) (table_each (ag_table b)) a"
    by (rule merge_state_fold [OF a b assms(3,5)])
  moreover have "agg_merge lib a b = fold_res (merge_group lib) (table_each (ag_table b)) a"
    using assms(4) by (simp add: agg_merge_def ca cb same specs_equal_refl merge_types_same)
  ultimately show ?thesis by simp
qed

lemma sample_reflexive: "spec_reflexive sample_spec"
  by (simp add: spec_reflexive_def sample_spec_def agg_func_defs is_nan_def f64_zero_def f64_mag_def inf_mag_def)

theorem merge_state_is_merge_witness:
  "\<exists>a. add_all sample_lib [sample_batch] sample_agg = Inr a
     \<and> merge_state sample_lib (export_state a) a = agg_merge sample_lib a a"
proof -
  have new: "holds sample_lib sample_agg sample_agg []" by (rule holds_new [OF sample_facts(1,2)])
  have "length (all_rows sample_agg [sample_batch]) \<le> max_groups" unfolding sample_facts(4) by (simp add: max_groups_def)
  then obtain a where a: "add_all sample_lib [sample_batch] sample_agg = Inr a"
      "holds sample_lib sample_agg a (all_rows sample_agg [sample_batch])"
    using holds_add_all [OF new, of "[sample_batch]"] sample_facts(3) by (auto simp: sample_agg_def)
  have "merge_state sample_lib (export_state a) a = agg_merge sample_lib a a"
    by (rule merge_state_is_merge [OF a(2) a(2)])
      (simp_all add: same_shape_def sample_agg_def sample_reflexive)
  with a(1) show ?thesis by blast
qed

section \<open>States from elsewhere\<close>

lemma state_to_measure_shape: "state_to_measure i ms t w = Inr m \<Longrightarrow> \<not> wants_percentile w \<Longrightarrow> measure_shape t w m"
  by (auto simp: state_to_measure_def Let_def measure_shape_def hll_ok_def split: if_splits)

lemma state_to_measures_shape:
  "state_to_measures i mss ts ws = Inr ms \<Longrightarrow> length mss = length ts \<Longrightarrow> length ts = length ws \<Longrightarrow>
     list_all (\<lambda>w. \<not> wants_percentile w) ws \<Longrightarrow> list_all2 (\<lambda>(t, w). measure_shape t w) (zip ts ws) ms"
  by (induction i mss ts ws arbitrary: ms rule: state_to_measures.induct)
    (auto intro: state_to_measure_shape split: sum.splits)

lemma state_to_measures_error:
  "state_to_measures i mss ts ws = Inl e \<Longrightarrow> length mss = length ts \<Longrightarrow> length ts = length ws \<Longrightarrow> e \<noteq> AggPanic \<and> e \<noteq> AggLoops"
  by (induction i mss ts ws rule: state_to_measures.induct)
    (auto simp: state_to_measure_def Let_def split: sum.splits if_splits)

lemma check_key_types: "check_key i key ts = Inr () \<Longrightarrow> length key = length ts \<Longrightarrow> map vtype key = ts"
  by (induction i key ts rule: check_key.induct) (auto split: if_splits)

lemma check_key_error: "check_key i key ts = Inl e \<Longrightarrow> e \<noteq> AggPanic \<and> e \<noteq> AggLoops"
  by (induction i key ts rule: check_key.induct) (auto split: if_splits)

lemma state_to_group_shape:
  assumes "state_to_group_accum a s = Inr g" and "config_ok a" and "list_all (\<lambda>w. \<not> wants_percentile w) (ag_wants a)"
    and "\<forall>v \<in> set (gs_key s). canonical (vtype v) v"
  shows "group_shape a g \<and> key_ok (group_by_types a) (ga_key g)"
proof -
  obtain ms where ms: "length (gs_key s) = length (group_by_types a)" "check_key 0 (gs_key s) (group_by_types a) = Inr ()"
      "length (gs_measures s) = length (measure_types a)"
      "state_to_measures 0 (gs_measures s) (measure_types a) (ag_wants a) = Inr ms"
      "g = \<lparr>ga_key = gs_key s, ga_count = gs_count s, ga_measures = ms\<rparr>"
    using assms(1) by (auto simp: state_to_group_accum_def split: if_splits sum.splits)
  have "length (measure_types a) = length (ag_wants a)" using assms(2) by (simp add: config_ok_def)
  from state_to_measures_shape [OF ms(4,3) this assms(3)] have "group_shape a g" by (simp add: group_shape_def ms(5))
  moreover have "key_ok (group_by_types a) (gs_key s)"
    unfolding check_key_types [OF ms(2,1), symmetric] using assms(4) by (auto simp: key_ok_def list_all2_conv_all_nth)
  ultimately show ?thesis by (simp add: ms(5))
qed

lemma state_to_group_error:
  "state_to_group_accum a s = Inl e \<Longrightarrow> config_ok a \<Longrightarrow> e \<noteq> AggPanic \<and> e \<noteq> AggLoops"
  using check_key_error state_to_measures_error
  by (auto simp: state_to_group_accum_def config_ok_def split: if_splits sum.splits)

lemma reject_percentiles_error: "reject_percentiles ws mss = Inl e \<Longrightarrow> length ws = length mss \<Longrightarrow> e \<noteq> AggPanic \<and> e \<noteq> AggLoops"
  by (induction ws mss rule: reject_percentiles.induct) (auto split: if_splits list.splits)

lemma reject_percentiles_none: "reject_percentiles ws mss = Inr () \<Longrightarrow> list_all (\<lambda>w. \<not> wants_percentile w) ws"
  by (induction ws mss rule: reject_percentiles.induct) (auto split: if_splits list.splits)

text \<open>
  C22. States from another process cannot corrupt an aggregator: whatever their contents, as long as the key
  values are decoded ones, \<open>MergeState\<close> does not panic or hang. It returns a validation error, or an
  aggregator that satisfies the invariant and has a group for exactly the old keys and the states' keys.
\<close>

theorem merge_state_safe:
  assumes "agg_inv a0 a" and "length (ag_wants a0) = length (measures (ag_spec a0))"
    and "\<forall>s \<in> set states. \<forall>v \<in> set (gs_key s). canonical (vtype v) v" and "gt_size (ag_table a) + length states \<le> max_groups"
  shows "case merge_state lib states a of
      Inl e \<Rightarrow> e \<noteq> AggPanic \<and> e \<noteq> AggLoops
    | Inr a' \<Rightarrow> agg_inv a0 a' \<and> dom (groups a') = dom (groups a) \<union> gs_key ` set states"
proof -
  note ca = same_config [OF assms(1)]
  have c: "config_ok a0" using assms(1) by (simp add: agg_inv_def)
  consider e where "reject_percentiles (ag_wants a0) (measures (ag_spec a0)) = Inl e"
    | e where "reject_percentiles (ag_wants a0) (measures (ag_spec a0)) = Inr ()" "traverse (state_to_group_accum a0) states = Inl e"
    | gs where "reject_percentiles (ag_wants a0) (measures (ag_spec a0)) = Inr ()" "traverse (state_to_group_accum a0) states = Inr gs"
    by (metis old.sum.exhaust unit.exhaust)
  then show ?thesis
  proof cases
    case 1
    then show ?thesis using reject_percentiles_error assms(2) by (simp add: merge_state_def ca)
  next
    case 2
    then show ?thesis using traverse_Inl [OF 2(2)] state_to_group_error [OF _ c]
      by (auto simp: merge_state_def ca wants_of_types [OF assms(1)])
  next
    case 3
    have no: "list_all (\<lambda>w. \<not> wants_percentile w) (ag_wants a0)" using reject_percentiles_none [OF 3(1)] .
    have all: "list_all2 (\<lambda>s g. state_to_group_accum a0 s = Inr g) states gs" using 3(2) by (simp add: traverse_Inr_iff)
    then have len: "length gs = length states" by (simp add: list_all2_lengthD)
    have good: "group_shape a0 g \<and> key_ok (group_by_types a0) (ga_key g)" if "g \<in> set gs" for g
    proof -
      from that all obtain i where "i < length states" "state_to_group_accum a0 (states ! i) = Inr g"
        by (auto simp: list_all2_conv_all_nth in_set_conv_nth)
      with state_to_group_shape [OF _ c no] assms(3) show ?thesis by force
    qed
    have "state_to_group_accum a0 s = Inr g \<Longrightarrow> ga_key g = gs_key s" for s g
      by (auto simp: state_to_group_accum_def split: if_splits sum.splits)
    then have keys: "map ga_key gs = map gs_key states"
      using all by (auto simp: list_all2_conv_all_nth intro!: nth_equalityI)
    have m: "merge_state lib states a = fold_res (merge_group lib) gs a"
      using 3 by (simp add: merge_state_def ca wants_of_types [OF assms(1)])
    have room: "gt_size (ag_table a) + length gs \<le> max_groups" using assms(4) len by simp
    obtain a' where a': "fold_res (merge_group lib) gs a = Inr a'" "agg_inv a0 a'"
      using merges.fold_law [OF assms(1) good room, where lib = lib] by blast
    have "dom (groups a') = dom (groups a) \<union> ga_key ` set gs"
      by (rule merges.fold_keys [OF assms(1) good room a'(1)])
    also have "ga_key ` set gs = gs_key ` set states" using keys by (metis list.set_map)
    finally show ?thesis using m a' by simp
  qed
qed

theorem merge_state_safe_witness:
  "case merge_state sample_lib [\<lparr>gs_key = [int64_value 3], gs_count = 1, gs_measures = []\<rparr>] sample_agg of
      Inl e \<Rightarrow> e \<noteq> AggPanic \<and> e \<noteq> AggLoops
    | Inr a' \<Rightarrow> agg_inv sample_agg a' \<and> dom (groups a') = dom (groups sample_agg) \<union> {[int64_value 3]}"
proof -
  define states where "states = [\<lparr>gs_key = [int64_value 3], gs_count = 1, gs_measures = []\<rparr>]"
  have "case merge_state sample_lib states sample_agg of
      Inl e \<Rightarrow> e \<noteq> AggPanic \<and> e \<noteq> AggLoops
    | Inr a' \<Rightarrow> agg_inv sample_agg a' \<and> dom (groups a') = dom (groups sample_agg) \<union> gs_key ` set states"
    by (rule merge_state_safe [OF new_agg_inv(1) [OF sample_facts(1,2)]])
      (use new_agg_inv(3) [OF sample_facts(1,2)] in
        \<open>simp_all add: states_def sample_agg_def sample_spec_def max_groups_def del: One_nat_def\<close>)
  then show ?thesis by (simp add: states_def cong: sum.case_cong)
qed

end
