(* ===== verification/Results.thy ===== *)
theory Results
  imports Merging 
begin

text \<open>
  \<open>internal/aggregate/result.go\<close> and \<open>Aggregator.Result\<close>: the finished values of a group, and the groups in
  the order of their keys.

  \<open>Quantile\<close> flushes a digest's buffer, so \<open>Result\<close> changes the aggregator; the functions here return the
  flushed state with the value. \<open>sort.Slice\<close> is a parameter: what it promises is \<open>slice_sorts\<close>, and its
  order of equal elements is left open.
\<close>

record measure_result =
  mr_column :: string
  mr_func :: agg_func
  mr_value :: value_t

record group_result =
  gr_key :: "value_t list"
  gr_count :: i64
  gr_measures :: "measure_result list"

record agg_result =
  rs_group_by :: "string list"
  rs_groups :: "group_result list"

section \<open>The value of one function\<close>

text \<open>\<open>None\<close> is a nil dereference.\<close>

definition measure_result_value :: "runtime_lib \<Rightarrow> measure_accum \<Rightarrow> i64 \<Rightarrow> agg_func \<Rightarrow> (value_t \<times> measure_accum) option" where
  "measure_result_value lib m n fn =
     (case af_kind fn of
        KindSum \<Rightarrow> Some (if ma_type m = TypeInt64 then int64_value (sum_i64 m) else float64_value (sum_f64 m), m)
      | KindMin \<Rightarrow> Some (if ma_type m = TypeInt64 then int64_value (min_i64 m) else float64_value (min_f64 m), m)
      | KindMax \<Rightarrow> Some (if ma_type m = TypeInt64 then int64_value (max_i64 m) else float64_value (max_f64 m), m)
      | KindAvg \<Rightarrow>
          (let sum = (if ma_type m = TypeInt64 then f64_of_int (sint (sum_i64 m)) else sum_f64 m)
           in Some (float64_value (f64_div sum (f64_of_int (sint n))), m))
      | KindDistinct \<Rightarrow>
          (case distinct_hll m of
             None \<Rightarrow> None
           | Some h \<Rightarrow> Some (int64_value (i64_of_rounded (hll_estimate (lib_log lib) h)), m))
      | KindPercentile \<Rightarrow>
          (case digest m of
             None \<Rightarrow> None
           | Some d \<Rightarrow>
               (let (v, d') = quantile lib (f64_div (af_q fn) (f64_of_int 100)) d
                in Some (float64_value v, m\<lparr>digest := Some d'\<rparr>)))
      | FuncKindOther _ \<Rightarrow> Some (zero_value, m))"

fun func_results :: "runtime_lib \<Rightarrow> string \<Rightarrow> i64 \<Rightarrow> agg_func list \<Rightarrow> measure_accum \<Rightarrow> (measure_result list \<times> measure_accum) option" where
  "func_results lib col n [] m = Some ([], m)"
| "func_results lib col n (fn # fns) m =
     (case measure_result_value lib m n fn of
        None \<Rightarrow> None
      | Some (v, m1) \<Rightarrow>
          map_option (\<lambda>(rs, m2). (\<lparr>mr_column = col, mr_func = fn, mr_value = v\<rparr> # rs, m2)) (func_results lib col n fns m1))"

fun measure_results :: "runtime_lib \<Rightarrow> i64 \<Rightarrow> measure_spec list \<Rightarrow> measure_accum list \<Rightarrow> (measure_result list \<times> measure_accum list) option" where
  "measure_results lib n [] ms = Some ([], ms)"
| "measure_results lib n (s # ss) [] = (if ms_funcs s = [] then measure_results lib n ss [] else None)"
| "measure_results lib n (s # ss) (m # ms) =
     (case func_results lib (ms_column s) n (ms_funcs s) m of
        None \<Rightarrow> None
      | Some (rs, m') \<Rightarrow> map_option (\<lambda>(rs', ms'). (rs @ rs', m' # ms')) (measure_results lib n ss ms))"

definition group_result_of :: "runtime_lib \<Rightarrow> agg_spec \<Rightarrow> group_accum \<Rightarrow> (group_result \<times> group_accum) option" where
  "group_result_of lib spec g =
     map_option (\<lambda>(rs, ms). (\<lparr>gr_key = ga_key g, gr_count = ga_count g, gr_measures = rs\<rparr>, g\<lparr>ga_measures := ms\<rparr>))
       (measure_results lib (ga_count g) (measures spec) (ga_measures g))"

section \<open>Key order\<close>

definition cmp_value :: "column_type \<Rightarrow> value_t \<Rightarrow> value_t \<Rightarrow> int" where
  "cmp_value t v w =
     (case t of TypeString \<Rightarrow> cmp_string (vstr v) (vstr w) | TypeInt64 \<Rightarrow> cmp_i64 (vi64 v) (vi64 w)
      | TypeFloat64 \<Rightarrow> cmp_f64 (vf64 v) (vf64 w) | TypeOther _ \<Rightarrow> 0)"

fun compare_keys :: "column_type list \<Rightarrow> value_t list \<Rightarrow> value_t list \<Rightarrow> int" where
  "compare_keys (t # ts) (v # vs) (w # ws) = (let c = cmp_value t v w in if c \<noteq> 0 then c else compare_keys ts vs ws)"
| "compare_keys ts vs ws = 0"

type_synonym slice_sort = "(group_result \<Rightarrow> group_result \<Rightarrow> bool) \<Rightarrow> group_result list \<Rightarrow> group_result list"

definition sort_groups :: "slice_sort \<Rightarrow> column_type list \<Rightarrow> group_result list \<Rightarrow> group_result list" where
  "sort_groups sort_slice ts = sort_slice (\<lambda>a b. compare_keys ts (gr_key a) (gr_key b) < 0)"

section \<open>The snapshot\<close>

fun snapshot_slots :: "runtime_lib \<Rightarrow> agg_spec \<Rightarrow> nat list \<Rightarrow> group_table \<Rightarrow> (group_result list \<times> group_table) option" where
  "snapshot_slots lib spec [] t = Some ([], t)"
| "snapshot_slots lib spec (i # is) t =
     (if \<not> gt_full t ! i then snapshot_slots lib spec is t
      else (case gt_slots t ! i of
          None \<Rightarrow> None
        | Some g \<Rightarrow>
            (case group_result_of lib spec g of
               None \<Rightarrow> None
             | Some (r, g') \<Rightarrow> map_option (\<lambda>(rs, t'). (r # rs, t')) (snapshot_slots lib spec is (set_slot i g' t)))))"

definition agg_result_of :: "slice_sort \<Rightarrow> runtime_lib \<Rightarrow> aggregator \<Rightarrow> (agg_result \<times> aggregator) option" where
  "agg_result_of sort_slice lib a =
     map_option (\<lambda>(rs, t). (\<lparr>rs_group_by = group_by (ag_spec a), rs_groups = sort_groups sort_slice (group_by_types a) rs\<rparr>, a\<lparr>ag_table := t\<rparr>))
       (snapshot_slots lib (ag_spec a) [0..<length (gt_full (ag_table a))] (ag_table a))"

section \<open>Comparison is a total preorder\<close>

locale comparator =
  fixes cmp :: "'a \<Rightarrow> 'a \<Rightarrow> int" and dom :: "'a \<Rightarrow> bool"
  assumes flip: "dom x \<Longrightarrow> dom y \<Longrightarrow> cmp y x = - cmp x y"
    and trans_le: "dom x \<Longrightarrow> dom y \<Longrightarrow> dom z \<Longrightarrow> cmp x y \<le> 0 \<Longrightarrow> cmp y z \<le> 0 \<Longrightarrow> cmp x z \<le> 0"
begin

lemma refl: "dom x \<Longrightarrow> cmp x x = 0"
  using flip [of x x] by simp

lemma trans_less: "dom x \<Longrightarrow> dom y \<Longrightarrow> dom z \<Longrightarrow> cmp x y < 0 \<Longrightarrow> cmp y z \<le> 0 \<Longrightarrow> cmp x z < 0"
  using trans_le [of y z x] flip [of z x] flip [of x y] by fastforce

lemma trans_less': "dom x \<Longrightarrow> dom y \<Longrightarrow> dom z \<Longrightarrow> cmp x y \<le> 0 \<Longrightarrow> cmp y z < 0 \<Longrightarrow> cmp x z < 0"
  using trans_le [of z x y] flip [of z x] flip [of y z] by fastforce

lemma trans_eq: "dom x \<Longrightarrow> dom y \<Longrightarrow> dom z \<Longrightarrow> cmp x y = 0 \<Longrightarrow> cmp y z = 0 \<Longrightarrow> cmp x z = 0"
  using trans_le [of x y z] trans_le [of z y x] flip [of y z] flip [of x y] flip [of x z] by simp

end

interpretation string_order: comparator cmp_string "\<lambda>_. True"
  by unfold_locales (auto simp: cmp_string_def cmp_ord_def split: if_splits)

lemma cmp_f64_key:
  "cmp_f64 x y = cmp_ord (if is_nan x then - inf_mag - 1 else f64_key x) (if is_nan y then - inf_mag - 1 else f64_key y)"
proof -
  have "\<not> is_nan z \<Longrightarrow> - inf_mag - 1 < f64_key z" for z
    using f64_mag_range(1) [of z] by (simp add: f64_key_def is_nan_def)
  from this [of x] this [of y] show ?thesis
    by (cases "is_nan x"; cases "is_nan y") (simp_all add: cmp_f64_def cmp_ord_def f64_lt_def)
qed

lemma cmp_ord_same [simp]: "cmp_ord x x = 0"
  by (simp add: cmp_ord_def)

lemma cmp_ord_trans: "cmp_ord x y \<le> 0 \<Longrightarrow> cmp_ord y z \<le> 0 \<Longrightarrow> cmp_ord x z \<le> 0"
  by (auto simp: cmp_ord_def split: if_splits)

interpretation value_order: comparator "cmp_value t" "\<lambda>_. True" for t
proof (cases t)
  case (TypeOther n)
  then show "comparator (cmp_value t) (\<lambda>_. True)" by unfold_locales (auto simp: cmp_value_def)
qed (unfold_locales, auto simp: cmp_value_def cmp_string_def cmp_i64_def cmp_f64_key intro: cmp_ord_swap cmp_ord_trans)

lemma compare_keys_flip: "length v = length ts \<Longrightarrow> length w = length ts \<Longrightarrow> compare_keys ts w v = - compare_keys ts v w"
proof (induction ts arbitrary: v w)
  case (Cons t ts)
  from Cons.prems obtain x v' y w' where l: "v = x # v'" "w = y # w'" "length v' = length ts" "length w' = length ts"
    by (cases v; cases w) auto
  have "cmp_value t y x = - cmp_value t x y" by (rule value_order.flip) (rule TrueI)+
  then show ?case using Cons.IH [OF l(3,4)] by (simp add: l Let_def)
qed simp

lemma compare_keys_trans:
  "length u = length ts \<Longrightarrow> length v = length ts \<Longrightarrow> length w = length ts \<Longrightarrow>
     compare_keys ts u v \<le> 0 \<Longrightarrow> compare_keys ts v w \<le> 0 \<Longrightarrow> compare_keys ts u w \<le> 0"
proof (induction ts arbitrary: u v w)
  case (Cons t ts)
  then obtain x u' y v' z w' where l: "u = x # u'" "v = y # v'" "w = z # w'"
    by (metis length_Suc_conv)
  have c: "cmp_value t x y < 0 \<or> cmp_value t x y = 0 \<and> compare_keys ts u' v' \<le> 0"
      "cmp_value t y z < 0 \<or> cmp_value t y z = 0 \<and> compare_keys ts v' w' \<le> 0"
    using Cons.prems(4,5) by (auto simp: l Let_def split: if_splits)
  then consider "cmp_value t x z < 0" | "cmp_value t x z = 0" "compare_keys ts u' w' \<le> 0"
    using value_order.trans_less [where t = t and x = x and y = y and z = z] value_order.trans_less' [where t = t and x = x and y = y and z = z]
      value_order.trans_eq [where t = t and x = x and y = y and z = z] Cons.IH [of u' v' w'] Cons.prems(1-3)
    by (auto simp: l)
  then show ?case by cases (simp_all add: l Let_def)
qed simp

interpretation key_order: comparator "compare_keys ts" "\<lambda>v. length v = length ts" for ts
  by unfold_locales (rule compare_keys_flip, assumption+, rule compare_keys_trans)



section \<open>Values survive the flush\<close>

definition measure_value :: "runtime_lib \<Rightarrow> measure_accum \<Rightarrow> i64 \<Rightarrow> agg_func \<Rightarrow> value_t" where
  "measure_value lib m n fn = fst (the (measure_result_value lib m n fn))"

definition flush_measure :: "runtime_lib \<Rightarrow> measure_accum \<Rightarrow> measure_accum" where
  "flush_measure lib m = m\<lparr>digest := map_option (flush_pending lib) (digest m)\<rparr>"

lemma flush_flush: "flush_pending lib (flush_pending lib t) = flush_pending lib t"
proof -
  have "td_buffer (compress lib t) = []" by (simp add: compress_def Let_def split: list.splits)
  then show ?thesis by (simp add: flush_pending_def)
qed

lemma snd_quantile: "snd (quantile lib q t) = flush_pending lib t"
  by (simp add: quantile_def Let_def)

lemma flush_measure_idem: "flush_measure lib (flush_measure lib m) = flush_measure lib m"
  by (cases "digest m") (simp_all add: flush_measure_def flush_flush)

lemma flush_measure_fields [simp]:
  "ma_type (flush_measure lib m) = ma_type m" "distinct_hll (flush_measure lib m) = distinct_hll m"
  "digest (flush_measure lib m) = map_option (flush_pending lib) (digest m)" "core_of (flush_measure lib m) = core_of m"
  "sum_f64 (flush_measure lib m) = sum_f64 m"
  by (simp_all add: flush_measure_def core_of_def)

lemma measure_value_flush: "measure_value lib (flush_measure lib m) n fn = measure_value lib m n fn"
  by (simp add: measure_value_def measure_result_value_def flush_measure_def case_prod_unfold quantile_flushed Let_def
      split: func_kind.splits option.splits)

definition computable :: "measure_accum \<Rightarrow> agg_func \<Rightarrow> bool" where
  "computable m fn \<longleftrightarrow> (af_kind fn = KindDistinct \<longrightarrow> distinct_hll m \<noteq> None) \<and> (af_kind fn = KindPercentile \<longrightarrow> digest m \<noteq> None)"

lemma measure_result_value_ok:
  assumes "computable m fn"
  shows "measure_result_value lib m n fn = Some (measure_value lib m n fn, if af_kind fn = KindPercentile then flush_measure lib m else m)"
  using assms
  by (auto simp: measure_value_def measure_result_value_def computable_def flush_measure_def case_prod_unfold snd_quantile Let_def
      split: func_kind.splits option.splits)

definition func_values :: "runtime_lib \<Rightarrow> string \<Rightarrow> i64 \<Rightarrow> agg_func list \<Rightarrow> measure_accum \<Rightarrow> measure_result list" where
  "func_values lib col n fns m = map (\<lambda>fn. \<lparr>mr_column = col, mr_func = fn, mr_value = measure_value lib m n fn\<rparr>) fns"

lemma func_values_flush [simp]: "func_values lib col n fns (flush_measure lib m) = func_values lib col n fns m"
  by (simp add: func_values_def measure_value_flush)

lemma func_results_ok:
  assumes "\<forall>fn \<in> set fns. computable m fn"
  shows "\<exists>m'. func_results lib col n fns m = Some (func_values lib col n fns m, m') \<and> (m' = m \<or> m' = flush_measure lib m)"
  using assms
proof (induction fns arbitrary: m)
  case Nil
  then show ?case by (simp add: func_values_def)
next
  case (Cons fn fns)
  define m1 where "m1 = (if af_kind fn = KindPercentile then flush_measure lib m else m)"
  have "computable m fn" using Cons.prems by simp
  from measure_result_value_ok [OF this] have v: "measure_result_value lib m n fn = Some (measure_value lib m n fn, m1)"
    by (simp add: m1_def)
  have "\<forall>fn \<in> set fns. computable m1 fn" using Cons.prems by (auto simp: m1_def computable_def)
  from Cons.IH [OF this] obtain m' where m': "func_results lib col n fns m1 = Some (func_values lib col n fns m1, m')"
      "m' = m1 \<or> m' = flush_measure lib m1"
    by blast
  have "m' = m \<or> m' = flush_measure lib m" using m'(2) by (auto simp: m1_def flush_measure_idem split: if_splits)
  moreover have "func_values lib col n fns m1 = func_values lib col n fns m" by (simp add: m1_def)
  ultimately show ?case using v m'(1) by (simp add: func_values_def)
qed

section \<open>One group\<close>

text \<open>\<open>New\<close> asked for the structures the functions need.\<close>

definition spec_config :: "aggregator \<Rightarrow> bool" where
  "spec_config a \<longleftrightarrow> list_all2 (\<lambda>s w. \<forall>fn \<in> set (ms_funcs s). (af_kind fn = KindDistinct \<longrightarrow> wants_distinct w)
       \<and> (af_kind fn = KindPercentile \<longrightarrow> wants_percentile w)) (measures (ag_spec a)) (ag_wants a)"

lemma resolve_wants_ok:
  "resolve_wants col t fns w = Inr w' \<Longrightarrow> (wants_distinct w \<longrightarrow> wants_distinct w') \<and> (wants_percentile w \<longrightarrow> wants_percentile w')
     \<and> (\<forall>fn \<in> set fns. (af_kind fn = KindDistinct \<longrightarrow> wants_distinct w') \<and> (af_kind fn = KindPercentile \<longrightarrow> wants_percentile w'))"
  by (induction fns arbitrary: w) (auto split: if_splits func_kind.splits)

lemma resolve_measures_wants:
  "resolve_measures s mss = Inr ms \<Longrightarrow> list_all2 (\<lambda>s w. \<forall>fn \<in> set (ms_funcs s). (af_kind fn = KindDistinct \<longrightarrow> wants_distinct w)
       \<and> (af_kind fn = KindPercentile \<longrightarrow> wants_percentile w)) mss (map (snd \<circ> snd) ms)"
proof (induction mss arbitrary: ms)
  case Nil
  then show ?case by simp
next
  case (Cons m mss)
  from Cons.prems obtain i t w rest where "resolve_wants (ms_column m) t (ms_funcs m) \<lparr>wants_distinct = False, wants_percentile = False\<rparr> = Inr w"
      "resolve_measures s mss = Inr rest" "ms = (i, t, w) # rest"
    by (auto simp: Let_def split: option.splits sum.splits)
  then show ?case using Cons.IH [of rest] resolve_wants_ok [of "ms_column m" t "ms_funcs m" _ w] by simp
qed

lemma new_spec_config: "new_aggregator seed s spec = Inr a \<Longrightarrow> spec_config a"
  using resolve_measures_wants by (auto simp: new_aggregator_def spec_config_def split: sum.splits)

definition group_values :: "runtime_lib \<Rightarrow> agg_spec \<Rightarrow> group_accum \<Rightarrow> group_result" where
  "group_values lib spec g =
     \<lparr>gr_key = ga_key g, gr_count = ga_count g,
      gr_measures = concat (map2 (\<lambda>s m. func_values lib (ms_column s) (ga_count g) (ms_funcs s) m) (measures spec) (ga_measures g))\<rparr>"

definition flush_rel :: "runtime_lib \<Rightarrow> measure_accum list \<Rightarrow> measure_accum list \<Rightarrow> bool" where
  "flush_rel lib = list_all2 (\<lambda>m m'. m' = m \<or> m' = flush_measure lib m)"

lemma measure_results_ok:
  "list_all2 (\<lambda>s m. \<forall>fn \<in> set (ms_funcs s). computable m fn) ss ms \<Longrightarrow>
     \<exists>ms'. measure_results lib n ss ms = Some (concat (map2 (\<lambda>s m. func_values lib (ms_column s) n (ms_funcs s) m) ss ms), ms') \<and> flush_rel lib ms ms'"
proof (induction rule: list_all2_induct)
  case Nil
  then show ?case by (simp add: flush_rel_def)
next
  case (Cons s ss m ms)
  obtain m' where "func_results lib (ms_column s) n (ms_funcs s) m = Some (func_values lib (ms_column s) n (ms_funcs s) m, m')"
      "m' = m \<or> m' = flush_measure lib m"
    using func_results_ok [OF Cons(1)] by blast
  with Cons(3) show ?case by (auto simp: flush_rel_def)
qed

lemma group_computable:
  assumes "config_ok a" and "spec_config a" and "group_shape a g"
  shows "list_all2 (\<lambda>s m. \<forall>fn \<in> set (ms_funcs s). computable m fn) (measures (ag_spec a)) (ga_measures g)"
proof -
  have "length (measure_types a) = length (ag_wants a)" using assms(1) by (simp add: config_ok_def)
  moreover have "measure_shape t w m \<Longrightarrow> (af_kind fn = KindDistinct \<longrightarrow> wants_distinct w) \<Longrightarrow> (af_kind fn = KindPercentile \<longrightarrow> wants_percentile w)
      \<Longrightarrow> computable m fn" for t w m fn
    by (auto simp: measure_shape_def computable_def split: option.splits)
  ultimately show ?thesis
    using assms(2,3) unfolding spec_config_def group_shape_def list_all2_conv_all_nth by (fastforce simp: nth_zip)
qed

lemma group_result_ok:
  assumes "config_ok a" and "spec_config a" and "group_shape a g"
  shows "\<exists>ms. group_result_of lib (ag_spec a) g = Some (group_values lib (ag_spec a) g, g\<lparr>ga_measures := ms\<rparr>) \<and> flush_rel lib (ga_measures g) ms"
  using measure_results_ok [OF group_computable [OF assms], of lib "ga_count g"]
  by (auto simp: group_result_of_def group_values_def)

lemma group_values_flush:
  assumes "flush_rel lib (ga_measures g) ms"
  shows "group_values lib spec (g\<lparr>ga_measures := ms\<rparr>) = group_values lib spec g"
proof -
  have "map2 (\<lambda>s m. func_values lib (ms_column s) n (ms_funcs s) m) ss ms = map2 (\<lambda>s m. func_values lib (ms_column s) n (ms_funcs s) m) ss as"
    if "flush_rel lib as ms" for n as and ss :: "measure_spec list"
    using that unfolding flush_rel_def
    by (induction arbitrary: ss rule: list_all2_induct) (simp, case_tac ss, auto)
  from this [OF assms] show ?thesis by (simp add: group_values_def)
qed

lemma flush_shape:
  assumes "flush_rel lib (ga_measures g) ms" and "group_shape a g"
  shows "group_shape a (g\<lparr>ga_measures := ms\<rparr>)"
proof -
  have "measure_shape t w m \<Longrightarrow> measure_shape t w (flush_measure lib m)" for t w m by (simp add: measure_shape_def)
  then have "(\<lambda>(t, w). measure_shape t w) x m \<Longrightarrow> m' = m \<or> m' = flush_measure lib m \<Longrightarrow> (\<lambda>(t, w). measure_shape t w) x m'" for x m m'
    by (cases x) auto
  from list_all2_trans [OF this] assms show ?thesis unfolding group_shape_def flush_rel_def by simp
qed

section \<open>All groups\<close>

definition slot_values :: "runtime_lib \<Rightarrow> agg_spec \<Rightarrow> nat list \<Rightarrow> group_table \<Rightarrow> group_result list" where
  "slot_values lib spec is t = map (\<lambda>i. group_values lib spec (the (gt_slots t ! i))) (filter (\<lambda>i. gt_full t ! i) is)"

text \<open>The groups of a table in which every digest may have been flushed.\<close>

definition table_flushed :: "runtime_lib \<Rightarrow> group_table \<Rightarrow> group_table \<Rightarrow> bool" where
  "table_flushed lib t t' \<longleftrightarrow> (\<exists>slots. t' = t\<lparr>gt_slots := slots\<rparr> \<and> length slots = length (gt_slots t)
     \<and> (\<forall>i < length slots. gt_full t ! i \<longrightarrow> (\<exists>g ms. gt_slots t ! i = Some g \<and> slots ! i = Some (g\<lparr>ga_measures := ms\<rparr>)
          \<and> flush_rel lib (ga_measures g) ms)))"

lemma flush_rel_refl: "flush_rel lib ms ms"
  by (simp add: flush_rel_def list_all2_same)

lemma snapshot_ok:
  assumes "config_ok a" and "spec_config a"
    and "\<forall>i < length (gt_slots t). gt_full t ! i \<longrightarrow> (\<exists>g. gt_slots t ! i = Some g \<and> group_shape a g)"
    and "distinct is" and "\<forall>i \<in> set is. i < length (gt_slots t)"
  shows "\<exists>t'. snapshot_slots lib (ag_spec a) is t = Some (slot_values lib (ag_spec a) is t, t') \<and> table_flushed lib t t'
     \<and> (\<forall>i. i \<notin> set is \<longrightarrow> gt_slots t' ! i = gt_slots t ! i)"
  using assms(3-5)
proof (induction "is" arbitrary: t)
  case Nil
  have "\<forall>i < length (gt_slots t). gt_full t ! i \<longrightarrow> (\<exists>g ms. gt_slots t ! i = Some g \<and> gt_slots t ! i = Some (g\<lparr>ga_measures := ms\<rparr>)
      \<and> flush_rel lib (ga_measures g) ms)"
    using Nil.prems(1) flush_rel_refl by (metis group_accum.surjective group_accum.update_convs(3))
  then have "table_flushed lib t t" by (auto simp: table_flushed_def intro!: exI [of _ "gt_slots t"])
  then show ?case by (simp add: slot_values_def)
next
  case (Cons i js)
  have i: "i < length (gt_slots t)" "i \<notin> set js" "distinct js" "\<forall>i \<in> set js. i < length (gt_slots t)"
    using Cons.prems by auto
  show ?case
  proof (cases "gt_full t ! i")
    case False
    then show ?thesis using Cons.IH [OF Cons.prems(1) i(3,4)] by (auto simp: slot_values_def)
  next
    case True
    then obtain g where g: "gt_slots t ! i = Some g" "group_shape a g" using Cons.prems(1) i(1) by blast
    obtain ms where ms: "group_result_of lib (ag_spec a) g = Some (group_values lib (ag_spec a) g, g\<lparr>ga_measures := ms\<rparr>)"
        "flush_rel lib (ga_measures g) ms"
      using group_result_ok [OF assms(1,2) g(2)] by blast
    define t1 where "t1 = set_slot i (g\<lparr>ga_measures := ms\<rparr>) t"
    have t1: "gt_full t1 = gt_full t" "length (gt_slots t1) = length (gt_slots t)"
        "gt_slots t1 ! j = (if j = i then Some (g\<lparr>ga_measures := ms\<rparr>) else gt_slots t ! j)" for j
      using i(1) by (simp_all add: t1_def set_slot_def nth_list_update)
    have "\<forall>j < length (gt_slots t1). gt_full t1 ! j \<longrightarrow> (\<exists>g. gt_slots t1 ! j = Some g \<and> group_shape a g)"
      using Cons.prems(1) flush_shape [OF ms(2) g(2)] by (simp add: t1)
    from Cons.IH [OF this i(3)] i(4) obtain t' where t': "snapshot_slots lib (ag_spec a) js t1 = Some (slot_values lib (ag_spec a) js t1, t')"
        "table_flushed lib t1 t'" "\<forall>j. j \<notin> set js \<longrightarrow> gt_slots t' ! j = gt_slots t1 ! j"
      by (auto simp: t1)
    have same: "slot_values lib (ag_spec a) js t1 = slot_values lib (ag_spec a) js t"
      using i(2) by (auto simp: slot_values_def t1)
    obtain slots where slots: "t' = t1\<lparr>gt_slots := slots\<rparr>" "length slots = length (gt_slots t)"
        "\<forall>j < length slots. gt_full t ! j \<longrightarrow> (\<exists>g ms. gt_slots t1 ! j = Some g \<and> slots ! j = Some (g\<lparr>ga_measures := ms\<rparr>) \<and> flush_rel lib (ga_measures g) ms)"
      using t'(2) by (auto simp: table_flushed_def t1)
    have at: "slots ! i = Some (g\<lparr>ga_measures := ms\<rparr>)" using t'(3) i(2) by (simp add: slots(1) t1)
    have "\<exists>h ns. gt_slots t ! j = Some h \<and> slots ! j = Some (h\<lparr>ga_measures := ns\<rparr>) \<and> flush_rel lib (ga_measures h) ns"
      if "j < length slots" "gt_full t ! j" for j
    proof (cases "j = i")
      case True
      then show ?thesis using at g(1) ms(2) by blast
    next
      case False
      then show ?thesis using slots(3) [rule_format, OF that] by (simp add: t1)
    qed
    then have "table_flushed lib t t'"
      using slots(1,2) by (auto simp: table_flushed_def t1_def set_slot_def)
    moreover have "\<forall>j. j \<notin> set (i # js) \<longrightarrow> gt_slots t' ! j = gt_slots t ! j" using t'(3) by (simp add: t1)
    ultimately show ?thesis using t'(1) True g(1) ms(1) same by (auto simp: slot_values_def simp flip: t1_def)
  qed
qed

lemma table_each_slots:
  assumes "slots_ok k t"
  shows "table_each t = map (\<lambda>i. the (gt_slots t ! i)) (filter (\<lambda>i. gt_full t ! i) [0..<length (gt_full t)])"
proof -
  have "triples t = map (\<lambda>i. (gt_hashes t ! i, gt_slots t ! i, gt_full t ! i)) [0..<length (gt_full t)]"
    using triples_nth [OF assms] assms by (intro nth_equalityI) (auto simp: slots_ok_def)
  then show ?thesis
    by (simp add: table_each_def gt_entries_triples filter_map comp_def)
qed

lemma slot_values_flushed:
  assumes "table_flushed lib t t'" and "\<forall>i \<in> set is. i < length (gt_slots t)"
  shows "slot_values lib spec is t' = slot_values lib spec is t"
proof -
  obtain slots where slots: "t' = t\<lparr>gt_slots := slots\<rparr>" "length slots = length (gt_slots t)"
      "\<forall>i < length slots. gt_full t ! i \<longrightarrow> (\<exists>g ms. gt_slots t ! i = Some g \<and> slots ! i = Some (g\<lparr>ga_measures := ms\<rparr>) \<and> flush_rel lib (ga_measures g) ms)"
    using assms(1) by (auto simp: table_flushed_def)
  have "group_values lib spec (the (slots ! i)) = group_values lib spec (the (gt_slots t ! i))" if "i \<in> set is" "gt_full t ! i" for i
    using slots assms(2) that group_values_flush by fastforce
  then show ?thesis by (auto simp: slot_values_def slots(1))
qed

section \<open>Properties\<close>

text \<open>What \<open>sort.Slice\<close> promises.\<close>

definition strict_weak :: "('a \<Rightarrow> 'a \<Rightarrow> bool) \<Rightarrow> 'a set \<Rightarrow> bool" where
  "strict_weak lt A \<longleftrightarrow> (\<forall>x \<in> A. \<forall>y \<in> A. \<forall>z \<in> A. \<not> lt x x \<and> (lt x y \<and> lt y z \<longrightarrow> lt x z)
     \<and> (\<not> lt x y \<and> \<not> lt y z \<longrightarrow> \<not> lt x z))"

definition slice_sorts :: "slice_sort \<Rightarrow> bool" where
  "slice_sorts sort_slice \<longleftrightarrow> (\<forall>lt xs. strict_weak lt (set xs) \<longrightarrow>
     mset (sort_slice lt xs) = mset xs \<and> sorted_wrt (\<lambda>x y. \<not> lt y x) (sort_slice lt xs))"

definition keyed_results :: "column_type list \<Rightarrow> group_result list \<Rightarrow> bool" where
  "keyed_results ts rs \<longleftrightarrow> (\<forall>r \<in> set rs. key_ok ts (gr_key r))"

lemma key_ok_length: "key_ok ts key \<Longrightarrow> length key = length ts"
  unfolding key_ok_def by (drule list_all2_lengthD) simp

lemma keyed_results_length: "keyed_results ts rs \<Longrightarrow> r \<in> set rs \<Longrightarrow> length (gr_key r) = length ts"
  by (simp add: keyed_results_def key_ok_length)

lemma keys_strict_weak:
  assumes "keyed_results ts rs"
  shows "strict_weak (\<lambda>a b. compare_keys ts (gr_key a) (gr_key b) < 0) (set rs)"
proof -
  have len: "length (gr_key r) = length ts" if "r \<in> set rs" for r
    using keyed_results_length [OF assms that] .
  have "\<not> compare_keys ts u w < 0" if "\<not> compare_keys ts u v < 0" "\<not> compare_keys ts v w < 0"
    "length u = length ts" "length v = length ts" "length w = length ts" for u v w
    using key_order.trans_le [of w ts v u] key_order.flip [of u ts v] key_order.flip [of v ts w] key_order.flip [of u ts w] that by simp
  moreover have "compare_keys ts u w < 0" if "compare_keys ts u v < 0" "compare_keys ts v w < 0"
    "length u = length ts" "length v = length ts" "length w = length ts" for u v w
    using key_order.trans_less [of u ts v w] that by simp
  ultimately show ?thesis using len key_order.refl unfolding strict_weak_def by (metis less_irrefl)
qed

lemma agg_result_ok:
  assumes inv: "agg_inv a0 a" and spec: "spec_config a0"
  shows "\<exists>t'. agg_result_of sort_slice lib a = Some (\<lparr>rs_group_by = group_by (ag_spec a0),
       rs_groups = sort_groups sort_slice (group_by_types a0) (map (group_values lib (ag_spec a0)) (table_each (ag_table a)))\<rparr>, a\<lparr>ag_table := t'\<rparr>)
     \<and> table_flushed lib (ag_table a) t' \<and> keyed_results (group_by_types a0) (map (group_values lib (ag_spec a0)) (table_each (ag_table a)))"
proof -
  note ca = same_config [OF inv]
  define t where "t = ag_table a"
  have c: "config_ok a0" and k: "keyed_ok (hash_key (ag_seed a0)) (key_ok (group_by_types a0)) t" using inv by (simp_all add: agg_inv_def t_def)
  obtain n where n: "slots_ok n t" using k by (auto simp: keyed_ok_def gt_ok_def)
  have len: "length (gt_full t) = length (gt_slots t)" "length (gt_slots t) = 2 ^ n" using n by (simp_all add: slots_ok_def)
  have each: "group_shape a0 g \<and> key_ok (group_by_types a0) (ga_key g)" if "g \<in> set (table_each t)" for g
    using groups_key [OF inv, of "ga_key g" g] keyed_each(2) [OF k] that by (simp add: groups_def t_def)
  have "\<exists>g. gt_slots t ! i = Some g \<and> group_shape a0 g" if "i < length (gt_slots t)" "gt_full t ! i" for i
  proof -
    have "gt_slots t ! i \<noteq> None" using n that by (simp add: slots_ok_def del: not_None_eq)
    then obtain g where g: "gt_slots t ! i = Some g" by blast
    then have "g \<in> set (table_each t)" using table_each_slots [OF n] that len by force
    then show ?thesis using each g by blast
  qed
  then obtain t' where t': "snapshot_slots lib (ag_spec a0) [0..<length (gt_full t)] t = Some (slot_values lib (ag_spec a0) [0..<length (gt_full t)] t, t')"
      "table_flushed lib t t'"
    using snapshot_ok [OF c spec, of t "[0..<length (gt_full t)]" lib] len(1) by auto
  have v: "slot_values lib (ag_spec a0) [0..<length (gt_full t)] t = map (group_values lib (ag_spec a0)) (table_each t)"
    by (simp add: slot_values_def table_each_slots [OF n])
  have "keyed_results (group_by_types a0) (map (group_values lib (ag_spec a0)) (table_each t))"
    using each by (auto simp: keyed_results_def group_values_def)
  then show ?thesis using t' v unfolding agg_result_of_def by (intro exI [of _ t']) (simp add: ca flip: t_def)
qed

lemma sort_groups_ok:
  assumes "slice_sorts sort_slice" and "keyed_results ts rs"
  shows "mset (sort_groups sort_slice ts rs) = mset rs"
    and "sorted_wrt (\<lambda>x y. compare_keys ts (gr_key x) (gr_key y) \<le> 0) (sort_groups sort_slice ts rs)"
proof -
  note s = assms(1) [unfolded slice_sorts_def, rule_format, OF keys_strict_weak [OF assms(2)], folded sort_groups_def]
  show m: "mset (sort_groups sort_slice ts rs) = mset rs" using s by blast
  have le: "compare_keys ts (gr_key x) (gr_key y) \<le> 0"
    if "x \<in> set (sort_groups sort_slice ts rs)" "y \<in> set (sort_groups sort_slice ts rs)" "\<not> compare_keys ts (gr_key y) (gr_key x) < 0" for x y
  proof -
    have "x \<in> set rs" "y \<in> set rs" using that mset_eq_setD [OF m] by auto
    then have "length (gr_key x) = length ts" "length (gr_key y) = length ts"
      using keyed_results_length [OF assms(2)] by blast+
    then show ?thesis using key_order.flip [of "gr_key x" ts "gr_key y"] that(3) by simp
  qed
  then show "sorted_wrt (\<lambda>x y. compare_keys ts (gr_key x) (gr_key y) \<le> 0) (sort_groups sort_slice ts rs)"
    using s le by (blast intro: sorted_wrt_mono_rel [rotated])
qed

lemma agg_result_again:
  assumes inv: "agg_inv a0 a" and spec: "spec_config a0" and r: "agg_result_of sort_slice lib a = Some (r, a')"
  shows "map_option fst (agg_result_of sort_slice lib a') = Some r"
proof -
  note ca = same_config [OF inv]
  define t where "t = ag_table a"
  obtain t' where t': "a' = a\<lparr>ag_table := t'\<rparr>" "table_flushed lib t t'"
    using agg_result_ok [OF inv spec, of sort_slice lib] r by (auto simp: t_def)
  have c: "config_ok a0" and k: "keyed_ok (hash_key (ag_seed a0)) (key_ok (group_by_types a0)) t" using inv by (simp_all add: agg_inv_def t_def)
  obtain n where n: "slots_ok n t" using k by (auto simp: keyed_ok_def gt_ok_def)
  have len: "length (gt_full t) = length (gt_slots t)" using n by (simp add: slots_ok_def)
  obtain slots where slots: "t' = t\<lparr>gt_slots := slots\<rparr>" "length slots = length (gt_slots t)"
      "\<forall>i < length slots. gt_full t ! i \<longrightarrow> (\<exists>g ms. gt_slots t ! i = Some g \<and> slots ! i = Some (g\<lparr>ga_measures := ms\<rparr>) \<and> flush_rel lib (ga_measures g) ms)"
    using t'(2) by (auto simp: table_flushed_def)
  have shape: "group_shape a0 g" if "i < length (gt_slots t)" "gt_full t ! i" "gt_slots t ! i = Some g" for i g
  proof -
    have "g \<in> set (table_each t)" using table_each_slots [OF n] that len by force
    then show ?thesis using groups_key [OF inv, of "ga_key g" g] keyed_each(2) [OF k] by (simp add: groups_def t_def)
  qed
  have "\<exists>h. slots ! i = Some h \<and> group_shape a0 h" if i: "i < length slots" "gt_full t ! i" for i
  proof -
    obtain g ms where g: "gt_slots t ! i = Some g" "slots ! i = Some (g\<lparr>ga_measures := ms\<rparr>)" "flush_rel lib (ga_measures g) ms"
      using slots(3) i by blast
    then show ?thesis using flush_shape [OF g(3) shape [OF _ i(2) g(1)]] i(1) slots(2) by simp
  qed
  then have "\<forall>i < length (gt_slots t'). gt_full t' ! i \<longrightarrow> (\<exists>g. gt_slots t' ! i = Some g \<and> group_shape a0 g)" by (simp add: slots(1))
  then obtain t'' where s': "snapshot_slots lib (ag_spec a0) [0..<length (gt_full t)] t' = Some (slot_values lib (ag_spec a0) [0..<length (gt_full t)] t', t'')"
    using snapshot_ok [OF c spec, of t' "[0..<length (gt_full t)]" lib] len slots by auto
  have "slot_values lib (ag_spec a0) [0..<length (gt_full t)] t' = slot_values lib (ag_spec a0) [0..<length (gt_full t)] t"
    using slot_values_flushed [OF t'(2)] len by simp
  also have "\<dots> = map (group_values lib (ag_spec a0)) (table_each t)" by (simp add: slot_values_def table_each_slots [OF n])
  finally have v: "slot_values lib (ag_spec a0) [0..<length (gt_full t)] t' = map (group_values lib (ag_spec a0)) (table_each t)" .
  have "gt_full t' = gt_full t" by (simp add: slots(1))
  then have "map_option fst (agg_result_of sort_slice lib a') = Some \<lparr>rs_group_by = group_by (ag_spec a0),
       rs_groups = sort_groups sort_slice (group_by_types a0) (map (group_values lib (ag_spec a0)) (table_each t))\<rparr>"
    using s' v by (simp add: agg_result_of_def t'(1) ca)
  moreover have "r = \<lparr>rs_group_by = group_by (ag_spec a0),
       rs_groups = sort_groups sort_slice (group_by_types a0) (map (group_values lib (ag_spec a0)) (table_each t))\<rparr>"
    using agg_result_ok [OF inv spec, of sort_slice lib] r by (auto simp: t_def)
  ultimately show ?thesis by simp
qed

text \<open>
  C26. \<open>Result\<close> of an aggregator that holds some rows: it does not panic; there is one group per distinct key,
  in key order, with the number of rows of that key; and asking again, after the digests have been flushed,
  gives the same result.
\<close>

theorem result_groups:
  assumes h: "holds lib a0 a rows" and "spec_config a0" and sort: "slice_sorts sort_slice"
  shows "\<exists>r a'. agg_result_of sort_slice lib a = Some (r, a')
     \<and> distinct (map gr_key (rs_groups r)) \<and> gr_key ` set (rs_groups r) = fst ` set rows
     \<and> sorted_wrt (\<lambda>x y. compare_keys (group_by_types a0) (gr_key x) (gr_key y) \<le> 0) (rs_groups r)
     \<and> (\<forall>g \<in> set (rs_groups r). gr_count g = of_nat (length (rows_with (gr_key g) rows)))
     \<and> map_option fst (agg_result_of sort_slice lib a') = Some r"
proof -
  have inv: "agg_inv a0 a" using h by (simp add: holds_def)
  define rs where "rs = map (group_values lib (ag_spec a0)) (table_each (ag_table a))"
  obtain t' where r: "agg_result_of sort_slice lib a = Some (\<lparr>rs_group_by = group_by (ag_spec a0),
       rs_groups = sort_groups sort_slice (group_by_types a0) rs\<rparr>, a\<lparr>ag_table := t'\<rparr>)"
    and keyed: "keyed_results (group_by_types a0) rs"
    using agg_result_ok [OF inv assms(2), of sort_slice lib] unfolding rs_def by blast
  note s = sort_groups_ok [OF sort keyed]
  have k: "keyed_ok (hash_key (ag_seed a0)) (key_ok (group_by_types a0)) (ag_table a)" using inv by (simp add: agg_inv_def)
  have keys: "map gr_key rs = map ga_key (table_each (ag_table a))" by (simp add: rs_def group_values_def)
  have "distinct (map gr_key (sort_groups sort_slice (group_by_types a0) rs))"
    using keyed_each(1) [OF k] keys by (metis mset_eq_imp_distinct_iff mset_map s(1))
  moreover have "gr_key ` set (sort_groups sort_slice (group_by_types a0) rs) = fst ` set rows"
  proof -
    have "key \<in> ga_key ` set (table_each (ag_table a)) \<longleftrightarrow> key \<in> fst ` set rows" for key
      using gt_map_None [OF k, of key] holds_None [OF h, of key] rows_with_empty [of key rows]
      by (auto simp: groups_def table_each_def image_image)
    then have "gr_key ` set rs = fst ` set rows" using keys by (metis list.set_map subsetI subset_antisym)
    then show ?thesis using mset_eq_setD [OF s(1)] by simp
  qed
  moreover have "gr_count g = of_nat (length (rows_with (gr_key g) rows))"
    if "g \<in> set (sort_groups sort_slice (group_by_types a0) rs)" for g
  proof -
    from that obtain ga where ga: "ga \<in> set (table_each (ag_table a))" "g = group_values lib (ag_spec a0) ga"
      using mset_eq_setD [OF s(1)] by (auto simp: rs_def)
    then have "groups a (ga_key ga) = Some ga" using keyed_each(2) [OF k] by (simp add: groups_def)
    from holds_Some [OF h this] show ?thesis by (simp add: ga(2) group_values_def group_sim_def)
  qed
  ultimately show ?thesis using r s(2) agg_result_again [OF inv assms(2) r] by auto
qed

text \<open>A concrete sort for the examples: insertion by the given order.\<close>

fun insert_by :: "('a \<Rightarrow> 'a \<Rightarrow> bool) \<Rightarrow> 'a \<Rightarrow> 'a list \<Rightarrow> 'a list" where
  "insert_by lt x [] = [x]"
| "insert_by lt x (y # ys) = (if lt y x then y # insert_by lt x ys else x # y # ys)"

definition insertion_sort :: "('a \<Rightarrow> 'a \<Rightarrow> bool) \<Rightarrow> 'a list \<Rightarrow> 'a list" where
  "insertion_sort lt xs = foldr (insert_by lt) xs []"

lemma insert_by_mset: "mset (insert_by lt x ys) = add_mset x (mset ys)"
  by (induction ys) auto

lemma strict_weak_subset: "strict_weak lt A \<Longrightarrow> B \<subseteq> A \<Longrightarrow> strict_weak lt B"
  unfolding strict_weak_def by (meson subsetD)

lemma strict_weakD:
  "strict_weak lt A \<Longrightarrow> x \<in> A \<Longrightarrow> y \<in> A \<Longrightarrow> z \<in> A \<Longrightarrow> \<not> lt x y \<Longrightarrow> \<not> lt y z \<Longrightarrow> \<not> lt x z"
  "strict_weak lt A \<Longrightarrow> x \<in> A \<Longrightarrow> y \<in> A \<Longrightarrow> lt x y \<Longrightarrow> \<not> lt y x"
  unfolding strict_weak_def by blast+

lemma insert_by_sorted:
  "strict_weak lt (insert x (set ys)) \<Longrightarrow> sorted_wrt (\<lambda>x y. \<not> lt y x) ys \<Longrightarrow> sorted_wrt (\<lambda>x y. \<not> lt y x) (insert_by lt x ys)"
proof (induction ys)
  case Nil
  then show ?case by simp
next
  case (Cons y ys)
  have sub: "strict_weak lt (insert x (set ys))" by (rule strict_weak_subset [OF Cons.prems(1)]) auto
  have set: "set (insert_by lt x ys) = insert x (set ys)" using insert_by_mset by (metis set_mset_add_mset_insert set_mset_mset)
  show ?case
  proof (cases "lt y x")
    case True
    then have "\<not> lt x y" using strict_weakD(2) [OF Cons.prems(1), of y x] by simp
    then show ?thesis using True Cons.IH [OF sub] Cons.prems(2) set by auto
  next
    case False
    have "\<not> lt z x" if "z \<in> set ys" for z
      using strict_weakD(1) [OF Cons.prems(1), of z y x] Cons.prems(2) False that by simp
    then show ?thesis using False Cons.prems(2) by auto
  qed
qed

lemma insertion_sort_sorts: "slice_sorts insertion_sort"
proof -
  have "strict_weak lt (set xs) \<Longrightarrow> mset (insertion_sort lt xs) = mset xs \<and> sorted_wrt (\<lambda>x y. \<not> lt y x) (insertion_sort lt xs)"
    for lt and xs :: "group_result list"
  proof (induction xs)
    case (Cons x xs)
    have sub: "strict_weak lt (set xs)" by (rule strict_weak_subset [OF Cons.prems]) auto
    with Cons.IH have "mset (insertion_sort lt xs) = mset xs" by blast
    then have "set (insertion_sort lt xs) = set xs" by (rule mset_eq_setD)
    then have "sorted_wrt (\<lambda>x y. \<not> lt y x) (insert_by lt x (insertion_sort lt xs))"
      using Cons.IH [OF sub] Cons.prems by (intro insert_by_sorted) simp_all
    then show ?case using Cons.IH [OF sub] by (simp add: insertion_sort_def insert_by_mset)
  qed (simp add: insertion_sort_def)
  then show ?thesis by (simp add: slice_sorts_def)
qed

theorem result_groups_witness:
  "\<exists>a r a'. add_all sample_lib [sample_batch] sample_agg = Inr a \<and> agg_result_of insertion_sort sample_lib a = Some (r, a')
     \<and> gr_key ` set (rs_groups r) = {[string_value ''Oslo''], [string_value ''Rome'']}"
proof -
  have new: "holds sample_lib sample_agg sample_agg []" by (rule holds_new [OF sample_facts(1,2)])
  have "length (all_rows sample_agg [sample_batch]) \<le> max_groups" unfolding sample_facts(4) by (simp add: max_groups_def)
  then obtain a where a: "add_all sample_lib [sample_batch] sample_agg = Inr a"
      "holds sample_lib sample_agg a (all_rows sample_agg [sample_batch])"
    using holds_add_all [OF new, of "[sample_batch]"] sample_facts(3) by (auto simp: sample_agg_def)
  show ?thesis
    using result_groups [OF a(2) new_spec_config [OF sample_facts(1)] insertion_sort_sorts] a(1)
    by (auto simp: sample_facts(4))
qed

section \<open>Determinism\<close>








text \<open>
  Float keys can tie: \<open>+0\<close> and \<open>-0\<close> are different groups, and so are NaNs with different payloads, but
  the comparison that orders the result calls them equal, so their order is left to the sort and the
  table.
\<close>

theorem float_keys_tie:
  "\<not> dims_equal [float64_value (F64 0)] [float64_value (F64 0x8000000000000000)]
   \<and> compare_keys [TypeFloat64] [float64_value (F64 0)] [float64_value (F64 0x8000000000000000)] = 0
   \<and> \<not> dims_equal [float64_value (F64 0x7FF8000000000000)] [float64_value (F64 0x7FF8000000000001)]
   \<and> compare_keys [TypeFloat64] [float64_value (F64 0x7FF8000000000000)] [float64_value (F64 0x7FF8000000000001)] = 0"
  by (simp add: cmp_value_def cmp_f64_def is_nan_def f64_lt_def f64_key_def f64_mag_def f64_sign_def inf_mag_def)

end
