(* ===== verification/Convert.thy ===== *)
theory Convert
  imports Ingest AggState Results
begin

text \<open>
  \<open>internal/distribute/convert.go\<close>: the conversions between the aggregation types and the protobuf
  messages of \<open>internal/distproto\<close>.

  A message is its fields. A pointer to a message is an option, \<open>None\<close> for nil; getters on nil return zero
  wire_values. Protobuf enums are open: a field can hold a number without a name, which the constructors
  \<open>\<dots>Other\<close> stand for. A conversion that returns \<open>(*T, error)\<close> returns a sum of an error and a pointer.
\<close>

section \<open>Messages\<close>

type_synonym u32 = "32 word"

datatype p_column_type = PTypeUnspecified | PTypeString | PTypeInt64 | PTypeFloat64 | PTypeOther int

datatype p_column_kind = PKindUnspecified | PKindDimension | PKindMeasure | PKindIgnore | PKindOther int

datatype p_func_kind =
    PFuncUnspecified | PFuncSum | PFuncMin | PFuncMax | PFuncAvg | PFuncDistinct | PFuncPercentile | PFuncOther int

record p_column_schema =
  pc_name :: string
  pc_type :: p_column_type
  pc_kind :: p_column_kind

record p_schema =
  ps_delimiter :: u32
  ps_has_header :: bool
  ps_quote_aware :: bool
  ps_columns :: "p_column_schema option list"

record p_agg_func =
  pf_kind :: p_func_kind
  pf_quantile :: f64

record p_measure_spec =
  pm_column :: string
  pm_funcs :: "p_agg_func option list"

record p_agg_spec =
  pa_group_by :: "string list"
  pa_measures :: "p_measure_spec option list"

text \<open>The \<open>oneof kind\<close> of a \<open>Value\<close>.\<close>

datatype p_value = PStr string | PI64 i64 | PF64 f64 | PUnset

record p_measure_state =
  pt_col_type :: p_column_type
  pt_sum_i64 :: i64
  pt_min_i64 :: i64
  pt_max_i64 :: i64
  pt_sum_f64 :: f64
  pt_min_f64 :: f64
  pt_max_f64 :: f64
  pt_have_min_max :: bool
  pt_registers :: "u8 list option"

record p_group_state =
  pg_key :: "p_value option list"
  pg_count :: i64
  pg_measures :: "p_measure_state option list"

record p_measure_result =
  pr_column :: string
  pr_func :: "p_agg_func option"
  pr_value :: "p_value option"

record p_group_result =
  pq_key :: "p_value option list"
  pq_count :: i64
  pq_measures :: "p_measure_result option list"

record p_result =
  px_group_by :: "string list"
  px_groups :: "p_group_result option list"

datatype message_name =
    MsgSchema | MsgAggFunc | MsgAggSpec | MsgValue | MsgMeasureState | MsgGroupState | MsgMeasureResult
  | MsgGroupResult | MsgResult

datatype conv_error =
    ErrColumnType int
  | ErrProtoColumnType p_column_type
  | ErrColumnKind int
  | ErrProtoColumnKind p_column_kind
  | ErrFuncKind int
  | ErrProtoFuncKind p_func_kind
  | ErrFromKind spec_error
  | ErrNilMessage message_name
  | ErrValueUnset
  | ErrPolicy int
  | ErrOnError string

section \<open>Enums and scalars\<close>

fun column_type_to_proto :: "column_type \<Rightarrow> conv_error + p_column_type" where
  "column_type_to_proto TypeString = Inr PTypeString"
| "column_type_to_proto TypeInt64 = Inr PTypeInt64"
| "column_type_to_proto TypeFloat64 = Inr PTypeFloat64"
| "column_type_to_proto (TypeOther i) = Inl (ErrColumnType i)"

fun proto_to_column_type :: "p_column_type \<Rightarrow> conv_error + column_type" where
  "proto_to_column_type PTypeString = Inr TypeString"
| "proto_to_column_type PTypeInt64 = Inr TypeInt64"
| "proto_to_column_type PTypeFloat64 = Inr TypeFloat64"
| "proto_to_column_type t = Inl (ErrProtoColumnType t)"

fun column_kind_to_proto :: "column_kind \<Rightarrow> conv_error + p_column_kind" where
  "column_kind_to_proto KindDimension = Inr PKindDimension"
| "column_kind_to_proto KindMeasure = Inr PKindMeasure"
| "column_kind_to_proto KindIgnore = Inr PKindIgnore"
| "column_kind_to_proto (KindOther i) = Inl (ErrColumnKind i)"

fun proto_to_column_kind :: "p_column_kind \<Rightarrow> conv_error + column_kind" where
  "proto_to_column_kind PKindDimension = Inr KindDimension"
| "proto_to_column_kind PKindMeasure = Inr KindMeasure"
| "proto_to_column_kind PKindIgnore = Inr KindIgnore"
| "proto_to_column_kind k = Inl (ErrProtoColumnKind k)"

fun func_kind_to_proto :: "agg_func_kind \<Rightarrow> conv_error + p_func_kind" where
  "func_kind_to_proto FuncSum = Inr PFuncSum"
| "func_kind_to_proto FuncMin = Inr PFuncMin"
| "func_kind_to_proto FuncMax = Inr PFuncMax"
| "func_kind_to_proto FuncAvg = Inr PFuncAvg"
| "func_kind_to_proto FuncDistinct = Inr PFuncDistinct"
| "func_kind_to_proto FuncPercentile = Inr PFuncPercentile"
| "func_kind_to_proto (FuncOther i) = Inl (ErrFuncKind i)"

fun proto_to_func_kind :: "p_func_kind \<Rightarrow> conv_error + agg_func_kind" where
  "proto_to_func_kind PFuncSum = Inr FuncSum"
| "proto_to_func_kind PFuncMin = Inr FuncMin"
| "proto_to_func_kind PFuncMax = Inr FuncMax"
| "proto_to_func_kind PFuncAvg = Inr FuncAvg"
| "proto_to_func_kind PFuncDistinct = Inr FuncDistinct"
| "proto_to_func_kind PFuncPercentile = Inr FuncPercentile"
| "proto_to_func_kind k = Inl (ErrProtoFuncKind k)"

fun on_error_to_proto :: "error_policy \<Rightarrow> conv_error + string" where
  "on_error_to_proto ErrorPolicySkip = Inr ''skip''"
| "on_error_to_proto ErrorPolicyFail = Inr ''fail''"
| "on_error_to_proto (ErrorPolicyOther i) = Inl (ErrPolicy i)"

definition proto_to_on_error :: "string \<Rightarrow> conv_error + error_policy" where
  "proto_to_on_error s =
     (if s = [] \<or> s = ''skip'' then Inr ErrorPolicySkip
      else if s = ''fail'' then Inr ErrorPolicyFail
      else Inl (ErrOnError s))"

section \<open>Schemas and specs\<close>

definition column_to_proto :: "column_schema \<Rightarrow> conv_error + p_column_schema option" where
  "column_to_proto c =
     res_bind (column_type_to_proto (cs_type c)) (\<lambda>t.
     res_bind (column_kind_to_proto (cs_kind c)) (\<lambda>k.
       Inr (Some \<lparr>pc_name = cs_name c, pc_type = t, pc_kind = k\<rparr>)))"

definition schema_to_proto :: "schema \<Rightarrow> conv_error + p_schema option" where
  "schema_to_proto s =
     res_bind (traverse column_to_proto (columns s)) (\<lambda>cols.
       Inr (Some \<lparr>ps_delimiter = of_nat (code (delimiter s)), ps_has_header = has_header s,
                  ps_quote_aware = quote_aware s, ps_columns = cols\<rparr>))"

text \<open>The getters of a nil column return the unspecified type.\<close>

definition proto_to_column :: "p_column_schema option \<Rightarrow> conv_error + column_schema" where
  "proto_to_column p =
     (case p of
        None \<Rightarrow> Inl (ErrProtoColumnType PTypeUnspecified)
      | Some c \<Rightarrow>
          res_bind (proto_to_column_type (pc_type c)) (\<lambda>t.
          res_bind (proto_to_column_kind (pc_kind c)) (\<lambda>k.
            Inr \<lparr>cs_name = pc_name c, cs_type = t, cs_kind = k\<rparr>)))"

definition proto_to_schema :: "p_schema option \<Rightarrow> conv_error + schema" where
  "proto_to_schema p =
     (case p of
        None \<Rightarrow> Inl (ErrNilMessage MsgSchema)
      | Some s \<Rightarrow>
          res_bind (traverse proto_to_column (ps_columns s)) (\<lambda>cols.
            Inr \<lparr>delimiter = char_of (unat (ps_delimiter s) mod 256), has_header = ps_has_header s,
                 quote_aware = ps_quote_aware s, columns = cols\<rparr>))"

definition agg_func_to_proto :: "agg_func \<Rightarrow> conv_error + p_agg_func option" where
  "agg_func_to_proto f =
     res_bind (func_kind_to_proto (kind_of f)) (\<lambda>k. Inr (Some \<lparr>pf_kind = k, pf_quantile = quantile_of f\<rparr>))"

definition proto_to_agg_func :: "p_agg_func option \<Rightarrow> conv_error + agg_func" where
  "proto_to_agg_func p =
     (case p of
        None \<Rightarrow> Inl (ErrNilMessage MsgAggFunc)
      | Some f \<Rightarrow>
          res_bind (proto_to_func_kind (pf_kind f)) (\<lambda>k. map_sum ErrFromKind id (agg_func_from_kind k (pf_quantile f))))"

definition measure_spec_to_proto :: "measure_spec \<Rightarrow> conv_error + p_measure_spec option" where
  "measure_spec_to_proto ms =
     res_bind (traverse agg_func_to_proto (ms_funcs ms)) (\<lambda>fs. Inr (Some \<lparr>pm_column = ms_column ms, pm_funcs = fs\<rparr>))"

definition proto_to_measure_spec :: "p_measure_spec option \<Rightarrow> conv_error + measure_spec" where
  "proto_to_measure_spec p =
     (case p of
        None \<Rightarrow> Inr \<lparr>ms_column = [], ms_funcs = []\<rparr>
      | Some ms \<Rightarrow> res_bind (traverse proto_to_agg_func (pm_funcs ms)) (\<lambda>fs. Inr \<lparr>ms_column = pm_column ms, ms_funcs = fs\<rparr>))"

definition spec_to_proto :: "agg_spec \<Rightarrow> conv_error + p_agg_spec option" where
  "spec_to_proto s =
     res_bind (traverse measure_spec_to_proto (measures s)) (\<lambda>ms.
       Inr (Some \<lparr>pa_group_by = group_by s, pa_measures = ms\<rparr>))"

definition proto_to_spec :: "p_agg_spec option \<Rightarrow> conv_error + agg_spec" where
  "proto_to_spec p =
     (case p of
        None \<Rightarrow> Inl (ErrNilMessage MsgAggSpec)
      | Some s \<Rightarrow>
          res_bind (traverse proto_to_measure_spec (pa_measures s)) (\<lambda>ms.
            Inr \<lparr>group_by = pa_group_by s, measures = ms\<rparr>))"

section \<open>Values and states\<close>

definition value_to_proto :: "value_t \<Rightarrow> conv_error + p_value option" where
  "value_to_proto v =
     (case vtype v of
        TypeString \<Rightarrow> Inr (Some (PStr (vstr v)))
      | TypeInt64 \<Rightarrow> Inr (Some (PI64 (vi64 v)))
      | TypeFloat64 \<Rightarrow> Inr (Some (PF64 (vf64 v)))
      | TypeOther i \<Rightarrow> Inl (ErrColumnType i))"

definition proto_to_value :: "p_value option \<Rightarrow> conv_error + value_t" where
  "proto_to_value p =
     (case p of
        None \<Rightarrow> Inl (ErrNilMessage MsgValue)
      | Some k \<Rightarrow>
          (case k of
             PStr s \<Rightarrow> Inr (string_value s)
           | PI64 i \<Rightarrow> Inr (int64_value i)
           | PF64 f \<Rightarrow> Inr (float64_value f)
           | PUnset \<Rightarrow> Inl ErrValueUnset))"

definition measure_state_to_proto :: "measure_state \<Rightarrow> conv_error + p_measure_state option" where
  "measure_state_to_proto m =
     res_bind (column_type_to_proto (st_type m)) (\<lambda>t.
       Inr (Some \<lparr>pt_col_type = t, pt_sum_i64 = st_sum_i64 m, pt_min_i64 = st_min_i64 m, pt_max_i64 = st_max_i64 m,
                  pt_sum_f64 = st_sum_f64 m, pt_min_f64 = st_min_f64 m, pt_max_f64 = st_max_f64 m,
                  pt_have_min_max = st_have_min_max m, pt_registers = st_registers m\<rparr>))"

definition proto_to_measure_state :: "p_measure_state option \<Rightarrow> conv_error + measure_state" where
  "proto_to_measure_state p =
     (case p of
        None \<Rightarrow> Inl (ErrNilMessage MsgMeasureState)
      | Some m \<Rightarrow>
          res_bind (proto_to_column_type (pt_col_type m)) (\<lambda>t.
            Inr \<lparr>st_type = t, st_sum_i64 = pt_sum_i64 m, st_min_i64 = pt_min_i64 m, st_max_i64 = pt_max_i64 m,
                 st_sum_f64 = pt_sum_f64 m, st_min_f64 = pt_min_f64 m, st_max_f64 = pt_max_f64 m,
                 st_have_min_max = pt_have_min_max m, st_registers = pt_registers m\<rparr>))"

definition group_state_to_proto :: "group_state \<Rightarrow> conv_error + p_group_state option" where
  "group_state_to_proto g =
     res_bind (traverse value_to_proto (gs_key g)) (\<lambda>key.
     res_bind (traverse measure_state_to_proto (gs_measures g)) (\<lambda>ms.
       Inr (Some \<lparr>pg_key = key, pg_count = gs_count g, pg_measures = ms\<rparr>)))"

definition proto_to_group_state :: "p_group_state option \<Rightarrow> conv_error + group_state" where
  "proto_to_group_state p =
     (case p of
        None \<Rightarrow> Inl (ErrNilMessage MsgGroupState)
      | Some g \<Rightarrow>
          res_bind (traverse proto_to_value (pg_key g)) (\<lambda>key.
          res_bind (traverse proto_to_measure_state (pg_measures g)) (\<lambda>ms.
            Inr \<lparr>gs_key = key, gs_count = pg_count g, gs_measures = ms\<rparr>)))"

definition group_states_to_proto :: "group_state list \<Rightarrow> conv_error + p_group_state option list" where
  "group_states_to_proto gs = traverse group_state_to_proto gs"

definition proto_to_group_states :: "p_group_state option list \<Rightarrow> conv_error + group_state list" where
  "proto_to_group_states ps = traverse proto_to_group_state ps"

section \<open>Results\<close>

definition measure_result_to_proto :: "measure_result \<Rightarrow> conv_error + p_measure_result option" where
  "measure_result_to_proto m =
     res_bind (agg_func_to_proto (mr_func m)) (\<lambda>f.
     res_bind (value_to_proto (mr_value m)) (\<lambda>v.
       Inr (Some \<lparr>pr_column = mr_column m, pr_func = f, pr_value = v\<rparr>)))"

definition proto_to_measure_result :: "p_measure_result option \<Rightarrow> conv_error + measure_result" where
  "proto_to_measure_result p =
     (case p of
        None \<Rightarrow> Inl (ErrNilMessage MsgMeasureResult)
      | Some m \<Rightarrow>
          res_bind (proto_to_agg_func (pr_func m)) (\<lambda>f.
          res_bind (proto_to_value (pr_value m)) (\<lambda>v.
            Inr \<lparr>mr_column = pr_column m, mr_func = f, mr_value = v\<rparr>)))"

definition group_result_to_proto :: "group_result \<Rightarrow> conv_error + p_group_result option" where
  "group_result_to_proto g =
     res_bind (traverse value_to_proto (gr_key g)) (\<lambda>key.
     res_bind (traverse measure_result_to_proto (gr_measures g)) (\<lambda>ms.
       Inr (Some \<lparr>pq_key = key, pq_count = gr_count g, pq_measures = ms\<rparr>)))"

definition proto_to_group_result :: "p_group_result option \<Rightarrow> conv_error + group_result" where
  "proto_to_group_result p =
     (case p of
        None \<Rightarrow> Inl (ErrNilMessage MsgGroupResult)
      | Some g \<Rightarrow>
          res_bind (traverse proto_to_value (pq_key g)) (\<lambda>key.
          res_bind (traverse proto_to_measure_result (pq_measures g)) (\<lambda>ms.
            Inr \<lparr>gr_key = key, gr_count = pq_count g, gr_measures = ms\<rparr>)))"

definition result_to_proto :: "agg_result option \<Rightarrow> conv_error + p_result option" where
  "result_to_proto r =
     (case r of
        None \<Rightarrow> Inl (ErrNilMessage MsgResult)
      | Some r \<Rightarrow>
          res_bind (traverse group_result_to_proto (rs_groups r)) (\<lambda>gs.
            Inr (Some \<lparr>px_group_by = rs_group_by r, px_groups = gs\<rparr>)))"

definition proto_to_result :: "p_result option \<Rightarrow> conv_error + agg_result option" where
  "proto_to_result p =
     (case p of
        None \<Rightarrow> Inl (ErrNilMessage MsgResult)
      | Some r \<Rightarrow>
          res_bind (traverse proto_to_group_result (px_groups r)) (\<lambda>gs.
            Inr (Some \<lparr>rs_group_by = px_group_by r, rs_groups = gs\<rparr>)))"

section \<open>Codecs\<close>

text \<open>
  A codec decodes what it encodes. A strict one has a single wire form for every value: whatever it decodes
  is what it would have encoded.
\<close>

locale codec =
  fixes enc :: "'a \<Rightarrow> conv_error + 'b" and dec :: "'b \<Rightarrow> conv_error + 'a" and ok :: "'a \<Rightarrow> bool"
  assumes encodes: "ok x \<Longrightarrow> \<exists>y. enc x = Inr y \<and> dec y = Inr x"
begin

lemma decodes: "ok x \<Longrightarrow> enc x = Inr y \<Longrightarrow> dec y = Inr x"
  using encodes by fastforce

lemma injective: "ok x \<Longrightarrow> ok x' \<Longrightarrow> enc x = enc x' \<Longrightarrow> x = x'"
  using encodes [of x] encodes [of x'] by auto

lemma list_encodes: "list_all ok xs \<Longrightarrow> \<exists>ys. traverse enc xs = Inr ys \<and> traverse dec ys = Inr xs"
proof -
  assume ok: "list_all ok xs"
  then obtain ys where ys: "traverse enc xs = Inr ys"
    using traverse_total [of xs enc] encodes unfolding list_all_iff by blast
  moreover from traverse_roundtrip [OF _ this, of dec] have "traverse dec ys = Inr xs"
    using ok decodes by (auto simp: list_all_iff)
  ultimately show ?thesis by blast
qed

lemma list_codec: "codec (traverse enc) (traverse dec) (list_all ok)"
  by unfold_locales (rule list_encodes)

end

locale strict_codec = codec +
  assumes strict: "dec y = Inr x \<Longrightarrow> ok x \<and> enc x = Inr y"
begin

lemma inverse: "dec y = Inr x \<longleftrightarrow> ok x \<and> enc x = Inr y"
  using strict decodes by blast

lemma list_strict: "strict_codec (traverse enc) (traverse dec) (list_all ok)"
proof (intro strict_codec.intro list_codec strict_codec_axioms.intro)
  fix ys xs assume "traverse dec ys = Inr xs"
  then have all: "list_all2 (\<lambda>y x. dec y = Inr x) ys xs" by (simp add: traverse_Inr_iff)
  then have "list_all2 (\<lambda>x y. enc x = Inr y) xs ys" "\<forall>i < length xs. ok (xs ! i)"
    using strict by (auto simp: list_all2_conv_all_nth)
  then show "list_all ok xs \<and> traverse enc xs = Inr ys" by (simp add: traverse_Inr_iff list_all_length)
qed

end

definition known_kind :: "column_kind \<Rightarrow> bool" where
  "known_kind k \<longleftrightarrow> k = KindDimension \<or> k = KindMeasure \<or> k = KindIgnore"

definition known_column :: "column_schema \<Rightarrow> bool" where
  "known_column c \<longleftrightarrow> known_type (cs_type c) \<and> known_kind (cs_kind c)"

definition known_schema :: "schema \<Rightarrow> bool" where
  "known_schema s \<longleftrightarrow> list_all known_column (columns s)"

definition known_func_kind :: "agg_func_kind \<Rightarrow> bool" where
  "known_func_kind k \<longleftrightarrow> k \<in> {FuncSum, FuncMin, FuncMax, FuncAvg, FuncDistinct, FuncPercentile}"

definition named_func :: "agg_func \<Rightarrow> bool" where
  "named_func f \<longleftrightarrow> f = FnPercentile (af_q f) \<or> f = FnSum \<or> f = FnMin \<or> f = FnMax \<or> f = FnAvg \<or> f = FnDistinct"

definition named_spec :: "agg_spec \<Rightarrow> bool" where
  "named_spec s \<longleftrightarrow> list_all (\<lambda>ms. list_all named_func (ms_funcs ms)) (measures s)"

definition decoded_value :: "value_t \<Rightarrow> bool" where
  "decoded_value v \<longleftrightarrow> canonical (vtype v) v \<and> known_type (vtype v)"

definition sendable_group :: "group_state \<Rightarrow> bool" where
  "sendable_group g \<longleftrightarrow> list_all decoded_value (gs_key g) \<and> list_all (\<lambda>m. known_type (st_type m)) (gs_measures g)"

definition sendable_result :: "agg_result \<Rightarrow> bool" where
  "sendable_result r \<longleftrightarrow> list_all (\<lambda>g. list_all decoded_value (gr_key g)
     \<and> list_all (\<lambda>m. named_func (mr_func m) \<and> decoded_value (mr_value m)) (gr_measures g)) (rs_groups r)"

lemma decoded_values [simp]: "decoded_value (string_value s)" "decoded_value (int64_value i)" "decoded_value (float64_value x)"
  by (simp_all add: decoded_value_def canonical_def known_type_def string_value_def int64_value_def float64_value_def zero_value_def)

interpretation column_types: strict_codec column_type_to_proto proto_to_column_type known_type
proof
  show "known_type t \<Longrightarrow> \<exists>p. column_type_to_proto t = Inr p \<and> proto_to_column_type p = Inr t" for t
    by (auto simp: known_type_def)
  show "proto_to_column_type p = Inr t \<Longrightarrow> known_type t \<and> column_type_to_proto t = Inr p" for p t
    by (cases p) (auto simp: known_type_def)
qed

interpretation column_kinds: strict_codec column_kind_to_proto proto_to_column_kind known_kind
proof
  show "known_kind k \<Longrightarrow> \<exists>p. column_kind_to_proto k = Inr p \<and> proto_to_column_kind p = Inr k" for k
    by (auto simp: known_kind_def)
  show "proto_to_column_kind p = Inr k \<Longrightarrow> known_kind k \<and> column_kind_to_proto k = Inr p" for p k
    by (cases p) (auto simp: known_kind_def)
qed

interpretation func_kinds: strict_codec func_kind_to_proto proto_to_func_kind known_func_kind
proof
  show "known_func_kind k \<Longrightarrow> \<exists>p. func_kind_to_proto k = Inr p \<and> proto_to_func_kind p = Inr k" for k
    by (auto simp: known_func_kind_def)
  show "proto_to_func_kind p = Inr k \<Longrightarrow> known_func_kind k \<and> func_kind_to_proto k = Inr p" for p k
    by (cases p) (auto simp: known_func_kind_def)
qed

interpretation wire_columns: strict_codec column_to_proto proto_to_column known_column
proof
  show "known_column c \<Longrightarrow> \<exists>p. column_to_proto c = Inr p \<and> proto_to_column p = Inr c" for c
    using column_types.encodes [of "cs_type c"] column_kinds.encodes [of "cs_kind c"]
    by (auto simp: known_column_def column_to_proto_def proto_to_column_def)
  show "proto_to_column p = Inr c \<Longrightarrow> known_column c \<and> column_to_proto c = Inr p" for p c
    by (auto simp: known_column_def column_to_proto_def proto_to_column_def res_bind_Inr_iff split: option.splits
        dest!: column_types.strict column_kinds.strict)
qed

interpretation agg_funcs: codec agg_func_to_proto proto_to_agg_func named_func
proof
  fix f assume "named_func f"
  moreover from this have "known_func_kind (kind_of f)" by (cases "af_kind f") (auto simp: named_func_def agg_func_defs known_func_kind_def dest: arg_cong [of _ _ af_kind])
  then obtain k where "func_kind_to_proto (kind_of f) = Inr k" "proto_to_func_kind k = Inr (kind_of f)"
    using func_kinds.encodes by blast
  ultimately show "\<exists>p. agg_func_to_proto f = Inr p \<and> proto_to_agg_func p = Inr f"
    by (cases "af_kind f") (auto simp: agg_func_to_proto_def proto_to_agg_func_def named_func_def agg_func_defs quantile_of_def
        dest: arg_cong [of _ _ af_kind])
qed

interpretation measure_specs: codec measure_spec_to_proto proto_to_measure_spec "\<lambda>ms. list_all named_func (ms_funcs ms)"
  by unfold_locales
    (auto simp: measure_spec_to_proto_def proto_to_measure_spec_def dest!: agg_funcs.list_encodes)

interpretation wire_specs: codec spec_to_proto proto_to_spec named_spec
  by unfold_locales
    (auto simp: spec_to_proto_def proto_to_spec_def named_spec_def dest!: measure_specs.list_encodes)

interpretation wire_values: strict_codec value_to_proto proto_to_value decoded_value
proof
  show "decoded_value v \<Longrightarrow> \<exists>p. value_to_proto v = Inr p \<and> proto_to_value p = Inr v" for v
    by (cases "vtype v") (auto simp: decoded_value_def known_type_def canonical_def value_to_proto_def proto_to_value_def)
  show "proto_to_value p = Inr v \<Longrightarrow> decoded_value v \<and> value_to_proto v = Inr p" for p v
    by (auto simp: value_to_proto_def proto_to_value_def string_value_def int64_value_def float64_value_def
        decoded_value_def canonical_def known_type_def zero_value_def split: option.splits p_value.splits)
qed

interpretation measure_states: strict_codec measure_state_to_proto proto_to_measure_state "\<lambda>m. known_type (st_type m)"
proof
  show "known_type (st_type m) \<Longrightarrow> \<exists>p. measure_state_to_proto m = Inr p \<and> proto_to_measure_state p = Inr m" for m
    by (auto simp: measure_state_to_proto_def proto_to_measure_state_def dest!: column_types.encodes)
  show "proto_to_measure_state p = Inr m \<Longrightarrow> known_type (st_type m) \<and> measure_state_to_proto m = Inr p" for p m
    by (auto simp: measure_state_to_proto_def proto_to_measure_state_def res_bind_Inr_iff split: option.splits
        dest!: column_types.strict)
qed

interpretation wire_keys: strict_codec "traverse value_to_proto" "traverse proto_to_value" "list_all decoded_value"
  by (rule wire_values.list_strict)

interpretation measure_lists: strict_codec "traverse measure_state_to_proto" "traverse proto_to_measure_state"
    "list_all (\<lambda>m. known_type (st_type m))"
  by (rule measure_states.list_strict)

interpretation group_states: strict_codec group_state_to_proto proto_to_group_state sendable_group
proof
  show "sendable_group g \<Longrightarrow> \<exists>p. group_state_to_proto g = Inr p \<and> proto_to_group_state p = Inr g" for g
    using wire_keys.encodes [of "gs_key g"] measure_lists.encodes [of "gs_measures g"]
    by (auto simp: sendable_group_def group_state_to_proto_def proto_to_group_state_def)
  show "proto_to_group_state p = Inr g \<Longrightarrow> sendable_group g \<and> group_state_to_proto g = Inr p" for p g
    by (auto simp: sendable_group_def group_state_to_proto_def proto_to_group_state_def res_bind_Inr_iff split: option.splits
        dest!: wire_keys.strict measure_lists.strict)
qed

interpretation state_lists: strict_codec group_states_to_proto proto_to_group_states "list_all sendable_group"
  unfolding group_states_to_proto_def [abs_def] proto_to_group_states_def [abs_def] by (rule group_states.list_strict)

interpretation measure_results: codec measure_result_to_proto proto_to_measure_result
    "\<lambda>m. named_func (mr_func m) \<and> decoded_value (mr_value m)"
  by unfold_locales
    (auto simp: measure_result_to_proto_def proto_to_measure_result_def dest!: agg_funcs.encodes wire_values.encodes)

interpretation group_results: codec group_result_to_proto proto_to_group_result
    "\<lambda>g. list_all decoded_value (gr_key g) \<and> list_all (\<lambda>m. named_func (mr_func m) \<and> decoded_value (mr_value m)) (gr_measures g)"
  by unfold_locales
    (auto simp: group_result_to_proto_def proto_to_group_result_def dest!: wire_keys.encodes measure_results.list_encodes)

interpretation wire_results: codec result_to_proto proto_to_result "\<lambda>r. case r of None \<Rightarrow> False | Some r \<Rightarrow> sendable_result r"
  by unfold_locales
    (auto simp: result_to_proto_def proto_to_result_def sendable_result_def split: option.splits dest!: group_results.list_encodes)

lemma delimiter_wire [simp]: "unat (of_nat (code c) :: u32) mod 256 = code c"
proof -
  have a: "code c < 256" by (rule code_lt_256)
  then have "code c < 4294967296" by linarith
  then have "unat (of_nat (code c) :: u32) = code c" by (simp add: unat_of_nat)
  then show ?thesis using a by (simp only: mod_less)
qed

lemma traverse_map_eq: "traverse f xs = Inr ys \<Longrightarrow> (\<And>x y. f x = Inr y \<Longrightarrow> g y = h x) \<Longrightarrow> map g ys = map h xs"
  unfolding traverse_Inr_iff by (induction rule: list_all2_induct) auto

section \<open>What an aggregator sends\<close>

lemma known_types_measures:
  assumes "config_ok a" and "\<forall>c \<in> set (columns (ag_schema a)). known_type (cs_type c)"
  shows "list_all known_type (measure_types a)"
  using assms by (auto simp: config_ok_def list_all_length list_all2_conv_all_nth resolved_def) (metis nth_mem)

lemma key_ok_decoded: "key_ok ts key \<Longrightarrow> list_all known_type ts \<Longrightarrow> list_all decoded_value key"
proof (induction ts arbitrary: key)
  case (Cons t ts)
  then obtain v vs where "key = v # vs" "canonical t v" "key_ok ts vs" by (auto simp: key_ok_def list_all2_Cons1)
  moreover from this have "vtype v = t" using canonical_type [of t v] Cons.prems(2) by (auto simp: known_type_def)
  ultimately show ?case using Cons by (simp add: decoded_value_def)
qed (simp add: key_ok_def)

lemma table_group_ok:
  assumes "agg_inv a0 a" and "g \<in> set (table_each (ag_table a))"
  shows "group_shape a0 g" and "key_ok (group_by_types a0) (ga_key g)"
proof -
  have "keyed_ok (hash_key (ag_seed a0)) (key_ok (group_by_types a0)) (ag_table a)" using assms(1) by (simp add: agg_inv_def)
  then have "groups a (ga_key g) = Some g" unfolding groups_def using keyed_each(2) assms(2) by blast
  then show "group_shape a0 g" "key_ok (group_by_types a0) (ga_key g)" using groups_key [OF assms(1)] by blast+
qed

lemma export_sendable:
  assumes inv: "agg_inv a0 a" and s: "\<forall>c \<in> set (columns (ag_schema a0)). known_type (cs_type c)"
  shows "list_all sendable_group (export_state a)"
proof -
  have c: "config_ok a0" using inv by (simp add: agg_inv_def)
  have types: "list_all known_type (measure_types a0)" "list_all known_type (group_by_types a0)"
    using known_types_measures [OF c s] c by (simp_all add: config_ok_def)
  have "sendable_group (group_accum_to_state g)" if "g \<in> set (table_each (ag_table a))" for g
  proof -
    have "list_all2 (\<lambda>(t, w). measure_shape t w) (zip (measure_types a0) (ag_wants a0)) (ga_measures g)"
      using table_group_ok(1) [OF inv that] by (simp add: group_shape_def)
    then have "list_all (\<lambda>m. known_type (ma_type m)) (ga_measures g)"
      using types(1) c unfolding config_ok_def list_all_length list_all2_conv_all_nth
      by (simp add: measure_shape_def)
    then show ?thesis
      using key_ok_decoded [OF table_group_ok(2) [OF inv that] types(2)]
      by (simp add: sendable_group_def group_accum_to_state_def measure_accum_to_state_def list_all_iff)
  qed
  then show ?thesis by (simp add: export_state_def list_all_iff)
qed

lemma measure_value_decoded: "computable m fn \<Longrightarrow> named_func fn \<Longrightarrow> decoded_value (measure_value lib m n fn)"
  by (cases "af_kind fn")
    (auto simp: computable_def measure_value_def measure_result_value_def Let_def case_prod_unfold named_func_def agg_func_defs
      dest: arg_cong [of _ _ af_kind])

lemma group_values_sendable:
  assumes "config_ok a" and "spec_config a" and "named_spec (ag_spec a)" and "group_shape a g"
  shows "list_all (\<lambda>m. named_func (mr_func m) \<and> decoded_value (mr_value m)) (gr_measures (group_values lib (ag_spec a) g))"
proof -
  have "list_all (\<lambda>m. named_func (mr_func m) \<and> decoded_value (mr_value m))
      (func_values lib (ms_column s) (ga_count g) (ms_funcs s) m)"
    if "(s, m) \<in> set (zip (measures (ag_spec a)) (ga_measures g))" for s m
  proof -
    have "\<forall>fn \<in> set (ms_funcs s). computable m fn"
      using group_computable [OF assms(1,2,4)] that by (auto simp: list_all2_iff)
    moreover have "\<forall>fn \<in> set (ms_funcs s). named_func fn"
      using assms(3) set_zip_leftD [OF that] by (simp add: named_spec_def list_all_iff)
    ultimately show ?thesis using measure_value_decoded by (auto simp: func_values_def list_all_iff)
  qed
  then show ?thesis by (auto simp: group_values_def list_all_iff)
qed

section \<open>Properties\<close>

text \<open>
  C16. Schemas and specs cross the wire unchanged: a schema whose column types and kinds have names, and a spec of
  named functions, are encoded, and decode to themselves; a column type or kind without a name is refused.
\<close>

theorem config_wire_roundtrip:
  "(\<exists>p. schema_to_proto s = Inr p) = known_schema s
   \<and> (\<forall>p. schema_to_proto s = Inr p \<longrightarrow> proto_to_schema p = Inr s)
   \<and> (named_spec spec \<longrightarrow> (\<exists>p. spec_to_proto spec = Inr p \<and> proto_to_spec p = Inr spec))"
proof (intro conjI allI impI)
  have enc: "(\<exists>p. column_to_proto c = Inr p) = known_column c" for c
  proof
    assume "\<exists>p. column_to_proto c = Inr p"
    then show "known_column c"
      by (cases "cs_type c"; cases "cs_kind c") (auto simp: column_to_proto_def known_column_def known_type_def known_kind_def)
  qed (use wire_columns.encodes in blast)
  show "(\<exists>p. schema_to_proto s = Inr p) = known_schema s"
  proof
    assume "\<exists>p. schema_to_proto s = Inr p"
    then obtain cols where "traverse column_to_proto (columns s) = Inr cols" by (auto simp: schema_to_proto_def res_bind_Inr_iff)
    then have "\<exists>p. column_to_proto c = Inr p" if "c \<in> set (columns s)" for c
      using that by (auto simp: traverse_Inr_iff list_all2_conv_all_nth in_set_conv_nth)
    then show "known_schema s" using enc by (simp add: known_schema_def list_all_iff)
  next
    assume "known_schema s"
    then obtain cols where "traverse column_to_proto (columns s) = Inr cols"
      using wire_columns.list_encodes by (auto simp: known_schema_def)
    then show "\<exists>p. schema_to_proto s = Inr p" by (simp add: schema_to_proto_def)
  qed
  show "proto_to_schema p = Inr s" if e: "schema_to_proto s = Inr p" for p
  proof -
    obtain cols where cols: "traverse column_to_proto (columns s) = Inr cols"
        "p = Some \<lparr>ps_delimiter = of_nat (code (delimiter s)), ps_has_header = has_header s, ps_quote_aware = quote_aware s, ps_columns = cols\<rparr>"
      using e by (auto simp: schema_to_proto_def res_bind_Inr_iff)
    have "traverse proto_to_column cols = Inr (columns s)"
      using cols(1) by (rule traverse_roundtrip [rotated]) (use enc wire_columns.decodes in blast)
    then show ?thesis by (simp add: cols(2) proto_to_schema_def delimiter_wire)
  qed
  show "\<exists>p. spec_to_proto spec = Inr p \<and> proto_to_spec p = Inr spec" if "named_spec spec"
    using wire_specs.encodes [OF that] .
qed

theorem config_wire_roundtrip_witness:
  "\<exists>p. spec_to_proto sample_spec = Inr p \<and> proto_to_spec p = Inr sample_spec"
proof -
  have "named_spec sample_spec" by (simp add: named_spec_def named_func_def sample_spec_def)
  then show ?thesis using config_wire_roundtrip [of sample_schema sample_spec] by blast
qed

text \<open>
  C18. Partial states have one wire form: a list of messages decodes to states exactly if it is the encoding of
  those states, and states are encoded exactly if their keys are decoded values and their columns have named
  types. In particular a worker's snapshot arrives as it was, bit for bit.
\<close>

theorem states_wire_form:
  "proto_to_group_states ps = Inr gs \<longleftrightarrow> list_all sendable_group gs \<and> group_states_to_proto gs = Inr ps"
  by (rule state_lists.inverse)

lemma result_sendable:
  assumes inv: "agg_inv a0 a" and "spec_config a0" and named: "named_spec (ag_spec a0)" and sort: "slice_sorts sort_slice"
    and r: "agg_result_of sort_slice lib a = Some (r, a')"
  shows "sendable_result r"
proof -
  define rs where "rs = map (group_values lib (ag_spec a0)) (table_each (ag_table a))"
  have r: "rs_groups r = sort_groups sort_slice (group_by_types a0) rs" and keyed: "keyed_results (group_by_types a0) rs"
    using agg_result_ok [OF inv assms(2), of sort_slice lib] r unfolding rs_def by auto
  have config: "config_ok a0" using inv by (simp add: agg_inv_def)
  then have types: "list_all known_type (group_by_types a0)" by (simp add: config_ok_def)
  have "set (rs_groups r) = set rs" using sort_groups_ok(1) [OF sort keyed] unfolding r by (rule mset_eq_setD)
  moreover have "list_all decoded_value (gr_key g) \<and> list_all (\<lambda>m. named_func (mr_func m) \<and> decoded_value (mr_value m)) (gr_measures g)"
    if "g \<in> set rs" for g
  proof -
    obtain h where h: "h \<in> set (table_each (ag_table a))" "g = group_values lib (ag_spec a0) h"
      using \<open>g \<in> set rs\<close> unfolding rs_def set_map by blast
    have "list_all decoded_value (ga_key h)" by (rule key_ok_decoded [OF table_group_ok(2) [OF inv h(1)] types])
    moreover note group_values_sendable [OF config assms(2) named table_group_ok(1) [OF inv h(1)], of lib]
    ultimately show ?thesis by (simp add: h(2)) (simp add: group_values_def)
  qed
  ultimately show ?thesis by (simp add: sendable_result_def list_all_iff)
qed

text \<open>
  C17. The answer of a query arrives as computed: the result of an aggregator over a schema of named types and a spec
  of named functions is encoded, and decodes to the same groups, counts and values.
\<close>

theorem result_wire_roundtrip:
  assumes "holds lib a0 a rows" and "spec_config a0" and "named_spec (ag_spec a0)" and "slice_sorts sort_slice"
  shows "\<exists>r a' p. agg_result_of sort_slice lib a = Some (r, a') \<and> result_to_proto (Some r) = Inr p \<and> proto_to_result p = Inr (Some r)"
proof -
  have inv: "agg_inv a0 a" using assms(1) by (simp add: holds_def)
  obtain r a' where r: "agg_result_of sort_slice lib a = Some (r, a')"
    using agg_result_ok [OF inv assms(2), of sort_slice lib] by blast
  show ?thesis using wire_results.encodes [of "Some r"] result_sendable [OF inv assms(2-4) r] r by auto
qed

theorem result_wire_roundtrip_witness:
  "\<exists>r a' p. agg_result_of insertion_sort sample_lib sample_agg = Some (r, a') \<and> proto_to_result p = Inr (Some r)"
proof -
  have "named_spec (ag_spec sample_agg)" by (simp add: named_spec_def named_func_def sample_spec_def sample_agg_def)
  from result_wire_roundtrip [OF holds_new [OF sample_facts(1,2)] new_spec_config [OF sample_facts(1)] this insertion_sort_sorts]
  show ?thesis by blast
qed

end
