(* ===== verification/Steps.thy ===== *)
theory Steps
  imports Main
begin

text \<open>
  The contract of a concurrent phase that ends: a step relation that keeps an invariant, in which every step
  uses something up, and in which some step is possible until all goroutines are done.
\<close>

locale ending =
  fixes step :: "'s \<Rightarrow> 's \<Rightarrow> bool" and finished :: "'s \<Rightarrow> bool" and weight :: "'s \<Rightarrow> nat" and ok :: "'s \<Rightarrow> bool"
  assumes preserved: "step s t \<Longrightarrow> ok s \<Longrightarrow> ok t"
    and decreases: "step s t \<Longrightarrow> ok s \<Longrightarrow> weight t < weight s"
    and progress: "ok s \<Longrightarrow> \<not> finished s \<Longrightarrow> \<exists>t. step s t"
begin

lemma reached: "step\<^sup>*\<^sup>* s t \<Longrightarrow> ok s \<Longrightarrow> ok t"
  by (induction rule: rtranclp_induct) (auto intro: preserved)

lemma ends: "ok s \<Longrightarrow> \<exists>t. step\<^sup>*\<^sup>* s t \<and> finished t"
proof (induction s rule: measure_induct_rule [of weight])
  case (less s)
  show ?case
  proof (cases "finished s")
    case False
    then obtain u where "step s u" using progress less.prems by blast
    with less decreases preserved show ?thesis by (meson converse_rtranclp_into_rtranclp)
  qed blast
qed

text \<open>No run is longer than the weight of the state it starts from.\<close>

lemma bounded: "(step ^^ n) s t \<Longrightarrow> ok s \<Longrightarrow> ok t \<and> n + weight t \<le> weight s"
proof (induction n arbitrary: t)
  case (Suc n)
  then obtain u where "(step ^^ n) s u" "step u t" by auto
  then show ?case using Suc decreases [of u t] preserved [of u t] by fastforce
qed simp

end

text \<open>The same without an invariant.\<close>

locale terminating =
  fixes step :: "'s \<Rightarrow> 's \<Rightarrow> bool" and finished :: "'s \<Rightarrow> bool" and weight :: "'s \<Rightarrow> nat"
  assumes decreases: "step s t \<Longrightarrow> weight t < weight s"
    and progress: "\<not> finished s \<Longrightarrow> \<exists>t. step s t"

sublocale terminating \<subseteq> always: ending step finished weight "\<lambda>_. True"
  by unfold_locales (auto intro: decreases progress)

context terminating
begin

lemma ends: "\<exists>t. step\<^sup>*\<^sup>* s t \<and> finished t"
  by (rule always.ends) simp

lemma bounded: "(step ^^ n) s t \<Longrightarrow> n + weight t \<le> weight s"
  using always.bounded by simp

lemma invariant: "step\<^sup>*\<^sup>* s t \<Longrightarrow> P s \<Longrightarrow> (\<And>x y. step x y \<Longrightarrow> P x \<Longrightarrow> P y) \<Longrightarrow> P t"
  by (induction rule: rtranclp_induct) auto

end

end
