(* ===== verification/Tally.thy ===== *)
theory Tally
  imports Prelude Steps
begin

text \<open>
  The counter of skipped rows of \<open>runRun\<close> and \<open>runIngest\<close>: the callback \<open>OnSkippedRow\<close> increments one
  variable, \<open>skipped++\<close>, and \<open>runChunks\<close> calls it from the goroutine of every chunk. An increment is a load
  and a store, and nothing orders those of different goroutines, so updates can be lost.
\<close>

record tally =
  ta_value :: i64
  ta_procs :: "(nat \<times> i64 option) list"

text \<open>A goroutine has some calls left, and between load and store the value it has read.\<close>

definition tally_start :: "nat list \<Rightarrow> tally" where
  "tally_start calls = \<lparr>ta_value = 0, ta_procs = map (\<lambda>n. (n, None)) calls\<rparr>"

inductive tally_step :: "tally \<Rightarrow> tally \<Rightarrow> bool" where
  tally_load: "i < length (ta_procs t) \<Longrightarrow> ta_procs t ! i = (Suc n, None) \<Longrightarrow>
     tally_step t (t\<lparr>ta_procs := (ta_procs t)[i := (Suc n, Some (ta_value t))]\<rparr>)"
| tally_store: "i < length (ta_procs t) \<Longrightarrow> ta_procs t ! i = (Suc n, Some v) \<Longrightarrow>
     tally_step t \<lparr>ta_value = v + 1, ta_procs = (ta_procs t)[i := (n, None)]\<rparr>"

inductive_cases tally_stepE: "tally_step t u"

definition tally_finished :: "tally \<Rightarrow> bool" where
  "tally_finished t \<longleftrightarrow> list_all (\<lambda>p. fst p = 0) (ta_procs t)"

definition tally_returns :: "nat list \<Rightarrow> i64 \<Rightarrow> bool" where
  "tally_returns calls k \<longleftrightarrow>
     (\<exists>t. tally_step\<^sup>*\<^sup>* (tally_start calls) t \<and> tally_finished t \<and> ta_value t = k)"

section \<open>Every run ends\<close>

definition calls_left :: "tally \<Rightarrow> nat" where
  "calls_left t = sum_list (map fst (ta_procs t))"

definition proc_weight :: "nat \<times> i64 option \<Rightarrow> nat" where
  "proc_weight p = 2 * fst p - (if snd p = None then 0 else 1)"

definition tally_weight :: "tally \<Rightarrow> nat" where
  "tally_weight t = sum_list (map proc_weight (ta_procs t))"

lemma tally_decreases: "tally_step t u \<Longrightarrow> tally_weight u < tally_weight t"
proof (erule tally_stepE)
  fix i n
  assume "u = t\<lparr>ta_procs := (ta_procs t)[i := (Suc n, Some (ta_value t))]\<rparr>" "i < length (ta_procs t)" "ta_procs t ! i = (Suc n, None)"
  then show "tally_weight u < tally_weight t"
    using sum_list_map_upd [of i "ta_procs t" proc_weight "(Suc n, Some (ta_value t))"] by (simp add: tally_weight_def proc_weight_def)
next
  fix i n v
  assume "u = \<lparr>ta_value = v + 1, ta_procs = (ta_procs t)[i := (n, None)]\<rparr>" "i < length (ta_procs t)" "ta_procs t ! i = (Suc n, Some v)"
  then show "tally_weight u < tally_weight t"
    using sum_list_map_upd [of i "ta_procs t" proc_weight "(n, None)"] by (simp add: tally_weight_def proc_weight_def)
qed

lemma tally_finished_left: "tally_finished t \<longleftrightarrow> calls_left t = 0"
  by (auto simp: tally_finished_def calls_left_def list_all_iff)

lemma tally_progress: "\<not> tally_finished t \<Longrightarrow> \<exists>u. tally_step t u"
proof -
  assume "\<not> tally_finished t"
  then obtain i n r where "i < length (ta_procs t)" "ta_procs t ! i = (Suc n, r)"
    by (auto simp: tally_finished_def list_all_length) (metis Suc_pred surj_pair fst_conv)
  then show ?thesis by (cases r) (blast intro: tally_step.intros)+
qed

interpretation tally: terminating tally_step tally_finished tally_weight
  by unfold_locales (rule tally_decreases tally_progress, assumption)+

lemma calls_left_start [simp]: "calls_left (tally_start calls) = sum_list calls"
  by (simp add: calls_left_def tally_start_def comp_def)

section \<open>What the counter can hold\<close>

text \<open>Never more than the number of calls, and something once a call has ended.\<close>

definition bounded_tally :: "nat \<Rightarrow> tally \<Rightarrow> bool" where
  "bounded_tally amount t \<longleftrightarrow>
     (\<exists>a. ta_value t = of_nat a \<and> a + calls_left t \<le> amount \<and> (calls_left t < amount \<longrightarrow> 0 < a))
     \<and> (\<forall>(n, r) \<in> set (ta_procs t). \<forall>v. r = Some v \<longrightarrow> (\<exists>b. v = of_nat b \<and> b + calls_left t \<le> amount))"

lemma bounded_tally_start: "bounded_tally (sum_list calls) (tally_start calls)"
  using calls_left_start [of calls] by (auto simp: bounded_tally_def tally_start_def simp del: calls_left_start intro: exI [of _ 0])

lemma bounded_tally_step:
  assumes "tally_step t u" and "bounded_tally amount t"
  shows "bounded_tally amount u"
  using assms(1)
proof cases
  case (tally_load i n)
  have left: "calls_left u = calls_left t"
    using sum_list_map_upd [of i "ta_procs t" fst "(Suc n, Some (ta_value t))"] tally_load by (simp add: calls_left_def)
  show ?thesis
    using assms(2) tally_load(2) unfolding bounded_tally_def left
    by (auto simp: tally_load(1) dest!: set_update_subset_insert [THEN subsetD])
next
  case (tally_store i n v)
  have left: "calls_left t = Suc (calls_left u)"
    using sum_list_map_upd [of i "ta_procs t" fst "(n, None)"] tally_store by (simp add: calls_left_def)
  have "(Suc n, Some v) \<in> set (ta_procs t)" using tally_store by (metis nth_mem)
  then obtain b where b: "v = of_nat b" "b + calls_left t \<le> amount"
    using assms(2) by (fastforce simp: bounded_tally_def)
  then have "ta_value u = of_nat (Suc b) \<and> Suc b + calls_left u \<le> amount \<and> 0 < Suc b"
    using left tally_store(1) by (simp add: add.commute)
  moreover have "\<exists>b. v' = of_nat b \<and> b + calls_left u \<le> amount" if v': "(m, Some v') \<in> set (ta_procs u)" for m v'
  proof -
    have "(m, Some v') \<in> set (ta_procs t)"
      using v' tally_store(1) by (auto dest!: set_update_subset_insert [THEN subsetD])
    then obtain b' where "v' = of_nat b'" "b' + calls_left t \<le> amount" using assms(2) by (fastforce simp: bounded_tally_def)
    then show ?thesis using left by auto
  qed
  ultimately show ?thesis unfolding bounded_tally_def by blast
qed

text \<open>With one goroutine calling, the value read is the current one and nothing is lost.\<close>

definition lone_tally :: "nat \<Rightarrow> nat \<Rightarrow> tally \<Rightarrow> bool" where
  "lone_tally amount m t \<longleftrightarrow>
     (\<exists>a. ta_value t = of_nat a \<and> a + calls_left t = amount)
     \<and> (\<forall>i < length (ta_procs t). \<forall>n r. ta_procs t ! i = (n, r) \<longrightarrow> (i \<noteq> m \<longrightarrow> n = 0 \<and> r = None) \<and> (\<forall>v. r = Some v \<longrightarrow> v = ta_value t))"

lemma lone_tally_step:
  assumes "tally_step t u" and "lone_tally amount m t"
  shows "lone_tally amount m u"
  using assms(1)
proof cases
  case (tally_load i n)
  have "calls_left u = calls_left t"
    using sum_list_map_upd [of i "ta_procs t" fst "(Suc n, Some (ta_value t))"] tally_load by (simp add: calls_left_def)
  then show ?thesis
    using assms(2) tally_load by (auto simp: lone_tally_def nth_list_update)
next
  case (tally_store i n v)
  have left: "calls_left t = Suc (calls_left u)"
    using sum_list_map_upd [of i "ta_procs t" fst "(n, None)"] tally_store by (simp add: calls_left_def)
  obtain a where a: "ta_value t = of_nat a" "a + calls_left t = amount" using assms(2) by (auto simp: lone_tally_def)
  have im: "i = m" "v = ta_value t" using assms(2) tally_store(2,3) by (auto simp: lone_tally_def)
  have "ta_value u = of_nat (Suc a)" "Suc a + calls_left u = amount"
    using a left im(2) tally_store(1) by (simp_all add: add.commute)
  moreover have "(k \<noteq> m \<longrightarrow> n' = 0 \<and> r = None) \<and> r = None"
    if "k < length (ta_procs u)" "ta_procs u ! k = (n', r)" for k n' r
  proof (cases "k = m")
    case True
    then show ?thesis using that tally_store(1,2) im(1) by simp
  next
    case False
    then show ?thesis using that tally_store(1) im(1) assms(2) by (simp add: lone_tally_def)
  qed
  ultimately show ?thesis unfolding lone_tally_def by (metis option.distinct(1))
qed

lemma tally_bounds:
  assumes "tally_returns calls k"
  shows "\<exists>n. k = of_nat n \<and> n \<le> sum_list calls \<and> (0 < sum_list calls \<longrightarrow> 0 < n)"
proof -
  obtain t where t: "tally_step\<^sup>*\<^sup>* (tally_start calls) t" "tally_finished t" "ta_value t = k"
    using assms by (auto simp: tally_returns_def)
  have "bounded_tally (sum_list calls) t"
    by (rule tally.invariant [where P = "bounded_tally (sum_list calls)", OF t(1) bounded_tally_start bounded_tally_step])
  with t show ?thesis by (auto simp: bounded_tally_def tally_finished_left)
qed

lemma tally_alone:
  assumes "tally_returns calls k" and "\<And>i. i < length calls \<Longrightarrow> i \<noteq> m \<Longrightarrow> calls ! i = 0"
  shows "k = of_nat (sum_list calls)"
proof -
  obtain t where t: "tally_step\<^sup>*\<^sup>* (tally_start calls) t" "tally_finished t" "ta_value t = k"
    using assms(1) by (auto simp: tally_returns_def)
  have "lone_tally (sum_list calls) m (tally_start calls)"
    using assms(2) calls_left_start [of calls] by (auto simp: lone_tally_def tally_start_def simp del: calls_left_start intro: exI [of _ 0])
  then have "lone_tally (sum_list calls) m t"
    by (rule tally.invariant [OF t(1)]) (rule lone_tally_step)
  with t show ?thesis by (auto simp: lone_tally_def tally_finished_left)
qed

section \<open>Runs that lose nothing, and runs that do\<close>

definition idle_tally :: "tally \<Rightarrow> bool" where
  "idle_tally t \<longleftrightarrow> list_all (\<lambda>p. snd p = None) (ta_procs t)"

text \<open>One call, undisturbed.\<close>

lemma tally_call:
  assumes "i < length (ta_procs t)" and "ta_procs t ! i = (Suc n, None)"
  shows "tally_step\<^sup>*\<^sup>* t \<lparr>ta_value = ta_value t + 1, ta_procs = (ta_procs t)[i := (n, None)]\<rparr>"
proof -
  define u where "u = t\<lparr>ta_procs := (ta_procs t)[i := (Suc n, Some (ta_value t))]\<rparr>"
  have "tally_step t u" using tally_load [OF assms] by (simp add: u_def)
  moreover have "tally_step u \<lparr>ta_value = ta_value t + 1, ta_procs = (ta_procs t)[i := (n, None)]\<rparr>"
    using tally_store [of i u n "ta_value t"] assms(1) by (simp add: u_def)
  ultimately show ?thesis by simp
qed

lemma tally_serial:
  assumes "idle_tally t"
  shows "\<exists>u. tally_step\<^sup>*\<^sup>* t u \<and> tally_finished u \<and> ta_value u = ta_value t + of_nat (calls_left t)"
  using assms
proof (induction "calls_left t" arbitrary: t)
  case 0
  then show ?case by (intro exI [of _ t]) (simp add: tally_finished_left)
next
  case (Suc k)
  then have "\<not> tally_finished t" by (simp add: tally_finished_left)
  then obtain i n where i: "i < length (ta_procs t)" "ta_procs t ! i = (Suc n, None)"
    using Suc.prems by (auto simp: tally_finished_def idle_tally_def list_all_length) (metis Suc_pred prod.collapse)
  define u where "u = \<lparr>ta_value = ta_value t + 1, ta_procs = (ta_procs t)[i := (n, None)]\<rparr>"
  have u: "calls_left t = Suc (calls_left u)" "idle_tally u"
    using sum_list_map_upd [of i "ta_procs t" fst "(n, None)"] i Suc.prems
    by (auto simp: calls_left_def u_def idle_tally_def list_all_length nth_list_update)
  then obtain v where "tally_step\<^sup>*\<^sup>* u v" "tally_finished v" "ta_value v = ta_value u + of_nat (calls_left u)"
    using Suc by (metis Suc_inject)
  moreover have "ta_value u + of_nat (calls_left u) = ta_value t + of_nat (calls_left t)" by (simp add: u_def u(1)[unfolded u_def])
  ultimately show ?case using tally_call [OF i] by (metis rtranclp_trans u_def)
qed

lemma idle_tally_start: "idle_tally (tally_start calls)"
  by (simp add: idle_tally_def tally_start_def list_all_length)

lemma tally_exact: "tally_returns calls (of_nat (sum_list calls))"
proof -
  have "ta_value (tally_start calls) = 0" by (simp add: tally_start_def)
  then show ?thesis using tally_serial [OF idle_tally_start, of calls] unfolding tally_returns_def by auto
qed

text \<open>
  C24. The number \<open>cordage run\<close> and \<open>cordage ingest\<close> report as skipped can be too small: if the goroutines of two chunks
  each skip a row, a run that loads in both before either stores counts one row less.
\<close>

theorem skipped_race:
  assumes "i < length calls" and "j < length calls" and "i \<noteq> j" and "0 < calls ! i" and "0 < calls ! j"
  shows "tally_returns calls (of_nat (sum_list calls - 1))"
proof -
  obtain n m where nm: "calls ! i = Suc n" "calls ! j = Suc m" using assms(4,5) by (metis Suc_pred)
  define ps where "ps = ta_procs (tally_start calls)"
  define s1 where "s1 = \<lparr>ta_value = 0 :: i64, ta_procs = ps[i := (Suc n, Some 0)]\<rparr>"
  define s2 where "s2 = \<lparr>ta_value = 0 :: i64, ta_procs = ps[i := (Suc n, Some 0), j := (Suc m, Some 0)]\<rparr>"
  define s3 where "s3 = \<lparr>ta_value = 1 :: i64, ta_procs = ps[i := (n, None), j := (Suc m, Some 0)]\<rparr>"
  define s4 where "s4 = \<lparr>ta_value = 1 :: i64, ta_procs = ps[i := (n, None), j := (m, None)]\<rparr>"
  have ps: "length ps = length calls" "ps ! i = (Suc n, None)" "ps ! j = (Suc m, None)"
    using assms(1,2) nm by (simp_all add: ps_def tally_start_def)
  have "tally_step (tally_start calls) s1"
    using tally_load [of i "tally_start calls" n] ps assms(1) by (simp add: s1_def ps_def [symmetric]) (simp add: tally_start_def)
  moreover have "tally_step s1 s2"
    using tally_load [of j s1 m] ps assms(2,3) by (simp add: s1_def s2_def)
  moreover have "tally_step s2 s3"
    using tally_store [of i s2 n 0] ps assms by (simp add: s2_def s3_def list_update_swap)
  moreover have "tally_step s3 s4"
    using tally_store [of j s3 m 0] ps assms by (simp add: s3_def s4_def)
  ultimately have run: "tally_step\<^sup>*\<^sup>* (tally_start calls) s4" by (meson converse_rtranclp_into_rtranclp r_into_rtranclp)
  have "sum_list (map fst ps) = sum_list calls" using calls_left_start [of calls] by (simp add: calls_left_def ps_def)
  then have left: "calls_left s4 + 2 = sum_list calls"
    using sum_list_map_upd [of i ps fst "(n, None)"] sum_list_map_upd [of j "ps[i := (n, None)]" fst "(m, None)"] ps assms
    by (simp add: calls_left_def s4_def)
  have "idle_tally s4"
    using idle_tally_start [of calls] ps(1) assms(1,2)
    by (simp add: idle_tally_def s4_def list_all_length nth_list_update flip: ps_def)
  then obtain u where u: "tally_step\<^sup>*\<^sup>* s4 u" "tally_finished u" "ta_value u = ta_value s4 + of_nat (calls_left s4)"
    using tally_serial by blast
  have "ta_value u = of_nat (sum_list calls - 1)" using u(3) left by (simp add: s4_def flip: left)
  then show ?thesis using run u(1,2) by (auto simp: tally_returns_def intro: rtranclp_trans)
qed

theorem skipped_race_witness: "tally_returns [1, 1] 1"
  using skipped_race [of 0 "[1, 1]" 1] by simp

end
