(* ===== verification/Parallel.thy ===== *)
theory Parallel
  imports Merging Steps
begin

text \<open>
  \<open>internal/aggregate/parallel.go\<close>: \<open>RunParallel\<close>, workers that drain one channel of batches into private
  aggregators, and the merge of those at the end.

  A step of the relation is one batch taken by one worker, with its \<open>Add\<close>, which touches nothing shared;
  the failure of one; a producer stopping after an abort; or a worker seeing the channel closed. Which
  worker takes which batch is left open. A panic in a worker is an error here; in the code it ends the
  program.
\<close>

record par_state =
  par_chan :: "batch list"
  par_aggs :: "aggregator list"
  par_rows :: "i64 list"
  par_alive :: "bool list"
  par_err :: "agg_error option"

definition worker_count :: "int \<Rightarrow> nat" where
  "worker_count n = nat (if n < 1 then 1 else n)"

definition par_start :: "(nat \<Rightarrow> maphash) \<Rightarrow> schema \<Rightarrow> agg_spec \<Rightarrow> batch list \<Rightarrow> int \<Rightarrow> agg_error + par_state" where
  "par_start seeds s spec batches workers =
     (let n = worker_count workers
      in map_sum id
           (\<lambda>aggs. \<lparr>par_chan = batches, par_aggs = aggs, par_rows = replicate n 0, par_alive = replicate n True, par_err = None\<rparr>)
           (traverse (\<lambda>i. new_aggregator (seeds i) s spec) [0..<n]))"

inductive par_step :: "runtime_lib \<Rightarrow> par_state \<Rightarrow> par_state \<Rightarrow> bool" for lib where
  par_take: "\<lbrakk>i < length (par_alive st); par_alive st ! i; par_chan st = b # bs; agg_add lib b (par_aggs st ! i) = Inr a\<rbrakk> \<Longrightarrow>
     par_step lib st (st\<lparr>par_chan := bs, par_aggs := (par_aggs st)[i := a],
                        par_rows := (par_rows st)[i := par_rows st ! i + of_nat (num_rows b)]\<rparr>)"
| par_fail: "\<lbrakk>i < length (par_alive st); par_alive st ! i; par_chan st = b # bs; agg_add lib b (par_aggs st ! i) = Inl e\<rbrakk> \<Longrightarrow>
     par_step lib st (st\<lparr>par_chan := bs, par_alive := (par_alive st)[i := False],
                        par_err := (case par_err st of None \<Rightarrow> Some e | Some e' \<Rightarrow> Some e')\<rparr>)"
| par_abort: "\<lbrakk>par_err st \<noteq> None; k < length (par_chan st)\<rbrakk> \<Longrightarrow>
     par_step lib st (st\<lparr>par_chan := take k (par_chan st)\<rparr>)"
| par_exit: "\<lbrakk>i < length (par_alive st); par_alive st ! i; par_chan st = []\<rbrakk> \<Longrightarrow>
     par_step lib st (st\<lparr>par_alive := (par_alive st)[i := False]\<rparr>)"

inductive_cases par_stepE: "par_step lib st st'"

definition par_finished :: "par_state \<Rightarrow> bool" where
  "par_finished st \<longleftrightarrow> True \<notin> set (par_alive st)"

definition par_result :: "runtime_lib \<Rightarrow> par_state \<Rightarrow> agg_error + (aggregator \<times> i64)" where
  "par_result lib st =
     (case par_err st of
        Some e \<Rightarrow> Inl e
      | None \<Rightarrow>
          (case par_aggs st of
             [] \<Rightarrow> Inl AggPanic
           | a # others \<Rightarrow> map_sum id (\<lambda>final. (final, sum_list (par_rows st))) (fold_res (\<lambda>other a. agg_merge lib a other) others a)))"

text \<open>What \<open>RunParallel\<close> may return.\<close>

definition par_returns :: "runtime_lib \<Rightarrow> (nat \<Rightarrow> maphash) \<Rightarrow> schema \<Rightarrow> agg_spec \<Rightarrow> batch list \<Rightarrow> int \<Rightarrow> agg_error + (aggregator \<times> i64) \<Rightarrow> bool" where
  "par_returns lib seeds s spec batches workers res \<longleftrightarrow>
     (case par_start seeds s spec batches workers of
        Inl e \<Rightarrow> res = Inl e
      | Inr st \<Rightarrow> (\<exists>st'. (par_step lib)\<^sup>*\<^sup>* st st' \<and> par_finished st' \<and> res = par_result lib st'))"

section \<open>Every run ends\<close>

definition par_measure :: "par_state \<Rightarrow> nat" where
  "par_measure st = length (par_chan st) + count_list (par_alive st) True"

lemma count_list_kill: "i < length bs \<Longrightarrow> bs ! i \<Longrightarrow> count_list (bs[i := False]) True < count_list bs True"
  by (induction bs arbitrary: i) (auto split: nat.splits simp: nth_Cons)

lemma par_step_measure: "par_step lib st st' \<Longrightarrow> par_measure st' < par_measure st"
  by (induction rule: par_step.induct) (auto simp: par_measure_def intro: count_list_kill add_less_mono less_trans)

lemma par_progress: "\<not> par_finished st \<Longrightarrow> \<exists>st'. par_step lib st st'"
proof -
  assume "\<not> par_finished st"
  then obtain i where i: "i < length (par_alive st)" "par_alive st ! i"
    by (auto simp: par_finished_def in_set_conv_nth)
  show ?thesis
  proof (cases "par_chan st")
    case Nil
    then show ?thesis using par_exit [OF i] by blast
  next
    case (Cons b bs)
    then show ?thesis using par_take [OF i Cons] par_fail [OF i Cons] by (cases "agg_add lib b (par_aggs st ! i)") blast+
  qed
qed

interpretation par: terminating "par_step lib" par_finished par_measure for lib
  by unfold_locales (erule par_step_measure, erule par_progress)

section \<open>Correctness\<close>

text \<open>
  The invariant while no worker has failed: the batches not in the channel have been dealt out, and every
  worker's aggregator holds the rows of its share.
\<close>

definition par_inv :: "runtime_lib \<Rightarrow> (nat \<Rightarrow> aggregator) \<Rightarrow> nat \<Rightarrow> batch list \<Rightarrow> par_state \<Rightarrow> bool" where
  "par_inv lib fresh n batches st \<longleftrightarrow> par_err st = None \<and> length (par_alive st) = n \<and> length (par_aggs st) = n \<and> length (par_rows st) = n
     \<and> (\<exists>share. (\<forall>i < n. holds lib (fresh i) (par_aggs st ! i) (all_rows (fresh i) (share i))
                    \<and> par_rows st ! i = of_nat (length (all_rows (fresh i) (share i))))
          \<and> (\<Sum>i<n. mset (share i)) + mset (par_chan st) = mset batches)
     \<and> (False \<in> set (par_alive st) \<longrightarrow> par_chan st = [])"

lemma alive_no_False: "False \<notin> set bs \<Longrightarrow> i < length bs \<Longrightarrow> bs ! i"
  by (metis nth_mem)

lemma par_inv_step:
  assumes step: "par_step lib st st'" and inv: "par_inv lib fresh n batches st"
    and fresh: "\<And>i. i < n \<Longrightarrow> ag_schema (fresh i) = s \<and> rows_of (fresh i) = rows_of (fresh 0)"
    and wf: "\<forall>b \<in> set batches. wf_batch s b" and room: "length (all_rows (fresh 0) batches) \<le> max_groups"
  shows "par_inv lib fresh n batches st'"
proof -
  from inv obtain share where sh: "\<And>i. i < n \<Longrightarrow> holds lib (fresh i) (par_aggs st ! i) (all_rows (fresh i) (share i))
      \<and> par_rows st ! i = of_nat (length (all_rows (fresh i) (share i)))"
      "(\<Sum>i<n. mset (share i)) + mset (par_chan st) = mset batches"
    by (auto simp: par_inv_def)
  have lens: "par_err st = None" "length (par_alive st) = n" "length (par_aggs st) = n" "length (par_rows st) = n"
      "False \<in> set (par_alive st) \<longrightarrow> par_chan st = []"
    using inv by (simp_all add: par_inv_def)
  have add: "\<exists>a. agg_add lib b (par_aggs st ! i) = Inr a \<and> holds lib (fresh i) a (all_rows (fresh i) (share i @ [b]))"
    if i: "i < n" and b: "par_chan st = b # bs" for i b bs
  proof -
    have "(\<Sum>i<n. mset (share i)) = mset (share i) + (\<Sum>i \<in> {..<n} - {i}. mset (share i))"
      using i by (simp add: sum.remove [of "{..<n}" i])
    moreover obtain rest where "mset rest = (\<Sum>i \<in> {..<n} - {i}. mset (share i)) + mset bs" by (metis ex_mset)
    ultimately have all: "mset batches = mset ((share i @ [b]) @ rest)" using sh(2) b by (simp flip: add.assoc)
    then have "sum_list (map num_rows batches) = sum_list (map num_rows ((share i @ [b]) @ rest))"
      by (metis mset_map sum_mset_sum_list)
    then have "length (all_rows (fresh 0) (share i @ [b])) \<le> length (all_rows (fresh 0) batches)"
      by (simp add: all_rows_def length_concat comp_def)
    then have "length (all_rows (fresh i) (share i)) + num_rows b \<le> max_groups"
      using room fresh [OF i] by (simp add: all_rows_def)
    moreover have "b \<in> set batches" using mset_eq_setD [OF all] by simp
    ultimately show ?thesis
      using holds_add [OF conjunct1 [OF sh(1) [OF i]]] wf fresh [OF i] by (simp add: all_rows_def)
  qed
  from step show ?thesis
  proof cases
    case (par_take i b bs a)
    then have i: "i < n" using lens by simp
    define share' where "share' = share(i := share i @ [b])"
    have "(\<Sum>i<n. mset (share' i)) = (\<Sum>i<n. mset (share i)) + {#b#}"
      using i by (simp add: share'_def sum.remove [of "{..<n}" i])
    then have "(\<Sum>i<n. mset (share' i)) + mset bs = mset batches" using sh(2) par_take by simp
    moreover have "holds lib (fresh j) ((par_aggs st)[i := a] ! j) (all_rows (fresh j) (share' j))
        \<and> (par_rows st)[i := par_rows st ! i + of_nat (num_rows b)] ! j = of_nat (length (all_rows (fresh j) (share' j)))" if "j < n" for j
      using that i lens sh(1) [OF that] add [OF i par_take(4)] par_take(5) by (auto simp: share'_def nth_list_update all_rows_def)
    moreover have "False \<notin> set (par_alive st)" using lens(5) par_take by auto
    ultimately show ?thesis unfolding par_inv_def using lens par_take by auto
  next
    case (par_fail i b bs e)
    then show ?thesis using add [of i b bs] lens by auto
  next
    case (par_abort k)
    then show ?thesis using lens by simp
  next
    case (par_exit i)
    then show ?thesis using inv by (auto simp: par_inv_def)
  qed
qed

lemma merge_all_holds:
  assumes "holds lib a0 a xs" and "\<forall>j < length os. holds lib (f j) (os ! j) (ys j) \<and> same_shape a0 (f j)"
    and "spec_reflexive (ag_spec a0)" and "length xs + length (concat (map ys [0..<length os])) \<le> max_groups"
  shows "\<exists>c. fold_res (\<lambda>other a. agg_merge lib a other) os a = Inr c \<and> holds lib a0 c (xs @ concat (map ys [0..<length os]))"
  using assms(1,2,4)
proof (induction os arbitrary: a xs f ys)
  case Nil
  then show ?case by simp
next
  case (Cons b os)
  have upt: "[0..<length (b # os)] = 0 # map Suc [0..<length os]" by (simp add: upt_conv_Cons map_Suc_upt del: upt_Suc)
  have rows: "concat (map ys [0..<length (b # os)]) = ys 0 @ concat (map (\<lambda>j. ys (Suc j)) [0..<length os])"
    unfolding upt by (simp add: comp_def)
  have b: "holds lib (f 0) b (ys 0)" "same_shape a0 (f 0)" using Cons.prems(2) by fastforce+
  have len: "length xs + length (ys 0) \<le> max_groups" using Cons.prems(3) unfolding rows by simp
  obtain a1 where a1: "agg_merge lib a b = Inr a1" "holds lib a0 a1 (xs @ ys 0)"
    using agg_merge_holds [OF Cons.prems(1) b assms(3) len] by blast
  have "\<forall>j < length os. holds lib (f (Suc j)) (os ! j) (ys (Suc j)) \<and> same_shape a0 (f (Suc j))" using Cons.prems(2) by fastforce
  from Cons.IH [OF a1(2) this] Cons.prems(3) a1(1) show ?case unfolding rows by simp
qed

lemma mset_all_rows: "mset (all_rows a bs) = (\<Sum>b\<leftarrow>bs. mset (rows_of a b))"
  by (induction bs) (simp_all add: all_rows_def)

lemma mset_concat_shares:
  "mset (concat (map (\<lambda>i. all_rows a (share i)) [0..<n])) = (\<Sum>b \<in># (\<Sum>i<n. mset (share i)). mset (rows_of a b))"
proof (induction n)
  case (Suc n)
  have "mset (all_rows a (share n)) = (\<Sum>b \<in># mset (share n). mset (rows_of a b))"
    unfolding mset_all_rows by (metis mset_map sum_mset_sum_list)
  with Suc show ?case by (simp add: add.commute)
qed simp

lemma par_result_inv:
  assumes inv: "par_inv lib fresh n batches st" and "par_finished st" and n: "0 < n"
    and fresh: "\<And>i. i < n \<Longrightarrow> same_shape (fresh 0) (fresh i) \<and> rows_of (fresh i) = rows_of (fresh 0)"
    and spec: "spec_reflexive (ag_spec (fresh 0))" and room: "length (all_rows (fresh 0) batches) \<le> max_groups"
  shows "\<exists>c. par_result lib st = Inr (c, of_nat (length (all_rows (fresh 0) batches))) \<and> holds lib (fresh 0) c (all_rows (fresh 0) batches)"
proof -
  from inv obtain share where sh: "\<And>i. i < n \<Longrightarrow> holds lib (fresh i) (par_aggs st ! i) (all_rows (fresh i) (share i))
      \<and> par_rows st ! i = of_nat (length (all_rows (fresh i) (share i)))"
      "(\<Sum>i<n. mset (share i)) + mset (par_chan st) = mset batches"
    by (auto simp: par_inv_def)
  have lens: "par_err st = None" "length (par_alive st) = n" "length (par_aggs st) = n" "length (par_rows st) = n"
    using inv by (simp_all add: par_inv_def)
  have "\<not> par_alive st ! 0" using assms(2) n lens(2) by (auto simp: par_finished_def in_set_conv_nth)
  then have "False \<in> set (par_alive st)" using n lens(2) by (metis nth_mem)
  then have "par_chan st = []" using inv by (simp add: par_inv_def)
  then have dealt: "(\<Sum>i<n. mset (share i)) = mset batches" using sh(2) by simp
  define ys where "ys i = all_rows (fresh 0) (share i)" for i
  have rows: "all_rows (fresh i) (share i) = ys i" if "i < n" for i using fresh [OF that] by (simp add: ys_def all_rows_def)
  obtain a others where aggs: "par_aggs st = a # others" using n lens(3) by (cases "par_aggs st") auto
  have upt: "map ys [0..<n] = ys 0 # map (\<lambda>j. ys (Suc j)) [0..<length others]"
    using aggs lens(3) by (auto simp: upt_conv_Cons map_Suc_upt [symmetric] simp del: upt_Suc)
  have perm: "mset (concat (map ys [0..<n])) = mset (all_rows (fresh 0) batches)"
    unfolding ys_def mset_concat_shares dealt mset_all_rows by (metis mset_map sum_mset_sum_list)
  have len: "length (concat (map ys [0..<n])) = length (all_rows (fresh 0) batches)" using perm by (rule mset_eq_length)
  have a: "holds lib (fresh 0) a (ys 0)" using sh(1) [OF n] rows [OF n] aggs by simp
  have others: "\<forall>j < length others. holds lib (fresh (Suc j)) (others ! j) (ys (Suc j)) \<and> same_shape (fresh 0) (fresh (Suc j))"
    using sh(1) rows fresh aggs lens(3) by force
  obtain c where c: "fold_res (\<lambda>other a. agg_merge lib a other) others a = Inr c"
      "holds lib (fresh 0) c (ys 0 @ concat (map (\<lambda>j. ys (Suc j)) [0..<length others]))"
    using merge_all_holds [OF a others spec] room len unfolding upt by auto
  have "holds lib (fresh 0) c (all_rows (fresh 0) batches)"
    using holds_perm [OF c(2)] perm unfolding upt by simp
  moreover have "sum_list (par_rows st) = of_nat (length (all_rows (fresh 0) batches))"
  proof -
    have "par_rows st = map (\<lambda>i. of_nat (length (ys i))) [0..<n]"
      using sh(1) rows lens(4) by (intro nth_equalityI) simp_all
    moreover have "sum_list (map (\<lambda>i. of_nat (length (ys i))) ks) = (of_nat (length (concat (map ys ks))) :: i64)" for ks
      by (induction ks) simp_all
    ultimately show ?thesis unfolding len [symmetric] by simp
  qed
  ultimately show ?thesis using lens(1) aggs c(1) by (simp add: par_result_def)
qed

lemma par_start_inv:
  assumes "par_start seeds s spec batches workers = Inr st" and s: "\<forall>c \<in> set (columns s). known_type (cs_type c)"
  shows "\<exists>fresh. par_inv lib fresh (worker_count workers) batches st
     \<and> (\<forall>i < worker_count workers. new_aggregator (seeds i) s spec = Inr (fresh i))"
proof -
  define n where "n = worker_count workers"
  obtain aggs where aggs: "traverse (\<lambda>i. new_aggregator (seeds i) s spec) [0..<n] = Inr aggs"
    and st: "st = \<lparr>par_chan = batches, par_aggs = aggs, par_rows = replicate n 0, par_alive = replicate n True, par_err = None\<rparr>"
    using assms(1) by (auto simp: par_start_def Let_def n_def map_sum_def split: sum.splits)
  have new: "new_aggregator (seeds i) s spec = Inr (aggs ! i)" "length aggs = n" if "i < n" for i
    using aggs that by (auto simp: traverse_Inr_iff list_all2_conv_all_nth)
  have "length aggs = n" using aggs traverse_length by fastforce
  moreover have "holds lib (aggs ! i) (aggs ! i) []" if "i < n" for i using holds_new [OF new(1) [OF that] s] .
  ultimately have "par_inv lib (\<lambda>i. aggs ! i) n batches st"
    by (auto simp: par_inv_def st all_rows_def intro!: exI [of _ "\<lambda>_. []"])
  then show ?thesis using new(1) unfolding n_def by blast
qed

lemma par_inv_steps:
  assumes "(par_step lib)\<^sup>*\<^sup>* st st'" and "par_inv lib fresh n batches st"
    and "\<And>i. i < n \<Longrightarrow> ag_schema (fresh i) = s \<and> rows_of (fresh i) = rows_of (fresh 0)"
    and "\<forall>b \<in> set batches. wf_batch s b" and "length (all_rows (fresh 0) batches) \<le> max_groups"
  shows "par_inv lib fresh n batches st'"
  using assms(1)
proof (induction rule: rtranclp_induct)
  case (step st1 st2)
  show ?case by (rule par_inv_step [OF step(2,3) assms(3-5)])
qed (rule assms(2))

lemma par_correct:
  assumes a: "new_aggregator (seeds 0) s spec = Inr a" and s: "\<forall>c \<in> set (columns s). known_type (cs_type c)"
    and spec: "spec_reflexive spec" and wf: "\<forall>b \<in> set batches. wf_batch s b" and room: "length (all_rows a batches) \<le> max_groups"
  shows "(\<exists>res. par_returns lib seeds s spec batches workers res)
    \<and> (\<forall>res. par_returns lib seeds s spec batches workers res \<longrightarrow>
        (\<exists>c. res = Inr (c, of_nat (length (all_rows a batches))) \<and> holds lib a c (all_rows a batches)))"
proof -
  have "\<exists>x. new_aggregator sd s spec = Inr x" for sd
    using a by (auto simp: new_aggregator_def split: sum.splits)
  then have "\<exists>aggs. traverse (\<lambda>i. new_aggregator (seeds i) s spec) [0..<worker_count workers] = Inr aggs"
    by (intro traverse_total) blast
  then obtain st where st: "par_start seeds s spec batches workers = Inr st" by (auto simp: par_start_def Let_def)
  obtain fresh where inv: "par_inv lib fresh (worker_count workers) batches st"
    and f: "\<forall>i < worker_count workers. new_aggregator (seeds i) s spec = Inr (fresh i)"
    using par_start_inv [OF st s] by blast
  have n: "0 < worker_count workers" by (simp add: worker_count_def)
  then have f0: "fresh 0 = a" using f a by (metis sum.inject(2))
  have fi: "ag_schema (fresh i) = s \<and> rows_of (fresh i) = rows_of (fresh 0) \<and> same_shape (fresh 0) (fresh i)"
    if "i < worker_count workers" for i
    using new_same_shape [OF f [rule_format, OF n] f [rule_format, OF that]] new_aggregator_ok(3) [OF f [rule_format, OF that] s]
    by (simp add: rows_of_def fun_eq_iff)
  have "\<exists>c. par_result lib st' = Inr (c, of_nat (length (all_rows a batches))) \<and> holds lib a c (all_rows a batches)"
    if "(par_step lib)\<^sup>*\<^sup>* st st'" "par_finished st'" for st'
    using par_result_inv [OF par_inv_steps [OF that(1) inv, of s] that(2) n] fi wf room spec f0 new_aggregator_ok(4) [OF a s]
    by auto
  moreover obtain st' where "(par_step lib)\<^sup>*\<^sup>* st st'" "par_finished st'" using par.ends by blast
  ultimately show ?thesis by (auto simp: par_returns_def st)
qed

text \<open>
  C7. \<open>RunParallel\<close> is correct under every schedule: if the aggregators can be built, every run over
  well-formed batches ends, returns no error, and returns the number of rows and an aggregator that holds
  exactly the rows of all batches, whichever worker took which batch and whatever the hash seeds are.
\<close>

theorem run_parallel_correct:
  assumes a: "new_aggregator (seeds 0) s spec = Inr a" and s: "\<forall>c \<in> set (columns s). known_type (cs_type c)"
    and spec: "spec_reflexive spec" and wf: "\<forall>b \<in> set batches. wf_batch s b" and room: "length (all_rows a batches) \<le> max_groups"
  shows "(\<exists>res. par_returns lib seeds s spec batches workers res)
    \<and> (\<forall>res. par_returns lib seeds s spec batches workers res \<longrightarrow>
        (\<exists>c. res = Inr (c, of_nat (length (all_rows a batches))) \<and> holds lib a c (all_rows a batches)))"
  using assms by (rule par_correct)

theorem run_parallel_correct_witness:
  "\<exists>c. par_returns sample_lib (\<lambda>_. sample_seed) sample_schema sample_spec [sample_batch, sample_batch] 2 (Inr (c, 4))
     \<and> holds sample_lib sample_agg c (all_rows sample_agg [sample_batch, sample_batch])"
proof -
  have spec: "spec_reflexive sample_spec"
    by (simp add: spec_reflexive_def sample_spec_def agg_func_defs is_nan_def f64_zero_def f64_mag_def inf_mag_def)
  have len: "length (all_rows sample_agg [sample_batch, sample_batch]) = 4"
    using sample_facts(4) by (simp add: all_rows_def)
  show ?thesis
    using run_parallel_correct [of "\<lambda>_. sample_seed", OF sample_facts(1,2) spec, of "[sample_batch, sample_batch]" sample_lib 2]
      sample_facts(3) len by (auto simp: max_groups_def)
qed

section \<open>Errors\<close>

definition par_frame :: "schema \<Rightarrow> agg_spec \<Rightarrow> nat \<Rightarrow> par_state \<Rightarrow> bool" where
  "par_frame s spec n st \<longleftrightarrow> length (par_aggs st) = n \<and> length (par_alive st) = n \<and> (\<forall>a \<in> set (par_aggs st). ag_schema a = s \<and> ag_spec a = spec)"

lemma par_frame_step: "par_step lib st st' \<Longrightarrow> par_frame s spec n st \<Longrightarrow> par_frame s spec n st'"
proof (induction rule: par_step.induct)
  case (par_take i st b bs a)
  then have "par_aggs st ! i \<in> set (par_aggs st)" by (simp add: par_frame_def)
  then have "ag_schema a = s \<and> ag_spec a = spec"
    using par_take same_but_table_fields [OF agg_add_frame [OF par_take(4)]] by (simp add: par_frame_def)
  then show ?case using par_take by (auto simp: par_frame_def dest!: subsetD [OF set_update_subset_insert])
qed (simp_all add: par_frame_def)

lemma par_start_frame: "par_start seeds s spec batches workers = Inr st \<Longrightarrow> par_frame s spec (worker_count workers) st \<and> par_err st = None \<and> par_chan st = batches"
proof -
  assume "par_start seeds s spec batches workers = Inr st"
  then obtain aggs where aggs: "traverse (\<lambda>i. new_aggregator (seeds i) s spec) [0..<worker_count workers] = Inr aggs"
    and st: "st = \<lparr>par_chan = batches, par_aggs = aggs, par_rows = replicate (worker_count workers) 0,
        par_alive = replicate (worker_count workers) True, par_err = None\<rparr>"
    by (auto simp: par_start_def Let_def map_sum_def split: sum.splits)
  have "ag_schema a = s \<and> ag_spec a = spec" if a: "a \<in> set aggs" for a
  proof -
    have "list_all2 (\<lambda>i a. new_aggregator (seeds i) s spec = Inr a) [0..<worker_count workers] aggs"
      using aggs by (simp add: traverse_Inr_iff)
    then obtain i where "new_aggregator (seeds i) s spec = Inr a" using a
      by (auto simp: list_all2_conv_all_nth in_set_conv_nth)
    then show ?thesis by (auto simp: new_aggregator_def split: sum.splits)
  qed
  then show ?thesis using traverse_length [OF aggs] by (simp add: par_frame_def st)
qed

text \<open>A bad batch is still to come, or an error has been recorded.\<close>

lemma par_bad_step:
  assumes "par_step lib st st'" and "par_frame s spec n st" and bad: "length (cols b) \<noteq> length (columns s)"
    and "b \<in> set (par_chan st) \<or> par_err st \<noteq> None"
  shows "b \<in> set (par_chan st') \<or> par_err st' \<noteq> None"
  using assms(1)
proof cases
  case (par_take i c cs a)
  have "par_aggs st ! i \<in> set (par_aggs st)" using par_take(2) assms(2) by (simp add: par_frame_def)
  then have "c \<noteq> b" using par_take(5) bad assms(2) by (auto simp: agg_add_def par_frame_def)
  then show ?thesis using assms(4) par_take by auto
next
  case (par_abort k)
  then show ?thesis by simp
next
  case (par_fail i c cs e)
  then show ?thesis by (simp split: option.splits)
next
  case (par_exit i)
  then show ?thesis using assms(4) by simp
qed

lemma par_frame_steps: "(par_step lib)\<^sup>*\<^sup>* st st' \<Longrightarrow> par_frame s spec n st \<Longrightarrow> par_frame s spec n st'"
  by (rule par.invariant) (assumption | rule par_frame_step)+

lemma par_finished_empty: "(par_step lib)\<^sup>*\<^sup>* st st' \<Longrightarrow> False \<notin> set (par_alive st) \<Longrightarrow>
    False \<in> set (par_alive st') \<longrightarrow> par_chan st' = [] \<or> par_err st' \<noteq> None"
proof (induction rule: rtranclp_induct)
  case (step st1 st2)
  from step(2) show ?case using step(3,4) by cases (auto split: option.splits)
qed simp

lemma par_returns_cases:
  assumes "par_returns lib seeds s spec batches workers res"
  shows "(\<exists>e. res = Inl e) \<or> (\<exists>st st'. par_start seeds s spec batches workers = Inr st \<and> (par_step lib)\<^sup>*\<^sup>* st st'
      \<and> par_finished st' \<and> res = par_result lib st')"
  using assms by (auto simp: par_returns_def split: sum.splits)

lemma bad_batch_fails:
  assumes "par_returns lib seeds s spec batches workers res" and b: "b \<in> set batches" "length (cols b) \<noteq> length (columns s)"
  shows "\<exists>e. res = Inl e"
proof (rule ccontr)
  assume no: "\<nexists>e. res = Inl e"
  then obtain st st' where st: "par_start seeds s spec batches workers = Inr st" "(par_step lib)\<^sup>*\<^sup>* st st'" "par_finished st'" "res = par_result lib st'"
    using par_returns_cases [OF assms(1)] by blast
  note f = par_start_frame [OF st(1)]
  have "b \<in> set (par_chan st') \<or> par_err st' \<noteq> None"
    using st(2)
  proof (induction rule: rtranclp_induct)
    case base
    then show ?case using f b(1) by simp
  next
    case (step st1 st2)
    show ?case by (rule par_bad_step [OF step(2) par_frame_steps [OF step(1)] b(2) step(3)]) (use f in blast)
  qed
  moreover have "False \<notin> set (par_alive st)" using st(1) by (auto simp: par_start_def Let_def map_sum_def split: sum.splits)
  moreover have "False \<in> set (par_alive st')"
  proof -
    have "length (par_alive st') = worker_count workers"
      using par_frame_steps [OF st(2) conjunct1 [OF f]] by (simp add: par_frame_def)
    then have "par_alive st' \<noteq> []" by (auto simp: worker_count_def split: if_splits)
    then show ?thesis using st(3) by (metis (full_types) hd_in_set par_finished_def)
  qed
  ultimately have "par_err st' \<noteq> None" using par_finished_empty [OF st(2)] by auto
  then show False using st(4) no by (auto simp: par_result_def)
qed

lemma nan_spec_fails:
  assumes "par_returns lib seeds s spec batches workers res" and "\<not> spec_reflexive spec" and "1 < workers"
  shows "\<exists>e. res = Inl e"
proof (rule ccontr)
  assume no: "\<nexists>e. res = Inl e"
  then obtain st st' where st: "par_start seeds s spec batches workers = Inr st" "(par_step lib)\<^sup>*\<^sup>* st st'" "res = par_result lib st'"
    using par_returns_cases [OF assms(1)] by blast
  have f: "par_frame s spec (worker_count workers) st'" using par_frame_steps [OF st(2)] par_start_frame [OF st(1)] by blast
  then have "length (par_aggs st') = nat workers" using assms(3) by (simp add: par_frame_def worker_count_def)
  then have "Suc (Suc 0) \<le> length (par_aggs st')" using assms(3) by linarith
  then obtain x y zs where xs: "par_aggs st' = x # y # zs" by (auto simp: Suc_le_length_iff)
  then have "ag_spec x = spec" "ag_spec y = spec" using f by (simp_all add: par_frame_def)
  then have "agg_merge lib x y = Inl ErrDifferentSpecs" using assms(2) by (simp add: agg_merge_def specs_equal_refl)
  then show False using st(3) no by (auto simp: par_result_def xs split: option.splits)
qed

text \<open>
  C32. No partial results: a batch with the wrong number of columns anywhere in the stream makes every run
  return an error, under every schedule; and a spec with a NaN percentile, which \<open>ParseAggFunc\<close> lets
  through, makes every run with more than one worker fail.
\<close>

theorem run_parallel_errors:
  assumes "par_returns lib seeds s spec batches workers res"
  shows "((\<exists>b \<in> set batches. length (cols b) \<noteq> length (columns s)) \<longrightarrow> (\<exists>e. res = Inl e))
    \<and> (\<not> spec_reflexive spec \<and> 1 < workers \<longrightarrow> (\<exists>e. res = Inl e))"
  using bad_batch_fails [OF assms] nan_spec_fails [OF assms] by blast

theorem run_parallel_errors_witness:
  "\<exists>e. par_returns sample_lib (\<lambda>_. sample_seed) sample_schema sample_spec [\<lparr>num_rows = 1, cols = []\<rparr>] 1 (Inl e)"
proof -
  define bad :: "batch list" where "bad = [\<lparr>num_rows = 1, cols = []\<rparr>]"
  have "traverse (\<lambda>i. new_aggregator sample_seed sample_schema sample_spec) [0..<worker_count 1] = Inr [sample_agg]"
    by (simp add: worker_count_def sample_facts(1))
  then obtain st where st: "par_start (\<lambda>_. sample_seed) sample_schema sample_spec bad 1 = Inr st"
    by (simp add: par_start_def Let_def)
  obtain st' where "(par_step sample_lib)\<^sup>*\<^sup>* st st'" "par_finished st'" using par.ends by blast
  then have "par_returns sample_lib (\<lambda>_. sample_seed) sample_schema sample_spec bad 1 (par_result sample_lib st')"
    by (auto simp: par_returns_def st)
  with run_parallel_errors [OF this] show ?thesis by (auto simp: bad_def sample_schema_def)
qed




end
