(* ===== verification/Pipeline.thy ===== *)
theory Pipeline
  imports Ingest Tally Parallel AggState Results
begin

text \<open>
  From the bytes of a file to an aggregator: what the rows of a file are for an aggregator, and
  \<open>runRun\<close> of \<open>cmd/cordage/run_cmd.go\<close> from the open source to the result, that is \<open>Ingest\<close> feeding
  \<open>RunParallel\<close>.
\<close>

section \<open>The rows of a file\<close>

definition pick :: "aggregator \<Rightarrow> value_t option list \<Rightarrow> agg_row" where
  "pick a cells = (map (\<lambda>i. the (cells ! i)) (group_by_idx a), map (\<lambda>i. the (cells ! i)) (measure_idx a))"

definition data_lines_of :: "schema \<Rightarrow> bytes \<Rightarrow> bytes list" where
  "data_lines_of s content = header_dropped (has_header s) (lines_of content)"

definition file_rows :: "aggregator \<Rightarrow> error_policy \<Rightarrow> schema \<Rightarrow> bytes \<Rightarrow> agg_row list" where
  "file_rows a pol s content = map (pick a) (good_rows pol s (data_lines_of s content))"

lemma rows_of_cells:
  assumes "config_ok a" and "wf_batch (ag_schema a) b"
  shows "rows_of a b = map (pick a) (batch_rows b)"
proof -
  have "length (cols b) = length (columns (ag_schema a))" using assms(2) by (auto simp: wf_batch_def dest: list_all2_lengthD)
  then have "\<forall>i \<in> set (group_by_idx a) \<union> set (measure_idx a). i < length (cols b)"
    using assms(1) by (auto simp: config_ok_def resolved_def list_all2_conv_all_nth in_set_conv_nth)
  then have "row_of a b r = pick a (batch_row b r)" for r
    by (simp add: row_of_def pick_def cell_def batch_row_def)
  then show ?thesis by (simp add: rows_of_def batch_rows_def)
qed

lemma all_rows_sent:
  assumes "config_ok a" and "\<forall>b \<in> set bs. wf_batch (ag_schema a) b"
  shows "all_rows a bs = map (pick a) (sent_rows bs)"
  using assms(2)
proof (induction bs)
  case (Cons b bs)
  then show ?case using rows_of_cells [OF assms(1), of b] by (simp add: all_rows_Cons sent_rows_def)
qed (simp add: all_rows_def sent_rows_def)

lemma length_good_rows: "length (good_rows pol s ls) \<le> length ls"
  by (induction ls) (auto split: sum.splits)

lemma length_file_rows: "length (file_rows a pol s content) \<le> length (lines_of content)"
  using length_good_rows [of pol s "data_lines_of s content"]
  by (simp add: file_rows_def data_lines_of_def header_dropped_def split: if_splits)

section \<open>The run command\<close>

datatype run_error = RunIngest ingest_error | RunAggregate agg_error

text \<open>
  The worker count, and the errors of the two sides: one of the aggregation wins. The value is the aggregator, the
  rows and the skipped rows.
\<close>

definition run_workers :: "int \<Rightarrow> int \<Rightarrow> int" where
  "run_workers workers chunks =
     (let n = (if workers \<le> 0 then chunks else workers) in if n \<le> 0 then 1 else n)"

definition run_outcome :: "drained \<Rightarrow> i64 \<Rightarrow> agg_error + (aggregator \<times> i64) \<Rightarrow> run_error + (aggregator \<times> i64 \<times> i64)" where
  "run_outcome d skipped r =
     (case r of
        Inl e \<Rightarrow> Inl (RunAggregate e)
      | Inr (agg, rows) \<Rightarrow>
          (case dr_error d of Some e \<Rightarrow> Inl (RunIngest e) | None \<Rightarrow> Inr (agg, rows, skipped)))"

text \<open>The number of rows each goroutine of \<open>Ingest\<close> reports through the callback.\<close>

definition skip_calls :: "schedule \<Rightarrow> source \<Rightarrow> config \<Rightarrow> nat list" where
  "skip_calls sc src cfg0 =
     (let cfg = with_defaults cfg0
      in case resolve_schema src cfg of
        Inl _ \<Rightarrow> []
      | Inr (s, lr) \<Rightarrow>
          (case multi_chunk src cfg of
             Some (cs, sz) \<Rightarrow>
               (case align_chunks cs (plan_chunks sz (cf_chunks cfg)) of
                  Inl _ \<Rightarrow> []
                | Inr aligned \<Rightarrow> map (\<lambda>d. length (dr_skipped d)) (run_all_chunks sc cs aligned s cfg))
           | None \<Rightarrow> [length (dr_skipped (run_single (envs sc 0) (ctx_err sc) src lr s cfg))]))"

definition run_returns ::
  "runtime_lib \<Rightarrow> (nat \<Rightarrow> maphash) \<Rightarrow> schedule \<Rightarrow> source \<Rightarrow> config \<Rightarrow> agg_spec \<Rightarrow> int \<Rightarrow>
     run_error + (aggregator \<times> i64 \<times> i64) \<Rightarrow> bool" where
  "run_returns lib seeds sc src cfg spec workers res \<longleftrightarrow>
     (let d = ingest sc src cfg
      in \<exists>r k. par_returns lib seeds (cf_schema cfg) spec (dr_batches d) (run_workers workers (cf_chunks cfg)) r
           \<and> tally_returns (skip_calls sc src cfg) k \<and> res = run_outcome d k r)"

text \<open>
  What the count of skipped rows says of the number of malformed lines: it never exceeds it, is positive if there
  are any, and is exact if the file is read by one goroutine.
\<close>

definition tallied :: "int \<Rightarrow> nat \<Rightarrow> i64 \<Rightarrow> bool" where
  "tallied chunks bad k \<longleftrightarrow> (\<exists>n. k = of_nat n \<and> n \<le> bad \<and> (0 < bad \<longrightarrow> 0 < n) \<and> (chunks \<le> 1 \<longrightarrow> n = bad))"

lemma skip_calls_total: "sum_list (skip_calls sc src cfg) = length (dr_skipped (ingest sc src cfg))"
proof (cases "resolve_schema src (with_defaults cfg)")
  case (Inl e)
  then show ?thesis by (simp add: skip_calls_def ingest_def ingest_loop_def fatal_def)
next
  case (Inr p)
  obtain s lr where p: "p = (s, lr)" by (cases p)
  show ?thesis
  proof (cases "multi_chunk src (with_defaults cfg)")
    case None
    with Inr p show ?thesis by (simp add: skip_calls_def ingest_def ingest_loop_def)
  next
    case (Some q)
    obtain cs sz where q: "q = (cs, sz)" by (cases q)
    show ?thesis
    proof (cases "align_chunks cs (plan_chunks sz (cf_chunks (with_defaults cfg)))")
      case Inl
      with Inr p Some q show ?thesis by (simp add: skip_calls_def ingest_def ingest_loop_def fatal_def)
    next
      case (Inr aligned)
      with \<open>resolve_schema src (with_defaults cfg) = Inr p\<close> p Some q show ?thesis
        by (simp add: skip_calls_def ingest_def ingest_loop_def run_chunks_def length_merge_by comp_def Let_def)
    qed
  qed
qed

lemma skip_calls_single:
  assumes "cf_chunks cfg \<le> 1"
  shows "length (skip_calls sc src cfg) \<le> 1"
proof -
  have "cf_chunks (with_defaults cfg) \<le> 1" using assms by simp
  then have "multi_chunk src (with_defaults cfg) = None" by (cases src) (simp_all add: multi_chunk_def)
  then show ?thesis
    by (cases "resolve_schema src (with_defaults cfg)") (auto simp: skip_calls_def Let_def split: prod.split)
qed

lemma skip_calls_tallied:
  assumes "tally_returns (skip_calls sc src cfg) k"
  shows "tallied (cf_chunks cfg) (length (dr_skipped (ingest sc src cfg))) k"
proof -
  have "k = of_nat (length (dr_skipped (ingest sc src cfg)))" if "cf_chunks cfg \<le> 1"
    using tally_alone [OF assms, of 0] skip_calls_single [OF that, of sc src] by (simp add: skip_calls_total)
  then show ?thesis
    using tally_bounds [OF assms] unfolding tallied_def skip_calls_total by (cases "cf_chunks cfg \<le> 1") auto
qed

lemma tallied_exact: "tally_returns (skip_calls sc src cfg) (of_nat (length (dr_skipped (ingest sc src cfg))))"
  using tally_exact [of "skip_calls sc src cfg"] by (simp add: skip_calls_total)

text \<open>The inputs with given contents: a file that can be read in chunks, and the standard input.\<close>

abbreviation inputs :: "bytes \<Rightarrow> source set" where
  "inputs content \<equiv> {open_file content, stream_source content}"

lemma open_file_input: "open_file content \<in> inputs content"
  by simp

lemma ingest_file_rows:
  fixes content :: bytes
  assumes src: "src \<in> inputs content" and a: "config_ok a" "ag_schema a = cf_schema cfg" and "columns (cf_schema cfg) \<noteq> []"
    and "cf_on_error cfg \<noteq> ErrorPolicyFail" and "\<And>i. env_ok (cf_schema cfg) (envs sc i)"
  defines "d \<equiv> ingest sc src cfg"
  shows "dr_error d = None \<and> (\<forall>b \<in> set (dr_batches d). wf_batch (cf_schema cfg) b)
     \<and> mset (all_rows a (dr_batches d)) = mset (file_rows a (cf_on_error cfg) (cf_schema cfg) content)
     \<and> (cf_report cfg \<longrightarrow> length (dr_skipped d) = bad_count (cf_schema cfg) (data_lines_of (cf_schema cfg) content))"
proof -
  have i: "dr_error d = None" "mset (sent_rows (dr_batches d))
        = mset (good_rows (cf_on_error cfg) (cf_schema cfg) (data_lines_of (cf_schema cfg) content))"
      "\<forall>b \<in> set (dr_batches d). wf_batch (cf_schema cfg) b"
      "cf_report cfg \<longrightarrow> length (dr_skipped d) = bad_count (cf_schema cfg) (data_lines_of (cf_schema cfg) content)"
    using ingest_input [OF assms(1,4-6)] by (simp_all add: d_def data_lines_of_def Let_def)
  have "all_rows a (dr_batches d) = map (pick a) (sent_rows (dr_batches d))" using i(3) a by (intro all_rows_sent) simp_all
  with i show ?thesis by (simp add: file_rows_def)
qed

lemma run_file_rows:
  fixes content :: bytes
  assumes "new_aggregator (seeds 0) (cf_schema cfg) spec = Inr a"
    and "\<forall>c \<in> set (columns (cf_schema cfg)). known_type (cs_type c)" and "columns (cf_schema cfg) \<noteq> []"
    and "spec_reflexive spec" and "cf_on_error cfg \<noteq> ErrorPolicyFail" and "cf_report cfg"
    and "\<And>i. env_ok (cf_schema cfg) (envs sc i)" and "length (lines_of content) \<le> max_groups" and "src \<in> inputs content"
  defines "rows \<equiv> file_rows a (cf_on_error cfg) (cf_schema cfg) content"
  shows "(\<exists>res. run_returns lib seeds sc src cfg spec workers res)
     \<and> (\<forall>res. run_returns lib seeds sc src cfg spec workers res \<longrightarrow>
         (\<exists>c k. res = Inr (c, of_nat (length rows), k) \<and> holds lib a c rows
            \<and> tallied (cf_chunks cfg) (bad_count (cf_schema cfg) (data_lines_of (cf_schema cfg) content)) k))"
proof -
  define d where "d = ingest sc src cfg"
  note new = new_aggregator_ok [OF assms(1,2)]
  have i: "dr_error d = None" "\<forall>b \<in> set (dr_batches d). wf_batch (cf_schema cfg) b"
      "mset (all_rows a (dr_batches d)) = mset rows"
      "length (dr_skipped d) = bad_count (cf_schema cfg) (data_lines_of (cf_schema cfg) content)"
    using ingest_file_rows [OF assms(9) new(1,3) assms(3,5,7)] assms(6) by (simp_all add: d_def rows_def)
  have len: "length (all_rows a (dr_batches d)) = length rows" using i(3) by (rule mset_eq_length)
  then have "length (all_rows a (dr_batches d)) \<le> max_groups"
    using length_file_rows [of a "cf_on_error cfg" "cf_schema cfg" content] assms(8) by (simp add: rows_def)
  note p = par_correct [where seeds = seeds, OF assms(1,2,4) i(2) this, of lib "run_workers workers (cf_chunks cfg)"]
  have "\<exists>c. run_outcome d k r = Inr (c, of_nat (length rows), k) \<and> holds lib a c rows"
    if r: "par_returns lib seeds (cf_schema cfg) spec (dr_batches d) (run_workers workers (cf_chunks cfg)) r" for r k
  proof -
    obtain c where "r = Inr (c, of_nat (length rows))" "holds lib a c (all_rows a (dr_batches d))" using p r len by auto
    with i(1) holds_perm [OF this(2) i(3)] show ?thesis by (simp add: run_outcome_def)
  qed
  moreover have "tallied (cf_chunks cfg) (bad_count (cf_schema cfg) (data_lines_of (cf_schema cfg) content)) k"
    if "tally_returns (skip_calls sc src cfg) k" for k
    using skip_calls_tallied [OF that] i(4) by (simp flip: d_def)
  moreover have "\<exists>k. tally_returns (skip_calls sc src cfg) k" using tally_exact by blast
  ultimately show ?thesis using p unfolding run_returns_def Let_def d_def [symmetric] by metis
qed

text \<open>
  C4. \<open>cordage run\<close> computes the group-by of its input, a file or the standard input. Whatever the numbers of chunks and workers, the batch and buffer
  sizes, the interleaving of the readers and of the workers and the hash seeds, the run ends without an error;
  it reports the number of well-formed data lines, and its aggregator holds exactly their rows. The number of skipped
  rows it reports is exact for one chunk, and otherwise at most the number of malformed lines, and not
  zero if there are any.
\<close>

theorem run_file_correct:
  fixes content :: bytes
  assumes "new_aggregator (seeds 0) (cf_schema cfg) spec = Inr a"
    and "\<forall>c \<in> set (columns (cf_schema cfg)). known_type (cs_type c)" and "columns (cf_schema cfg) \<noteq> []"
    and "spec_reflexive spec" and "cf_on_error cfg \<noteq> ErrorPolicyFail" and "cf_report cfg"
    and "\<And>i. env_ok (cf_schema cfg) (envs sc i)" and "length (lines_of content) \<le> max_groups" and "src \<in> inputs content"
  defines "rows \<equiv> file_rows a (cf_on_error cfg) (cf_schema cfg) content"
  shows "(\<exists>res. run_returns lib seeds sc src cfg spec workers res)
     \<and> (\<forall>res. run_returns lib seeds sc src cfg spec workers res \<longrightarrow>
         (\<exists>c k. res = Inr (c, of_nat (length rows), k) \<and> holds lib a c rows
            \<and> tallied (cf_chunks cfg) (bad_count (cf_schema cfg) (data_lines_of (cf_schema cfg) content)) k))"
  using run_file_rows [where seeds = seeds, OF assms(1-9)] by (simp add: rows_def)

definition sample_csv :: bytes where
  "sample_csv = ''Oslo;3'' @ newline # ''Rome;20'' @ [newline]"

definition sample_run :: "int \<Rightarrow> config" where
  "sample_run n = \<lparr>cf_schema = sample_schema, cf_chunks = n, cf_batch_size = 0, cf_buffer_size = 0,
     cf_on_error = ErrorPolicySkip, cf_report = True\<rparr>"

lemma sample_csv_lines: "lines_of sample_csv = [''Oslo;3'', ''Rome;20'']"
  by (simp add: sample_csv_def newline_def lines_of.simps carriage_return_def chop_last_def)

lemma sample_fields:
  "split_fields ''Oslo;3'' (CHR '';'') = [''Oslo'', ''3'']" "split_fields ''Rome;20'' (CHR '';'') = [''Rome'', ''20'']"
  "parse_int64_field ''3'' = Inr (int64_value 3)" "parse_int64_field ''20'' = Inr (int64_value 20)"
  by (simp_all add: split_fields_def split_fields_loop.simps parse_int64_field_def parse_int_def parse_uint_def
      is_digit_def digit_val_def)

lemma sample_file_rows:
  "file_rows sample_agg ErrorPolicySkip sample_schema sample_csv
     = [([string_value ''Oslo''], [int64_value 3]), ([string_value ''Rome''], [int64_value 20])]"
  by (simp add: file_rows_def data_lines_of_def sample_csv_lines header_dropped_def sample_schema_def parse_row_def split_line_def
      delimiter_or_default_def nul_def sample_fields field_parsers_for_def parse_fields_def default_field_parser_def
      parse_string_field_def row_cells_def seen_value_def pick_def sample_agg_def)

theorem run_file_correct_witness:
  "\<exists>c k. run_returns sample_lib (\<lambda>_. sample_seed) quiet_schedule (open_file sample_csv) (sample_run 3) sample_spec 2 (Inr (c, 2, k))
     \<and> holds sample_lib sample_agg c [([string_value ''Oslo''], [int64_value 3]), ([string_value ''Rome''], [int64_value 20])]"
proof -
  have cfg: "cf_schema (sample_run 3) = sample_schema" "cf_on_error (sample_run 3) = ErrorPolicySkip" "cf_report (sample_run 3)"
    by (simp_all add: sample_run_def)
  have cols: "columns (cf_schema (sample_run 3)) \<noteq> []" by (simp add: cfg) (simp add: sample_schema_def)
  have "length (lines_of sample_csv) \<le> max_groups" by (simp add: sample_csv_lines max_groups_def)
  note run = run_file_correct [where seeds = "\<lambda>_. sample_seed" and cfg = "sample_run 3" and sc = quiet_schedule, unfolded cfg,
      OF sample_facts(1,2) cols [unfolded cfg] sample_reflexive _ _ _ this, of "open_file sample_csv" sample_lib 2]
  then show ?thesis using cfg(3) by (simp add: sample_file_rows) blast
qed

end
