(* ===== verification/Distribute.thy ===== *)
theory Distribute
  imports Convert Pipeline
begin

text \<open>
  \<open>internal/distribute\<close>: planning shards, the worker's \<open>RunShard\<close>, the coordinator's \<open>RunDistributed\<close> and
  \<open>Query\<close>, and worker discovery.

  gRPC and the network are parameters: \<open>dial\<close> is what \<open>grpc.NewClient\<close> does with an address and \<open>call\<close> what
  a client gets for a request, by shard. \<open>serves\<close> states the documented behaviour of a call that is not
  interrupted: it returns what the server's handler returns for the same request. The handler, \<open>run_shard\<close>, is
  modelled. A file system is a map from paths to contents.
\<close>

section \<open>Shards\<close>

record shard =
  sh_addr :: string
  sh_offset :: int
  sh_length :: int
  sh_skip_header :: bool

datatype dist_error =
    ErrNoWorkers
  | ErrOpen string
  | ErrSize string
  | ErrAlign chunk_error
  | ErrNoShards
  | ErrConv conv_error
  | ErrSpec spec_error
  | ErrAgg agg_error
  | ErrIngest ingest_error
  | ErrDial nat string string
  | ErrShard nat string string
  | ErrDiscover string
  | ErrPanic

type_synonym files = "string \<Rightarrow> bytes option"

definition shards_of :: "string list \<Rightarrow> schema \<Rightarrow> chunk list \<Rightarrow> shard list option" where
  "shards_of addrs s cs =
     (if length addrs < length cs then None
      else Some (map (\<lambda>(i, c). \<lparr>sh_addr = addrs ! i, sh_offset = ck_offset c, sh_length = ck_length c,
                                 sh_skip_header = (has_header s \<and> i = 0)\<rparr>) (zip [0..<length cs] cs)))"

definition plan_shards :: "files \<Rightarrow> string \<Rightarrow> string list \<Rightarrow> schema \<Rightarrow> dist_error + shard list" where
  "plan_shards fs path addrs s =
     (if addrs = [] then Inl ErrNoWorkers
      else (case fs path of
          None \<Rightarrow> Inl (ErrOpen path)
        | Some content \<Rightarrow>
            (let src = file_source content
             in case cs_size src of
                  None \<Rightarrow> Inl (ErrSize path)
                | Some sz \<Rightarrow>
                    (case align_chunks src (plan_chunks sz (int (length addrs))) of
                       Inl e \<Rightarrow> Inl (ErrAlign e)
                     | Inr aligned \<Rightarrow> (case shards_of addrs s aligned of None \<Rightarrow> Inl ErrPanic | Some shs \<Rightarrow> Inr shs)))))"

section \<open>The worker\<close>

record shard_request =
  rq_schema :: "p_schema option"
  rq_spec :: "p_agg_spec option"
  rq_path :: string
  rq_offset :: int
  rq_length :: int
  rq_on_error :: string
  rq_batch_size :: int
  rq_buffer_size :: int

record shard_result =
  sr_groups :: "p_group_state option list"
  sr_rows :: i64
  sr_skipped :: i64

datatype status = InvalidArgument dist_error | NotFound dist_error | Internal dist_error

definition status_as :: "(dist_error \<Rightarrow> status) \<Rightarrow> ('e \<Rightarrow> dist_error) \<Rightarrow> 'e + 'a \<Rightarrow> status + 'a" where
  "status_as st f r = map_sum (\<lambda>e. st (f e)) id r"

text \<open>
  From the checked request to the result. The rows are counted as the batches are added.
\<close>

definition shard_config :: "schema \<Rightarrow> error_policy \<Rightarrow> shard_request \<Rightarrow> config" where
  "shard_config s pol req =
     \<lparr>cf_schema = s, cf_chunks = 0, cf_batch_size = rq_batch_size req, cf_buffer_size = rq_buffer_size req,
      cf_on_error = pol, cf_report = True\<rparr>"

definition ingest_shard :: "runtime_lib \<Rightarrow> schedule \<Rightarrow> reader \<Rightarrow> config \<Rightarrow> aggregator \<Rightarrow> status + shard_result" where
  "ingest_shard lib sc r cfg agg =
     (let d = ingest sc (Stream r) cfg
      in res_bind (status_as Internal ErrAgg (add_all lib (dr_batches d) agg)) (\<lambda>agg'.
         case dr_error d of
           Some e \<Rightarrow> Inl (Internal (ErrIngest e))
         | None \<Rightarrow>
             res_bind (status_as Internal ErrConv (group_states_to_proto (export_state agg'))) (\<lambda>groups.
               Inr \<lparr>sr_groups = groups, sr_rows = sum_list (map (\<lambda>b. of_nat (num_rows b)) (dr_batches d)),
                    sr_skipped = of_nat (length (dr_skipped d))\<rparr>)))"

definition run_shard :: "runtime_lib \<Rightarrow> maphash \<Rightarrow> schedule \<Rightarrow> files \<Rightarrow> shard_request \<Rightarrow> status + shard_result" where
  "run_shard lib seed sc fs req =
     res_bind (status_as InvalidArgument ErrConv (proto_to_schema (rq_schema req))) (\<lambda>s.
     res_bind (status_as InvalidArgument ErrConv (proto_to_spec (rq_spec req))) (\<lambda>spec.
     res_bind (status_as InvalidArgument ErrSpec (validate_distributable spec)) (\<lambda>_.
     res_bind (status_as InvalidArgument ErrConv (proto_to_on_error (rq_on_error req))) (\<lambda>pol.
     res_bind (status_as InvalidArgument ErrAgg (new_aggregator seed s spec)) (\<lambda>agg.
       case fs (rq_path req) of
         None \<Rightarrow> Inl (NotFound (ErrOpen (rq_path req)))
       | Some content \<Rightarrow>
           (case file_chunk_reader content (rq_offset req) (rq_length req) of
              Inl e \<Rightarrow> Inl (Internal (ErrIngest (EReader e)))
            | Inr r \<Rightarrow> ingest_shard lib sc r (shard_config s pol req) agg))))))"

section \<open>The coordinator\<close>

record options =
  op_schema :: schema
  op_spec :: agg_spec
  op_path :: string
  op_on_error :: error_policy
  op_batch_size :: int
  op_buffer_size :: int
  op_shards :: "shard list"

record grpc =
  dial :: "string \<Rightarrow> string option"
  call :: "nat \<Rightarrow> string \<Rightarrow> shard_request \<Rightarrow> string + shard_result"

text \<open>The conversion \<open>int32(n)\<close>.\<close>

definition to_int32 :: "int \<Rightarrow> int" where
  "to_int32 n = sint (word_of_int n :: 32 word)"

definition shard_request_of :: "options \<Rightarrow> p_schema option \<Rightarrow> p_agg_spec option \<Rightarrow> string \<Rightarrow> shard \<Rightarrow> shard_request" where
  "shard_request_of opts ps pspec on_err sh =
     \<lparr>rq_schema = map_option (\<lambda>p. p\<lparr>ps_has_header := sh_skip_header sh\<rparr>) ps, rq_spec = pspec, rq_path = op_path opts,
      rq_offset = sh_offset sh, rq_length = sh_length sh, rq_on_error = on_err,
      rq_batch_size = to_int32 (op_batch_size opts), rq_buffer_size = to_int32 (op_buffer_size opts)\<rparr>"

text \<open>One shard's goroutine, if it is not cancelled.\<close>

definition shard_call :: "grpc \<Rightarrow> options \<Rightarrow> p_agg_spec option \<Rightarrow> string \<Rightarrow> nat \<Rightarrow> dist_error + shard_result" where
  "shard_call net opts pspec on_err i =
     (let sh = op_shards opts ! i
      in case schema_to_proto (op_schema opts) of
           Inl e \<Rightarrow> Inl (ErrConv e)
         | Inr ps \<Rightarrow>
             (case dial net (sh_addr sh) of
                Some e \<Rightarrow> Inl (ErrDial i (sh_addr sh) e)
              | None \<Rightarrow>
                  (case call net i (sh_addr sh) (shard_request_of opts ps pspec on_err sh) of
                     Inl e \<Rightarrow> Inl (ErrShard i (sh_addr sh) e)
                   | Inr r \<Rightarrow> Inr r)))"

text \<open>
  The shared state of the goroutines: who still runs, the results and the first error. Goroutines finish in any
  order; once one has failed and cancelled the context, the others may fail with any error, which is dropped.
\<close>

record dist_state =
  ds_running :: "bool list"
  ds_results :: "shard_result option list"
  ds_err :: "dist_error option"

inductive dist_step :: "(nat \<Rightarrow> dist_error + shard_result) \<Rightarrow> dist_state \<Rightarrow> dist_state \<Rightarrow> bool" for outcome where
  dist_reply: "\<lbrakk>i < length (ds_running st); ds_running st ! i; outcome i = Inr r\<rbrakk> \<Longrightarrow>
     dist_step outcome st (st\<lparr>ds_running := (ds_running st)[i := False], ds_results := (ds_results st)[i := Some r]\<rparr>)"
| dist_fail: "\<lbrakk>i < length (ds_running st); ds_running st ! i; outcome i = Inl e\<rbrakk> \<Longrightarrow>
     dist_step outcome st (st\<lparr>ds_running := (ds_running st)[i := False],
                             ds_err := (case ds_err st of None \<Rightarrow> Some e | Some e' \<Rightarrow> Some e')\<rparr>)"
| dist_cancelled: "\<lbrakk>i < length (ds_running st); ds_running st ! i; ds_err st \<noteq> None\<rbrakk> \<Longrightarrow>
     dist_step outcome st (st\<lparr>ds_running := (ds_running st)[i := False]\<rparr>)"

inductive_cases dist_stepE: "dist_step outcome st st'"

definition dist_start :: "nat \<Rightarrow> dist_state" where
  "dist_start n = \<lparr>ds_running = replicate n True, ds_results = replicate n None, ds_err = None\<rparr>"

definition dist_finished :: "dist_state \<Rightarrow> bool" where
  "dist_finished st \<longleftrightarrow> True \<notin> set (ds_running st)"

text \<open>The loop over the results: aggregator, rows and skipped rows so far. A nil result panics.\<close>

fun merge_results :: "runtime_lib \<Rightarrow> shard_result option list \<Rightarrow> aggregator \<times> i64 \<times> i64 \<Rightarrow> dist_error + (aggregator \<times> i64 \<times> i64)" where
  "merge_results lib [] acc = Inr acc"
| "merge_results lib (None # rs) acc = Inl ErrPanic"
| "merge_results lib (Some r # rs) (final, rows, skipped) =
     (case proto_to_group_states (sr_groups r) of
        Inl e \<Rightarrow> Inl (ErrConv e)
      | Inr states \<Rightarrow>
          (case merge_state lib states final of
             Inl e \<Rightarrow> Inl (ErrAgg e)
           | Inr final' \<Rightarrow> merge_results lib rs (final', rows + sr_rows r, skipped + sr_skipped r)))"

definition dist_result :: "runtime_lib \<Rightarrow> maphash \<Rightarrow> options \<Rightarrow> dist_state \<Rightarrow> dist_error + (aggregator \<times> i64 \<times> i64)" where
  "dist_result lib seed opts st =
     (case ds_err st of
        Some e \<Rightarrow> Inl e
      | None \<Rightarrow>
          (case new_aggregator seed (op_schema opts) (op_spec opts) of
             Inl e \<Rightarrow> Inl (ErrAgg e)
           | Inr final \<Rightarrow> merge_results lib (ds_results st) (final, 0, 0)))"

text \<open>What \<open>RunDistributed\<close> may return.\<close>

definition run_distributed ::
  "runtime_lib \<Rightarrow> maphash \<Rightarrow> grpc \<Rightarrow> options \<Rightarrow> dist_error + (aggregator \<times> i64 \<times> i64) \<Rightarrow> bool" where
  "run_distributed lib seed net opts res \<longleftrightarrow>
     (case validate_distributable (op_spec opts) of
        Inl e \<Rightarrow> res = Inl (ErrSpec e)
      | Inr _ \<Rightarrow>
          (if op_shards opts = [] then res = Inl ErrNoShards
           else (case on_error_to_proto (op_on_error opts) of
               Inl e \<Rightarrow> res = Inl (ErrConv e)
             | Inr on_err \<Rightarrow>
                 (case spec_to_proto (op_spec opts) of
                    Inl e \<Rightarrow> res = Inl (ErrConv e)
                  | Inr pspec \<Rightarrow>
                      (\<exists>st. (dist_step (shard_call net opts pspec on_err))\<^sup>*\<^sup>* (dist_start (length (op_shards opts))) st
                          \<and> dist_finished st \<and> res = dist_result lib seed opts st)))))"

section \<open>Discovery and queries\<close>

definition static_discoverer :: "string list \<Rightarrow> dist_error + string list" where
  "static_discoverer addrs = Inr addrs"

text \<open>\<open>net.JoinHostPort\<close>: a host with a colon or a percent sign is put in brackets.\<close>

definition join_host_port :: "string \<Rightarrow> string \<Rightarrow> string" where
  "join_host_port host port =
     (if CHR '':'' \<in> set host \<or> CHR ''%'' \<in> set host then ''['' @ host @ '']:'' @ port else host @ '':'' @ port)"

definition dns_discoverer :: "(string \<Rightarrow> string + string list) \<Rightarrow> string \<Rightarrow> int \<Rightarrow> dist_error + string list" where
  "dns_discoverer lookup host port =
     (case lookup host of
        Inl e \<Rightarrow> Inl (ErrDiscover host)
      | Inr ips \<Rightarrow>
          (if ips = [] then Inl (ErrDiscover host)
           else Inr (sort (map (\<lambda>ip. join_host_port ip (format_int port)) ips))))"

record coordinator_config =
  cc_schema :: schema
  cc_path :: string
  cc_discover :: "dist_error + string list"
  cc_on_error :: error_policy
  cc_batch_size :: int
  cc_buffer_size :: int

text \<open>What \<open>Query\<close> may answer; the context and the seeds of the aggregators it builds are those of the call.\<close>

definition query_options :: "coordinator_config \<Rightarrow> agg_spec \<Rightarrow> shard list \<Rightarrow> options" where
  "query_options cfg spec shs =
     \<lparr>op_schema = cc_schema cfg, op_spec = spec, op_path = cc_path cfg, op_on_error = cc_on_error cfg,
      op_batch_size = cc_batch_size cfg, op_buffer_size = cc_buffer_size cfg, op_shards = shs\<rparr>"

definition query_answer :: "slice_sort \<Rightarrow> runtime_lib \<Rightarrow> dist_error + (aggregator \<times> i64 \<times> i64) \<Rightarrow> status + p_result option" where
  "query_answer sort_slice lib r =
     (case r of
        Inl e \<Rightarrow> Inl (Internal e)
      | Inr (agg, _, _) \<Rightarrow>
          (case agg_result_of sort_slice lib agg of
             None \<Rightarrow> Inl (Internal ErrPanic)
           | Some (res, _) \<Rightarrow> status_as Internal ErrConv (result_to_proto (Some res))))"

definition query_returns ::
  "slice_sort \<Rightarrow> runtime_lib \<Rightarrow> maphash \<Rightarrow> maphash \<Rightarrow> files \<Rightarrow> grpc \<Rightarrow> coordinator_config \<Rightarrow> p_agg_spec option \<Rightarrow> status + p_result option \<Rightarrow> bool" where
  "query_returns sort_slice lib seed0 seed fs net cfg req res \<longleftrightarrow>
     (case proto_to_spec req of
        Inl e \<Rightarrow> res = Inl (InvalidArgument (ErrConv e))
      | Inr spec \<Rightarrow>
          (case new_aggregator seed0 (cc_schema cfg) spec of
             Inl e \<Rightarrow> res = Inl (InvalidArgument (ErrAgg e))
           | Inr _ \<Rightarrow>
               (case validate_distributable spec of
                  Inl e \<Rightarrow> res = Inl (InvalidArgument (ErrSpec e))
                | Inr _ \<Rightarrow>
                    (case cc_discover cfg of
                       Inl e \<Rightarrow> res = Inl (Internal e)
                     | Inr addrs \<Rightarrow>
                         (case plan_shards fs (cc_path cfg) addrs (cc_schema cfg) of
                            Inl e \<Rightarrow> res = Inl (Internal e)
                          | Inr shs \<Rightarrow>
                              (\<exists>r. run_distributed lib seed net (query_options cfg spec shs) r
                                 \<and> res = query_answer sort_slice lib r))))))"

section \<open>Calls\<close>

text \<open>\<open>utf8.ValidString\<close>: no overlong forms, no surrogates, nothing above U+10FFFF.\<close>

definition cont_byte :: "byte \<Rightarrow> bool" where
  "cont_byte b \<longleftrightarrow> 128 \<le> code b \<and> code b \<le> 191"

definition second_byte :: "byte \<Rightarrow> byte \<Rightarrow> bool" where
  "second_byte a b \<longleftrightarrow> cont_byte b \<and> (code a = 224 \<longrightarrow> 160 \<le> code b) \<and> (code a = 237 \<longrightarrow> code b \<le> 159)
     \<and> (code a = 240 \<longrightarrow> 144 \<le> code b) \<and> (code a = 244 \<longrightarrow> code b \<le> 143)"

fun valid_utf8 :: "bytes \<Rightarrow> bool" where
  "valid_utf8 [] = True"
| "valid_utf8 (a # bs) =
     (if code a < 128 then valid_utf8 bs
      else if 194 \<le> code a \<and> code a \<le> 223 then (case bs of b # r \<Rightarrow> cont_byte b \<and> valid_utf8 r | _ \<Rightarrow> False)
      else if 224 \<le> code a \<and> code a \<le> 239 then
        (case bs of b # c # r \<Rightarrow> second_byte a b \<and> cont_byte c \<and> valid_utf8 r | _ \<Rightarrow> False)
      else if 240 \<le> code a \<and> code a \<le> 244 then
        (case bs of b # c # d # r \<Rightarrow> second_byte a b \<and> cont_byte c \<and> cont_byte d \<and> valid_utf8 r | _ \<Rightarrow> False)
      else False)"

text \<open>The string fields of a request and of a result, which a protobuf message can carry only as valid UTF-8.\<close>

definition request_texts :: "shard_request \<Rightarrow> string list" where
  "request_texts req = rq_path req # rq_on_error req
     # (case rq_schema req of None \<Rightarrow> []
        | Some p \<Rightarrow> concat (map (\<lambda>c. case c of None \<Rightarrow> [] | Some c \<Rightarrow> [pc_name c]) (ps_columns p)))
     @ (case rq_spec req of None \<Rightarrow> []
        | Some p \<Rightarrow> pa_group_by p @ concat (map (\<lambda>m. case m of None \<Rightarrow> [] | Some m \<Rightarrow> [pm_column m]) (pa_measures p)))"

definition value_text :: "p_value option \<Rightarrow> string list" where
  "value_text v = (case v of Some (PStr t) \<Rightarrow> [t] | _ \<Rightarrow> [])"

definition result_texts :: "shard_result \<Rightarrow> string list" where
  "result_texts r =
     concat (map (\<lambda>g. case g of None \<Rightarrow> [] | Some g \<Rightarrow> concat (map value_text (pg_key g))) (sr_groups r))"

text \<open>
  The documented behaviour of the network while nobody cancels: addresses can be dialled, and a call whose request and
  result can be marshalled returns what \<open>RunShard\<close> returns, and an error otherwise.
\<close>

definition serves :: "runtime_lib \<Rightarrow> (nat \<Rightarrow> maphash) \<Rightarrow> (nat \<Rightarrow> schedule) \<Rightarrow> files \<Rightarrow> grpc \<Rightarrow> bool" where
  "serves lib seeds scs fs net \<longleftrightarrow> (\<forall>addr. dial net addr = None)
     \<and> (\<forall>i addr req.
          (case run_shard lib (seeds i) (scs i) fs req of
             Inl e \<Rightarrow> \<exists>m. call net i addr req = Inl m
           | Inr r \<Rightarrow> (if list_all valid_utf8 (request_texts req) \<and> list_all valid_utf8 (result_texts r)
                      then call net i addr req = Inr r else \<exists>m. call net i addr req = Inl m)))"

section \<open>The goroutines of the coordinator\<close>

interpretation dist: terminating "dist_step outcome" dist_finished "\<lambda>st. count_list (ds_running st) True" for outcome
proof
  show "dist_step outcome st st' \<Longrightarrow> count_list (ds_running st') True < count_list (ds_running st) True" for st st'
    by (induction rule: dist_step.induct) (auto intro: count_list_kill)
  fix st assume "\<not> dist_finished st"
  then obtain i where i: "i < length (ds_running st)" "ds_running st ! i"
    by (auto simp: dist_finished_def in_set_conv_nth)
  then show "\<exists>st'. dist_step outcome st st'"
    by (cases "outcome i") (auto intro: dist_reply dist_fail)
qed

definition dist_inv :: "(nat \<Rightarrow> dist_error + shard_result) \<Rightarrow> nat \<Rightarrow> dist_state \<Rightarrow> bool" where
  "dist_inv outcome n st \<longleftrightarrow> length (ds_running st) = n \<and> length (ds_results st) = n
     \<and> (case ds_err st of
          None \<Rightarrow> \<forall>i < n. \<not> ds_running st ! i \<longrightarrow> (\<exists>r. outcome i = Inr r \<and> ds_results st ! i = Some r)
        | Some e \<Rightarrow> \<exists>i < n. outcome i = Inl e)"

lemma dist_inv_start: "dist_inv outcome n (dist_start n)"
  by (simp add: dist_inv_def dist_start_def)

lemma dist_inv_step: "dist_step outcome st st' \<Longrightarrow> dist_inv outcome n st \<Longrightarrow> dist_inv outcome n st'"
proof (induction rule: dist_step.induct)
  case (dist_reply i st r)
  then show ?case by (auto simp: dist_inv_def nth_list_update split: option.splits)
next
  case (dist_fail i st e)
  then show ?case by (auto simp: dist_inv_def split: option.splits)
next
  case (dist_cancelled i st)
  then show ?case by (auto simp: dist_inv_def split: option.splits)
qed

lemma dist_inv_end: "(dist_step outcome)\<^sup>*\<^sup>* (dist_start n) st \<Longrightarrow> dist_inv outcome n st"
  using dist.invariant [of outcome "dist_start n" st "dist_inv outcome n"] dist_inv_start dist_inv_step by blast

text \<open>Where a run ends: in the error of one of the shards that failed, or with every shard's result.\<close>

lemma dist_ends_in:
  assumes "(dist_step outcome)\<^sup>*\<^sup>* (dist_start n) st" and "dist_finished st"
  shows "case ds_err st of
      None \<Rightarrow> \<exists>rs. length rs = n \<and> (\<forall>i < n. outcome i = Inr (rs ! i)) \<and> ds_results st = map Some rs
    | Some e \<Rightarrow> \<exists>i < n. outcome i = Inl e"
proof (cases "ds_err st")
  case None
  have inv: "dist_inv outcome n st" by (rule dist_inv_end [OF assms(1)])
  then have len: "length (ds_running st) = n" "length (ds_results st) = n" by (simp_all add: dist_inv_def)
  have "\<not> ds_running st ! i" if "i < n" for i
    using assms(2) that len(1) by (auto simp: dist_finished_def in_set_conv_nth)
  then have all: "\<exists>r. outcome i = Inr r \<and> ds_results st ! i = Some r" if "i < n" for i
    using inv None that by (simp add: dist_inv_def)
  define rs where "rs = map the (ds_results st)"
  have nth: "ds_results st ! i = Some (rs ! i) \<and> outcome i = Inr (rs ! i)" if "i < n" for i
    using all [OF that] that len(2) by (auto simp: rs_def)
  have "length rs = n" using len(2) by (simp add: rs_def)
  then have "ds_results st = map Some rs" using len(2) nth by (intro nth_equalityI) simp_all
  then have "\<exists>rs. length rs = n \<and> (\<forall>i < n. outcome i = Inr (rs ! i)) \<and> ds_results st = map Some rs"
    using nth \<open>length rs = n\<close> by blast
  then show ?thesis using None by simp
next
  case (Some e)
  then show ?thesis using dist_inv_end [OF assms(1)] by (simp add: dist_inv_def)
qed

section \<open>What a worker sends\<close>

lemma resolve_group_by_columns: "columns s' = columns s \<Longrightarrow> resolve_group_by s' seen names = resolve_group_by s seen names"
  by (induction names arbitrary: seen) (auto split: option.splits sum.splits)

lemma resolve_measures_columns: "columns s' = columns s \<Longrightarrow> resolve_measures s' mss = resolve_measures s mss"
  by (induction mss) (auto simp: Let_def split: option.splits sum.splits)

lemma new_aggregator_columns:
  assumes "new_aggregator seed s spec = Inr a" and "columns s' = columns s"
  shows "\<exists>b. new_aggregator seed' s' spec = Inr b \<and> same_shape a b \<and> pick b = pick a"
  using assms(1) resolve_group_by_columns [OF assms(2)] resolve_measures_columns [OF assms(2)]
  by (auto simp: new_aggregator_def same_shape_def pick_def fun_eq_iff split: sum.splits)

text \<open>A header flag changes neither the lines' parsing nor the batches.\<close>

lemma split_line_header [simp]: "split_line (s\<lparr>has_header := h\<rparr>) l = split_line s l"
  by (simp add: split_line_def delimiter_or_default_def)

lemma parse_fields_header [simp]: "parse_fields (s\<lparr>has_header := h\<rparr>) = parse_fields s"
  by (simp add: parse_fields_def fun_eq_iff)

lemma parse_line_header [simp]: "parse_line (s\<lparr>has_header := h\<rparr>) l = parse_line s l"
  by (simp add: parse_row_def field_parsers_for_def cong: if_cong)

lemma good_rows_header [simp]: "good_rows pol (s\<lparr>has_header := h\<rparr>) ls = good_rows pol s ls"
  by (induction ls) (auto simp: row_cells_def split: sum.splits)

lemma bad_count_header [simp]: "bad_count (s\<lparr>has_header := h\<rparr>) ls = bad_count s ls"
  by (simp add: bad_count_def)

lemma env_ok_header [simp]: "env_ok (s\<lparr>has_header := h\<rparr>) env = env_ok s env"
  by (simp add: env_ok_def pool_ok_def shaped_def cong: option.case_cong)

lemma schema_wire:
  assumes "known_schema s"
  obtains p where "schema_to_proto s = Inr (Some p)"
    and "\<And>h. proto_to_schema (Some (p\<lparr>ps_has_header := h\<rparr>)) = Inr (s\<lparr>has_header := h\<rparr>)"
    and "concat (map (\<lambda>c. case c of None \<Rightarrow> [] | Some c \<Rightarrow> [pc_name c]) (ps_columns p)) = map cs_name (columns s)"
proof -
  obtain cols where cols: "traverse column_to_proto (columns s) = Inr cols" "traverse proto_to_column cols = Inr (columns s)"
    using wire_columns.list_encodes assms by (auto simp: known_schema_def)
  have "map (\<lambda>c. case c of None \<Rightarrow> [] | Some c \<Rightarrow> [pc_name c]) cols = map (\<lambda>c. [cs_name c]) (columns s)"
    by (rule traverse_map_eq [OF cols(1)]) (auto simp: column_to_proto_def res_bind_Inr_iff)
  then have "concat (map (\<lambda>c. case c of None \<Rightarrow> [] | Some c \<Rightarrow> [pc_name c]) cols) = map cs_name (columns s)"
    by (simp add: concat_map_singleton)
  with cols show ?thesis
    by (intro that [of "\<lparr>ps_delimiter = of_nat (code (delimiter s)), ps_has_header = has_header s,
        ps_quote_aware = quote_aware s, ps_columns = cols\<rparr>"])
      (simp_all add: schema_to_proto_def proto_to_schema_def)
qed

lemma spec_wire:
  assumes "named_spec spec"
  obtains p where "spec_to_proto spec = Inr (Some p)" and "proto_to_spec (Some p) = Inr spec" and "pa_group_by p = group_by spec"
    and "concat (map (\<lambda>m. case m of None \<Rightarrow> [] | Some m \<Rightarrow> [pm_column m]) (pa_measures p)) = map ms_column (measures spec)"
proof -
  obtain ms where ms: "traverse measure_spec_to_proto (measures spec) = Inr ms" "traverse proto_to_measure_spec ms = Inr (measures spec)"
    using measure_specs.list_encodes assms by (auto simp: named_spec_def)
  have "map (\<lambda>m. case m of None \<Rightarrow> [] | Some m \<Rightarrow> [pm_column m]) ms = map (\<lambda>m. [ms_column m]) (measures spec)"
    by (rule traverse_map_eq [OF ms(1)]) (auto simp: measure_spec_to_proto_def res_bind_Inr_iff)
  then have "concat (map (\<lambda>m. case m of None \<Rightarrow> [] | Some m \<Rightarrow> [pm_column m]) ms) = map ms_column (measures spec)"
    by (simp add: concat_map_singleton)
  with ms show ?thesis
    by (intro that [of "\<lparr>pa_group_by = group_by spec, pa_measures = ms\<rparr>"]) (simp_all add: spec_to_proto_def proto_to_spec_def)
qed

text \<open>The texts in a worker's result are those of its keys.\<close>

definition text_key :: "value_t list \<Rightarrow> bool" where
  "text_key k \<longleftrightarrow> list_all (\<lambda>v. valid_utf8 (vstr v)) k"

lemma decoded_text: "decoded_value v \<Longrightarrow> value_to_proto v = Inr p \<Longrightarrow> list_all valid_utf8 (value_text p) = valid_utf8 (vstr v)"
  by (cases "vtype v")
    (auto simp: value_to_proto_def value_text_def decoded_value_def canonical_def known_type_def int64_value_def float64_value_def
      zero_value_def dest: arg_cong [of _ _ vstr])

lemma key_text:
  "traverse value_to_proto key = Inr ps \<Longrightarrow> list_all decoded_value key \<Longrightarrow> list_all valid_utf8 (concat (map value_text ps)) = text_key key"
proof (induction key arbitrary: ps)
  case Nil
  then show ?case by (simp add: text_key_def)
next
  case (Cons v key)
  then obtain p ps' where "value_to_proto v = Inr p" "traverse value_to_proto key = Inr ps'" "ps = p # ps'"
    by (auto split: sum.splits)
  then show ?case using Cons decoded_text [of v p] by (simp add: text_key_def)
qed

lemma states_text:
  "traverse group_state_to_proto gs = Inr ps \<Longrightarrow> list_all sendable_group gs \<Longrightarrow>
     list_all valid_utf8 (concat (map (\<lambda>g. case g of None \<Rightarrow> [] | Some g \<Rightarrow> concat (map value_text (pg_key g))) ps))
       = list_all (\<lambda>g. text_key (gs_key g)) gs"
proof (induction gs arbitrary: ps)
  case (Cons g gs)
  then obtain p ps' where p: "group_state_to_proto g = Inr p" "traverse group_state_to_proto gs = Inr ps'" "ps = p # ps'"
    by (auto split: sum.splits)
  obtain key ms where "traverse value_to_proto (gs_key g) = Inr key" "p = Some \<lparr>pg_key = key, pg_count = gs_count g, pg_measures = ms\<rparr>"
    using p(1) by (auto simp: group_state_to_proto_def res_bind_Inr_iff)
  then show ?case using Cons p(2,3) key_text [of "gs_key g" key] by (simp add: sendable_group_def)
qed simp

lemma export_texts:
  assumes "holds lib b0 b rows" and "list_all sendable_group (export_state b)" and "group_states_to_proto (export_state b) = Inr (sr_groups r)"
  shows "list_all valid_utf8 (result_texts r) = (\<forall>row \<in> set rows. text_key (fst row))"
proof -
  have k: "keyed_ok (hash_key (ag_seed b0)) (key_ok (group_by_types b0)) (ag_table b)"
    using assms(1) by (simp add: holds_def agg_inv_def)
  have "list_all valid_utf8 (result_texts r) = list_all (\<lambda>g. text_key (gs_key g)) (export_state b)"
    using states_text [OF _ assms(2)] assms(3) by (simp add: result_texts_def group_states_to_proto_def)
  also have "\<dots> = (\<forall>key \<in> ga_key ` set (table_each (ag_table b)). text_key key)"
    by (auto simp: export_state_def list_all_iff group_accum_to_state_def)
  also have "ga_key ` set (table_each (ag_table b)) = fst ` set rows"
  proof -
    have "key \<in> ga_key ` set (table_each (ag_table b)) \<longleftrightarrow> key \<in> fst ` set rows" for key
      using gt_map_None [OF k, of key] holds_None [OF assms(1), of key] rows_with_empty [of key rows]
      by (auto simp: groups_def table_each_def image_image)
    then show ?thesis by blast
  qed
  finally show ?thesis by simp
qed

section \<open>The worker computes its shard\<close>

definition shard_lines :: "shard \<Rightarrow> bytes \<Rightarrow> bytes list" where
  "shard_lines sh content = header_dropped (sh_skip_header sh) (lines_of (section_of content (sh_offset sh) (sh_length sh)))"

text \<open>The result of a worker that holds the rows of the lines \<open>ls\<close>.\<close>

definition carries :: "runtime_lib \<Rightarrow> aggregator \<Rightarrow> schema \<Rightarrow> error_policy \<Rightarrow> bytes list \<Rightarrow> shard_result \<Rightarrow> bool" where
  "carries lib a s pol ls r \<longleftrightarrow> (\<exists>b0 b. same_shape a b0 \<and> holds lib b0 b (map (pick a) (good_rows pol s ls))
     \<and> proto_to_group_states (sr_groups r) = Inr (export_state b)
     \<and> sr_rows r = of_nat (length (good_rows pol s ls)) \<and> sr_skipped r = of_nat (bad_count s ls)
     \<and> list_all valid_utf8 (result_texts r) = (\<forall>row \<in> set (good_rows pol s ls). text_key (fst (pick a row))))"

lemma ingest_shard_ok:
  assumes b0: "new_aggregator seed s spec = Inr b0" and known: "\<forall>c \<in> set (columns s). known_type (cs_type c)"
    and same: "same_shape a b0" "pick b0 = pick a" and "columns s \<noteq> []" and pol: "pol \<noteq> ErrorPolicyFail"
    and env: "env_ok s (envs sc 0)" and fine: "\<not> rd_fail rd" and room: "length (lines_of (rd_data rd)) \<le> max_groups"
    and cfg: "cf_schema cfg = s" "cf_on_error cfg = pol" "cf_report cfg"
  defines "ls \<equiv> header_dropped (has_header s) (lines_of (rd_data rd))"
  shows "\<exists>r. ingest_shard lib sc rd cfg b0 = Inr r \<and> carries lib a s pol ls r"
proof -
  define d where "d = ingest sc (Stream rd) cfg"
  note new = new_aggregator_ok [OF b0 known]
  have "ingested_as (with_defaults cfg) s ls d"
    using stream_ingested [of cfg sc rd] assms(5) env fine by (simp add: d_def ls_def cfg)
  then have d: "dr_error d = None" "length (dr_skipped d) = bad_count s ls" "sent_rows (dr_batches d) = good_rows pol s ls"
      "\<forall>x \<in> set (dr_batches d). wf_batch s x"
    using pol by (auto simp: ingested_as_def cfg fatal_line_skip length_bad_lines dealt_def sent_rows_def)
  have rows: "all_rows b0 (dr_batches d) = map (pick a) (good_rows pol s ls)"
    using all_rows_sent [OF new(1)] d(3,4) new(3) same(2) by simp
  have "length ls \<le> length (lines_of (rd_data rd))" by (simp add: ls_def header_dropped_def)
  then have "length (good_rows pol s ls) \<le> max_groups" using length_good_rows [of pol s ls] room by linarith
  then obtain b where b: "add_all lib (dr_batches d) b0 = Inr b" "holds lib b0 b (map (pick a) (good_rows pol s ls))"
    using holds_add_all [OF holds_new [OF b0 known], of "dr_batches d" lib] d(4) new(3) rows by auto
  have send: "list_all sendable_group (export_state b)"
    using export_sendable [OF holds_inv [OF b(2)]] known new(3) by simp
  then obtain groups where groups: "group_states_to_proto (export_state b) = Inr groups" "proto_to_group_states groups = Inr (export_state b)"
    using state_lists.encodes by blast
  define r where "r = \<lparr>sr_groups = groups, sr_rows = sum_list (map (\<lambda>b. of_nat (num_rows b)) (dr_batches d)),
                    sr_skipped = of_nat (length (dr_skipped d))\<rparr>"
  have "ingest_shard lib sc rd cfg b0 = Inr r"
    using b(1) d(1) groups(1) by (simp add: ingest_shard_def status_as_def r_def flip: d_def)
  moreover have "sum_list (map (\<lambda>b. of_nat (num_rows b)) (dr_batches d)) = (of_nat (length (good_rows pol s ls)) :: i64)"
  proof -
    have "length (sent_rows bs) = sum_list (map num_rows bs)" for bs by (induction bs) (simp_all add: sent_rows_def)
    moreover have "(of_nat (sum_list (map num_rows bs)) :: i64) = sum_list (map (\<lambda>b. of_nat (num_rows b)) bs)" for bs
      by (induction bs) simp_all
    ultimately show ?thesis using d(3) by metis
  qed
  moreover have "list_all valid_utf8 (result_texts r) = (\<forall>row \<in> set (good_rows pol s ls). text_key (fst (pick a row)))"
    using export_texts [OF b(2) send, of r] groups(1) by (simp add: r_def)
  ultimately show ?thesis
    using same(1) b(2) groups(2) d(2) unfolding carries_def by (auto simp: r_def)
qed

lemma run_shard_ok:
  assumes a: "new_aggregator seed0 s spec = Inr a" and known: "known_schema s" and named: "named_spec spec"
    and dist: "validate_distributable spec = Inr ()" and cols: "columns s \<noteq> []"
    and content: "fs (op_path opts) = Some content" and sh: "0 \<le> sh_offset sh" "0 \<le> sh_length sh"
    and env: "env_ok s (envs sc 0)" and room: "length (lines_of (section_of content (sh_offset sh) (sh_length sh))) \<le> max_groups"
    and ps: "schema_to_proto s = Inr ps" and pspec: "spec_to_proto spec = Inr pspec"
  shows "\<exists>r. run_shard lib seed sc fs (shard_request_of opts ps pspec ''skip'' sh) = Inr r
     \<and> carries lib a s ErrorPolicySkip (shard_lines sh content) r"
proof -
  define s' where "s' = s\<lparr>has_header := sh_skip_header sh\<rparr>"
  define req where "req = shard_request_of opts ps pspec ''skip'' sh"
  define rd where "rd = (if sh_length sh \<le> 0 then \<lparr>rd_data = [], rd_fail = False\<rparr>
     else \<lparr>rd_data = section_of content (sh_offset sh) (sh_length sh), rd_fail = False\<rparr>)"
  have data: "rd_data rd = section_of content (sh_offset sh) (sh_length sh)" "\<not> rd_fail rd"
    by (simp_all add: rd_def section_of_def)
  obtain p where p: "schema_to_proto s = Inr (Some p)" "\<And>h. proto_to_schema (Some (p\<lparr>ps_has_header := h\<rparr>)) = Inr (s\<lparr>has_header := h\<rparr>)"
    using schema_wire [OF known] by blast
  obtain q where q: "spec_to_proto spec = Inr (Some q)" "proto_to_spec (Some q) = Inr spec"
    using spec_wire [OF named] by blast
  have msgs: "ps = Some p" "pspec = Some q" using ps pspec p(1) q(1) by simp_all
  have "columns s' = columns s" by (simp add: s'_def)
  from new_aggregator_columns [OF a this, of seed] obtain b0 where b0: "new_aggregator seed s' spec = Inr b0" "same_shape a b0" "pick b0 = pick a"
    by blast
  have "known_type (cs_type c)" if "c \<in> set (columns s')" for c
    using known that by (simp add: known_schema_def known_column_def list_all_iff s'_def)
  moreover have "run_shard lib seed sc fs req = ingest_shard lib sc rd (shard_config s' ErrorPolicySkip req) b0"
    using p(2) q(2) b0(1) dist content sh msgs
    by (simp add: run_shard_def status_as_def req_def shard_request_of_def s'_def proto_to_on_error_def file_chunk_reader_def rd_def)
  ultimately obtain r where "run_shard lib seed sc fs req = Inr r"
      "carries lib a s' ErrorPolicySkip (header_dropped (has_header s') (lines_of (rd_data rd))) r"
    using ingest_shard_ok [OF b0(1) _ b0(2,3), of ErrorPolicySkip sc rd "shard_config s' ErrorPolicySkip req" lib] cols env room data
    by (auto simp: s'_def shard_config_def)
  then show ?thesis by (auto simp: req_def carries_def shard_lines_def s'_def data)
qed

section \<open>Planning\<close>

lemma lines_member: "ls \<in> set lss \<Longrightarrow> length ls \<le> length (concat lss)"
  by (induction lss) auto

lemma length_plan_chunks: "length (plan_chunks sz n) \<le> nat (max 1 n)"
  by (auto simp: plan_chunks_def Let_def)

lemma shards_lines:
  "map (\<lambda>sh. shard_lines sh content)
     (map (\<lambda>(i, c). \<lparr>sh_addr = addrs ! i, sh_offset = ck_offset c, sh_length = ck_length c, sh_skip_header = (h \<and> i = 0)\<rparr>)
       (zip [0..<length cs] cs)) = chunk_lines content h cs"
  by (simp add: chunk_lines_def shard_lines_def case_prod_unfold)

lemma plan_shards_ok:
  assumes "fs path = Some content" and "addrs \<noteq> []"
  shows "\<exists>shs. plan_shards fs path addrs s = Inr shs \<and> shs \<noteq> [] \<and> length shs \<le> length addrs
     \<and> map sh_addr shs = take (length shs) addrs
     \<and> tiles 0 (map (\<lambda>sh. \<lparr>ck_offset = sh_offset sh, ck_length = sh_length sh\<rparr>) shs) (int (length content))
     \<and> concat (map (\<lambda>sh. shard_lines sh content) shs) = data_lines_of s content
     \<and> (\<forall>sh \<in> set shs. 0 \<le> sh_offset sh \<and> 0 \<le> sh_length sh
          \<and> length (lines_of (section_of content (sh_offset sh) (sh_length sh))) \<le> length (lines_of content))"
proof -
  define n where "n = int (length addrs)"
  have n: "1 \<le> n" using assms(2) by (cases addrs) (simp_all add: n_def)
  obtain cs where cs: "align_chunks (file_source content) (plan_chunks (int (length content)) n) = Inr cs" "cs \<noteq> []"
      "tiles 0 cs (int (length content))" "content \<noteq> [] \<longrightarrow> 0 < ck_length (hd cs)"
      "concat (map (\<lambda>c. lines_of (section_of content (ck_offset c) (ck_length c))) cs) = lines_of content"
      "length cs = length (plan_chunks (int (length content)) n)"
    using chunk_plan_file [of content n] by auto
  have len: "length cs \<le> length addrs"
    using cs(6) length_plan_chunks [of "int (length content)" n] n by (simp add: n_def)
  define shs where "shs = map (\<lambda>(i, c). \<lparr>sh_addr = addrs ! i, sh_offset = ck_offset c, sh_length = ck_length c,
      sh_skip_header = (has_header s \<and> i = 0)\<rparr>) (zip [0..<length cs] cs)"
  have "plan_shards fs path addrs s = Inr shs"
    using assms cs(1) len by (simp add: plan_shards_def shards_of_def shs_def n_def file_source_def cong: if_cong) 
  moreover have "map sh_addr shs = take (length shs) addrs"
    using len by (intro nth_equalityI) (simp_all add: shs_def)
  moreover have "map (\<lambda>sh. \<lparr>ck_offset = sh_offset sh, ck_length = sh_length sh\<rparr>) shs = cs"
    by (intro nth_equalityI) (simp_all add: shs_def)
  moreover have "concat (map (\<lambda>sh. shard_lines sh content) shs) = data_lines_of s content"
  proof (cases "content = []")
    case True
    have "\<forall>ls \<in> set (chunk_lines content (has_header s) cs). ls = []"
      by (auto simp: chunk_lines_def True section_of_def lines_of.simps header_dropped_def)
    then show ?thesis
      unfolding shs_def shards_lines by (simp add: data_lines_of_def True lines_of.simps header_dropped_def)
  next
    case False
    with cs(4) have "0 < ck_length (hd cs)" by simp
    then show ?thesis
      using chunk_lines_concat [OF cs(2) False cs(3) _ cs(5)] unfolding shs_def shards_lines by (simp add: data_lines_of_def)
  qed
  moreover have "0 \<le> sh_offset sh \<and> 0 \<le> sh_length sh
      \<and> length (lines_of (section_of content (sh_offset sh) (sh_length sh))) \<le> length (lines_of content)" if m: "sh \<in> set shs" for sh
  proof -
    obtain c where c: "c \<in> set cs" "sh_offset sh = ck_offset c" "sh_length sh = ck_length c"
      using m by (auto simp: shs_def dest: set_zip_rightD)
    then have "lines_of (section_of content (sh_offset sh) (sh_length sh))
        \<in> set (map (\<lambda>c. lines_of (section_of content (ck_offset c) (ck_length c))) cs)"
      by auto
    from lines_member [OF this] show ?thesis using tiles_member [OF cs(3) c(1)] c(2,3) cs(5) by simp
  qed
  ultimately show ?thesis using cs(2,3) len by (auto simp: shs_def)
qed

section \<open>Merging the shards\<close>

lemma resolve_wants_none:
  "resolve_wants col t fns w = Inr w' \<Longrightarrow> \<forall>fn \<in> set fns. af_kind fn \<noteq> KindPercentile \<Longrightarrow> wants_percentile w' = wants_percentile w"
  by (induction fns arbitrary: w) (auto split: if_splits func_kind.splits)

lemma validated_no_percentile: "validate_distributable spec = Inr () \<Longrightarrow> ms \<in> set (measures spec) \<Longrightarrow> fn \<in> set (ms_funcs ms) \<Longrightarrow>
    af_kind fn \<noteq> KindPercentile"
proof
  assume v: "validate_distributable spec = Inr ()" and m: "ms \<in> set (measures spec)" "fn \<in> set (ms_funcs ms)" "af_kind fn = KindPercentile"
  then have "List.find (\<lambda>(col, fn). kind_of fn = FuncPercentile)
      (concat (map (\<lambda>ms. map (Pair (ms_column ms)) (ms_funcs ms)) (measures spec))) = None"
    by (auto split: option.splits)
  moreover have "(ms_column ms, fn) \<in> set (concat (map (\<lambda>ms. map (Pair (ms_column ms)) (ms_funcs ms)) (measures spec)))"
    using m(1,2) by auto
  moreover have "kind_of fn = FuncPercentile" using m(3) by simp
  ultimately show False by (simp only: find_None_iff split: prod.splits) blast
qed

lemma resolve_measures_no_percentile:
  "resolve_measures s mss = Inr ms \<Longrightarrow> \<forall>m \<in> set mss. \<forall>fn \<in> set (ms_funcs m). af_kind fn \<noteq> KindPercentile \<Longrightarrow>
     list_all (\<lambda>w. \<not> wants_percentile w) (map (snd \<circ> snd) ms)"
proof (induction mss arbitrary: ms)
  case (Cons m mss)
  from Cons.prems(1) obtain i t w rest where "resolve_wants (ms_column m) t (ms_funcs m) \<lparr>wants_distinct = False, wants_percentile = False\<rparr> = Inr w"
      "resolve_measures s mss = Inr rest" "ms = (i, t, w) # rest"
    by (auto simp: Let_def split: option.splits sum.splits)
  then show ?case using Cons resolve_wants_none [of "ms_column m" t "ms_funcs m"] by simp
qed simp

lemma new_no_percentile:
  assumes "new_aggregator seed s spec = Inr a" and "validate_distributable spec = Inr ()"
  shows "list_all (\<lambda>w. \<not> wants_percentile w) (ag_wants a)"
  using assms(1) resolve_measures_no_percentile [of s "measures spec"] validated_no_percentile [OF assms(2)]
  by (auto simp: new_aggregator_def split: sum.splits)

lemma bad_count_append: "bad_count s (xs @ ys) = bad_count s xs + bad_count s ys"
  by (simp add: bad_count_def)


lemma merge_results_holds:
  assumes "list_all2 (carries lib a s pol) lss rs" and "holds lib a final xs"
    and "list_all (\<lambda>w. \<not> wants_percentile w) (ag_wants a)" and "length xs + length (concat lss) \<le> max_groups"
  shows "\<exists>c. merge_results lib (map Some rs) (final, m, k)
       = Inr (c, m + of_nat (length (concat (map (good_rows pol s) lss))), k + of_nat (bad_count s (concat lss)))
     \<and> holds lib a c (xs @ map (pick a) (concat (map (good_rows pol s) lss)))"
  using assms
proof (induction arbitrary: final xs m k rule: list_all2_induct)
  case Nil
  then show ?case by (simp add: bad_count_def)
next
  case (Cons ls lss r rs)
  obtain b0 b where b: "same_shape a b0" "holds lib b0 b (map (pick a) (good_rows pol s ls))"
      "proto_to_group_states (sr_groups r) = Inr (export_state b)"
      "sr_rows r = of_nat (length (good_rows pol s ls))" "sr_skipped r = of_nat (bad_count s ls)"
    using Cons.hyps(1) by (auto simp: carries_def)
  have "length xs + length (map (pick a) (good_rows pol s ls)) \<le> max_groups"
    using Cons.prems(3) length_good_rows [of pol s ls] by simp
  from merge_state_holds [OF Cons.prems(1) b(2,1) Cons.prems(2) this] obtain c where
      c: "merge_state lib (export_state b) final = Inr c" "holds lib a c (xs @ map (pick a) (good_rows pol s ls))"
    by blast
  have "length (xs @ map (pick a) (good_rows pol s ls)) + length (concat lss) \<le> max_groups"
    using Cons.prems(3) length_good_rows [of pol s ls] by simp
  from Cons.IH [OF c(2) Cons.prems(2) this, of "m + sr_rows r" "k + sr_skipped r"] show ?case
    using b(3-5) c(1) by (simp add: bad_count_append add.assoc)
qed

section \<open>Runs\<close>

lemma run_distributed_cases:
  fixes net :: grpc
  assumes "validate_distributable (op_spec opts) = Inr ()" and "op_shards opts \<noteq> []"
    and "on_error_to_proto (op_on_error opts) = Inr on_err" and "spec_to_proto (op_spec opts) = Inr pspec"
    and "new_aggregator seed (op_schema opts) (op_spec opts) = Inr a"
  defines "outcome \<equiv> shard_call net opts pspec on_err" and "n \<equiv> length (op_shards opts)"
  shows "(\<exists>res. run_distributed lib seed net opts res)
     \<and> (\<forall>res. run_distributed lib seed net opts res \<longrightarrow>
          (if \<exists>i < n. \<exists>e. outcome i = Inl e then \<exists>i < n. \<exists>e. outcome i = Inl e \<and> res = Inl e
           else res = merge_results lib (map (\<lambda>i. Some (projr (outcome i))) [0..<n]) (a, 0, 0)))"
proof -
  have run: "run_distributed lib seed net opts res \<longleftrightarrow>
      (\<exists>st. (dist_step outcome)\<^sup>*\<^sup>* (dist_start n) st \<and> dist_finished st \<and> res = dist_result lib seed opts st)" for res
    using assms(1-4) by (simp add: run_distributed_def outcome_def n_def)
  have "if \<exists>i < n. \<exists>e. outcome i = Inl e then \<exists>i < n. \<exists>e. outcome i = Inl e \<and> res = Inl e
      else res = merge_results lib (map (\<lambda>i. Some (projr (outcome i))) [0..<n]) (a, 0, 0)"
    if "run_distributed lib seed net opts res" for res
  proof -
    from that obtain st where st: "(dist_step outcome)\<^sup>*\<^sup>* (dist_start n) st" "dist_finished st" "res = dist_result lib seed opts st"
      unfolding run by blast
    show ?thesis
    proof (cases "ds_err st")
      case None
      then obtain rs where rs: "length rs = n" "\<forall>i < n. outcome i = Inr (rs ! i)" "ds_results st = map Some rs"
        using dist_ends_in [OF st(1,2)] by auto
      then have "ds_results st = map (\<lambda>i. Some (projr (outcome i))) [0..<n]" by (intro nth_equalityI) simp_all
      then show ?thesis using rs(2) None assms(5) by (auto simp: st(3) dist_result_def)
    next
      case (Some e)
      then show ?thesis using dist_ends_in [OF st(1,2)] by (auto simp: st(3) dist_result_def)
    qed
  qed
  moreover have "\<exists>res. run_distributed lib seed net opts res" unfolding run using dist.ends by blast
  ultimately show ?thesis by blast
qed

text \<open>The texts of the configuration, which every request carries.\<close>

definition config_texts :: "options \<Rightarrow> string list" where
  "config_texts opts = op_path opts # map cs_name (columns (op_schema opts))
     @ group_by (op_spec opts) @ map ms_column (measures (op_spec opts))"

lemma skip_text: "valid_utf8 ''skip''"
  by simp

lemma shard_call_served:
  assumes new: "new_aggregator seed (op_schema opts) (op_spec opts) = Inr a" and known: "known_schema (op_schema opts)"
    and named: "named_spec (op_spec opts)" and valid: "validate_distributable (op_spec opts) = Inr ()"
    and cols: "columns (op_schema opts) \<noteq> []" and content: "fs (op_path opts) = Some content"
    and sh: "0 \<le> sh_offset (op_shards opts ! i)" "0 \<le> sh_length (op_shards opts ! i)"
      "length (lines_of (section_of content (sh_offset (op_shards opts ! i)) (sh_length (op_shards opts ! i)))) \<le> max_groups"
    and serves: "serves lib seeds scs fs net" and env: "env_ok (op_schema opts) (envs (scs i) 0)"
    and texts: "list_all valid_utf8 (config_texts opts)" and pspec: "spec_to_proto (op_spec opts) = Inr pspec"
  shows "\<exists>r. carries lib a (op_schema opts) ErrorPolicySkip (shard_lines (op_shards opts ! i) content) r
     \<and> (if list_all valid_utf8 (result_texts r) then shard_call net opts pspec ''skip'' i = Inr r
        else \<exists>e. shard_call net opts pspec ''skip'' i = Inl e)"
proof -
  obtain p where p: "schema_to_proto (op_schema opts) = Inr (Some p)"
      "concat (map (\<lambda>c. case c of None \<Rightarrow> [] | Some c \<Rightarrow> [pc_name c]) (ps_columns p)) = map cs_name (columns (op_schema opts))"
    using schema_wire [OF known] by blast
  obtain q where "spec_to_proto (op_spec opts) = Inr (Some q)" and q: "pa_group_by q = group_by (op_spec opts)"
      "concat (map (\<lambda>m. case m of None \<Rightarrow> [] | Some m \<Rightarrow> [pm_column m]) (pa_measures q)) = map ms_column (measures (op_spec opts))"
    using spec_wire [OF named] by blast
  then have pq: "pspec = Some q" using pspec by simp
  define req where "req = shard_request_of opts (Some p) pspec ''skip'' (op_shards opts ! i)"
  have "list_all valid_utf8 (request_texts req)"
    using texts p(2) q skip_text by (simp add: request_texts_def req_def shard_request_of_def pq config_texts_def)
  moreover obtain r where r: "run_shard lib (seeds i) (scs i) fs req = Inr r"
      "carries lib a (op_schema opts) ErrorPolicySkip (shard_lines (op_shards opts ! i) content) r"
    using run_shard_ok [where opts = opts and fs = fs and sc = "scs i" and lib = lib and seed = "seeds i",
        OF new known named valid cols content sh(1,2) env sh(3) p(1) pspec]
    unfolding req_def by blast
  moreover have "case run_shard lib (seeds i) (scs i) fs req of
             Inl e \<Rightarrow> \<exists>m. call net i addr req = Inl m
           | Inr r \<Rightarrow> (if list_all valid_utf8 (request_texts req) \<and> list_all valid_utf8 (result_texts r)
                      then call net i addr req = Inr r else \<exists>m. call net i addr req = Inl m)" for addr
    using serves unfolding serves_def by blast
  moreover have "dial net addr = None" for addr using serves by (simp add: serves_def)
  ultimately have call: "if list_all valid_utf8 (result_texts r) then call net i addr req = Inr r else \<exists>m. call net i addr req = Inl m"
      and dialled: "dial net addr = None" for addr
    by simp_all
  have "shard_call net opts pspec ''skip'' i = (case call net i (sh_addr (op_shards opts ! i)) req of
      Inl e \<Rightarrow> Inl (ErrShard i (sh_addr (op_shards opts ! i)) e) | Inr r \<Rightarrow> Inr r)"
    by (simp add: shard_call_def p(1) dialled req_def Let_def)
  then have "if list_all valid_utf8 (result_texts r) then shard_call net opts pspec ''skip'' i = Inr r
      else \<exists>e. shard_call net opts pspec ''skip'' i = Inl e"
    using call [of "sh_addr (op_shards opts ! i)"] by (auto split: if_splits)
  with r(2) show ?thesis by blast
qed

lemma distributed_rows:
  fixes content :: bytes
  assumes new: "new_aggregator seed (op_schema opts) (op_spec opts) = Inr a" and known: "known_schema (op_schema opts)"
    and named: "named_spec (op_spec opts)" and valid: "validate_distributable (op_spec opts) = Inr ()"
    and cols: "columns (op_schema opts) \<noteq> []" and skip: "op_on_error opts = ErrorPolicySkip"
    and content: "fs (op_path opts) = Some content"
    and plan: "plan_shards fs (op_path opts) addrs (op_schema opts) = Inr (op_shards opts)"
    and serves: "serves lib seeds scs fs net" and env: "\<And>i. env_ok (op_schema opts) (envs (scs i) 0)"
    and texts: "list_all valid_utf8 (config_texts opts)" and room: "length (lines_of content) \<le> max_groups"
  defines "rows \<equiv> file_rows a ErrorPolicySkip (op_schema opts) content"
  shows "(\<exists>res. run_distributed lib seed net opts res)
     \<and> (\<forall>res. run_distributed lib seed net opts res \<longrightarrow>
          (if \<forall>row \<in> set rows. text_key (fst row)
           then \<exists>c. res = Inr (c, of_nat (length rows), of_nat (bad_count (op_schema opts) (data_lines_of (op_schema opts) content)))
                  \<and> holds lib a c rows
           else \<exists>e. res = Inl e))"
proof -
  define s where "s = op_schema opts"
  define shs where "shs = op_shards opts"
  define lss where "lss = map (\<lambda>sh. shard_lines sh content) shs"
  have "addrs \<noteq> []" using plan by (auto simp: plan_shards_def)
  then have shs: "shs \<noteq> []" "concat lss = data_lines_of s content"
      "\<And>sh. sh \<in> set shs \<Longrightarrow> 0 \<le> sh_offset sh \<and> 0 \<le> sh_length sh
          \<and> length (lines_of (section_of content (sh_offset sh) (sh_length sh))) \<le> length (lines_of content)"
    using plan_shards_ok [where fs = fs and addrs = addrs and s = s, OF content] plan by (auto simp: s_def shs_def lss_def)
  obtain pspec where pspec: "spec_to_proto (op_spec opts) = Inr pspec" using wire_specs.encodes [OF named] by blast
  define outcome where "outcome = shard_call net opts pspec ''skip''"
  have "\<exists>r. carries lib a s ErrorPolicySkip (lss ! i) r
      \<and> (if list_all valid_utf8 (result_texts r) then outcome i = Inr r else \<exists>e. outcome i = Inl e)" if "i < length shs" for i
  proof -
    have m: "op_shards opts ! i \<in> set shs" using that by (simp add: shs_def)
    note b = shs(3) [OF m]
    have "length (lines_of (section_of content (sh_offset (op_shards opts ! i)) (sh_length (op_shards opts ! i)))) \<le> max_groups"
      using b room by linarith
    from shard_call_served [where fs = fs and i = i, OF new known named valid cols content conjunct1 [OF b] conjunct1 [OF conjunct2 [OF b]]
        this serves env texts pspec]
    have "\<exists>r. carries lib a s ErrorPolicySkip (shard_lines (op_shards opts ! i) content) r
      \<and> (if list_all valid_utf8 (result_texts r) then outcome i = Inr r else \<exists>e. outcome i = Inl e)"
      unfolding outcome_def s_def .
    moreover have "lss ! i = shard_lines (op_shards opts ! i) content" using that by (simp add: lss_def shs_def)
    ultimately show ?thesis by (simp only:)
  qed
  then obtain r where r: "\<And>i. i < length shs \<Longrightarrow> carries lib a s ErrorPolicySkip (lss ! i) (r i)
      \<and> (if list_all valid_utf8 (result_texts (r i)) then outcome i = Inr (r i) else \<exists>e. outcome i = Inl e)"
    by metis
  have good: "rows = map (pick a) (concat (map (good_rows ErrorPolicySkip s) lss))"
    by (simp add: rows_def file_rows_def good_rows_concat shs(2) flip: s_def) (simp add: good_rows_concat flip: shs(2))
  have text_ok: "(\<forall>row \<in> set rows. text_key (fst row)) \<longleftrightarrow> (\<forall>i < length shs. list_all valid_utf8 (result_texts (r i)))"
  proof -
    have "list_all valid_utf8 (result_texts (r i)) = (\<forall>row \<in> set (good_rows ErrorPolicySkip s (lss ! i)). text_key (fst (pick a row)))"
      if "i < length shs" for i
      using conjunct1 [OF r [OF that]] unfolding carries_def by blast
    moreover have "length lss = length shs" by (simp add: lss_def)
    ultimately show ?thesis unfolding good by (auto simp: in_set_conv_nth) (metis nth_mem)+
  qed
  have cases: "(\<exists>res. run_distributed lib seed net opts res)
     \<and> (\<forall>res. run_distributed lib seed net opts res \<longrightarrow>
          (if \<exists>i < length shs. \<exists>e. outcome i = Inl e then \<exists>i < length shs. \<exists>e. outcome i = Inl e \<and> res = Inl e
           else res = merge_results lib (map (\<lambda>i. Some (projr (outcome i))) [0..<length shs]) (a, 0, 0)))"
    using run_distributed_cases [where on_err = "''skip''" and net = net and lib = lib, OF valid _ _ pspec new] shs(1) skip
    by (simp add: outcome_def shs_def)
  show ?thesis
  proof (cases "\<forall>row \<in> set rows. text_key (fst row)")
    case True
    then have all: "\<forall>i < length shs. outcome i = Inr (r i)" using r text_ok by auto
    then have "map (\<lambda>i. Some (projr (outcome i))) [0..<length shs] = map Some (map r [0..<length shs])" by simp
    moreover have "list_all2 (carries lib a s ErrorPolicySkip) lss (map r [0..<length shs])"
      using r by (simp add: list_all2_conv_all_nth lss_def)
    moreover have "holds lib a a []"
      using holds_new [OF new] known by (simp add: known_schema_def known_column_def list_all_iff)
    moreover have "length (concat lss) \<le> max_groups"
      using room by (auto simp: shs(2) data_lines_of_def header_dropped_def intro: le_trans [OF diff_le_self])
    ultimately obtain c where c: "merge_results lib (map (\<lambda>i. Some (projr (outcome i))) [0..<length shs]) (a, 0, 0)
         = Inr (c, of_nat (length rows), of_nat (bad_count s (concat lss)))" "holds lib a c rows"
      using merge_results_holds [of lib a s ErrorPolicySkip lss "map r [0..<length shs]" a "[]" 0 0] new_no_percentile [OF new valid]
      by (auto simp: good)
    have no: "\<not> (\<exists>i < length shs. \<exists>e. outcome i = Inl e)" using all by simp
    have "res = Inr (c, of_nat (length rows), of_nat (bad_count s (data_lines_of s content)))"
      if "run_distributed lib seed net opts res" for res
      using cases that no c(1) by (simp add: shs(2))
    then show ?thesis using cases c(2) True by (auto simp flip: s_def)
  next
    case False
    then obtain i where i: "i < length shs" "\<not> list_all valid_utf8 (result_texts (r i))" using text_ok by blast
    then obtain e where "outcome i = Inl e" using r [OF i(1)] by auto
    then have yes: "\<exists>i < length shs. \<exists>e. outcome i = Inl e" using i(1) by blast
    have "\<exists>e. res = Inl e" if "run_distributed lib seed net opts res" for res
      using cases that yes by auto
    then show ?thesis using cases False by auto
  qed
qed

section \<open>Properties\<close>

text \<open>
  C33. \<open>PlanShards\<close> gives each of at most as many workers as there are addresses, in order, a range of the file; the
  ranges are adjacent and cover the file, and the data lines of the shards, the header dropped from the
  first, are those of the file.
\<close>

theorem plan_shards_partition:
  assumes "fs path = Some content" and "addrs \<noteq> []"
  shows "\<exists>shs. plan_shards fs path addrs s = Inr shs \<and> shs \<noteq> [] \<and> map sh_addr shs = take (length shs) addrs
     \<and> tiles 0 (map (\<lambda>sh. \<lparr>ck_offset = sh_offset sh, ck_length = sh_length sh\<rparr>) shs) (int (length content))
     \<and> concat (map (\<lambda>sh. shard_lines sh content) shs) = data_lines_of s content"
  using plan_shards_ok [where fs = fs and s = s, OF assms] by blast

theorem plan_shards_partition_witness:
  "\<exists>shs. plan_shards (\<lambda>_. Some sample_csv) ''f'' [''a:1'', ''b:2''] sample_schema = Inr shs \<and> shs \<noteq> []"
  using plan_shards_partition [of "\<lambda>_. Some sample_csv" "''f''" sample_csv "[''a:1'', ''b:2'']" sample_schema] by auto

text \<open>
  C19. \<open>RunDistributed\<close> never hides a failure and never invents one: for any network, every run ends; if the call of
  some shard fails the run returns the error of such a shard, and otherwise it returns what merging all
  shards' results returns.
\<close>

theorem run_distributed_errors:
  fixes net :: grpc
  assumes "validate_distributable (op_spec opts) = Inr ()" and "op_shards opts \<noteq> []"
    and "on_error_to_proto (op_on_error opts) = Inr on_err" and "spec_to_proto (op_spec opts) = Inr pspec"
    and "new_aggregator seed (op_schema opts) (op_spec opts) = Inr a"
  defines "outcome \<equiv> shard_call net opts pspec on_err" and "n \<equiv> length (op_shards opts)"
  shows "(\<exists>res. run_distributed lib seed net opts res)
     \<and> (\<forall>res. run_distributed lib seed net opts res \<longrightarrow>
          (if \<exists>i < n. \<exists>e. outcome i = Inl e then \<exists>i < n. \<exists>e. outcome i = Inl e \<and> res = Inl e
           else res = merge_results lib (map (\<lambda>i. Some (projr (outcome i))) [0..<n]) (a, 0, 0)))"
  using run_distributed_cases [OF assms(1-5), of lib net] by (simp add: outcome_def n_def)

text \<open>A network of workers over one file system, a coordinator's options, and a network that is down.\<close>

definition sample_files :: files where
  "sample_files path = (if path = ''f'' then Some sample_csv else None)"

definition sample_net :: grpc where
  "sample_net = \<lparr>dial = \<lambda>_. None, call = \<lambda>i addr req.
     (case run_shard sample_lib sample_seed quiet_schedule sample_files req of
        Inl e \<Rightarrow> Inl ''rpc error''
      | Inr r \<Rightarrow> (if list_all valid_utf8 (request_texts req) \<and> list_all valid_utf8 (result_texts r) then Inr r
                 else Inl ''string field contains invalid UTF-8''))\<rparr>"

definition sample_plan :: "shard list" where
  "sample_plan = projr (plan_shards sample_files ''f'' [''a:1'', ''b:2''] sample_schema)"

definition sample_options :: options where
  "sample_options = \<lparr>op_schema = sample_schema, op_spec = sample_spec, op_path = ''f'', op_on_error = ErrorPolicySkip,
     op_batch_size = 0, op_buffer_size = 0, op_shards = sample_plan\<rparr>"

definition down_net :: grpc where
  "down_net = \<lparr>dial = \<lambda>_. Some ''no route'', call = \<lambda>_ _ _. Inl ''unavailable''\<rparr>"

lemma sample_planned: "plan_shards sample_files ''f'' [''a:1'', ''b:2''] sample_schema = Inr sample_plan \<and> sample_plan \<noteq> []"
  using plan_shards_ok [where fs = sample_files and path = "''f''" and addrs = "[''a:1'', ''b:2'']" and s = sample_schema]
  by (auto simp: sample_plan_def sample_files_def)

lemma sample_spec_ok: "named_spec sample_spec" "validate_distributable sample_spec = Inr ()" "known_schema sample_schema"
    "columns sample_schema \<noteq> []"
  by (simp_all add: named_spec_def named_func_def sample_spec_def agg_func_defs known_schema_def sample_schema_def known_column_def
      known_type_def known_kind_def)

lemma sample_served: "serves sample_lib (\<lambda>_. sample_seed) (\<lambda>_. quiet_schedule) sample_files sample_net"
  by (simp add: serves_def sample_net_def split: sum.splits)

theorem run_distributed_errors_witness:
  "(\<exists>e. run_distributed sample_lib sample_seed down_net sample_options (Inl e))
     \<and> (\<nexists>r. run_distributed sample_lib sample_seed down_net sample_options (Inr r))"
proof -
  obtain pspec where pspec: "spec_to_proto (op_spec sample_options) = Inr pspec"
    using wire_specs.encodes [OF sample_spec_ok(1)] by (auto simp: sample_options_def)
  have n: "op_shards sample_options \<noteq> []" using sample_planned by (simp add: sample_options_def)
  obtain ps where "schema_to_proto sample_schema = Inr ps" using schema_wire [OF sample_spec_ok(3)] by blast
  then have "\<exists>e. shard_call down_net sample_options pspec ''skip'' 0 = Inl e"
    by (simp add: shard_call_def sample_options_def down_net_def Let_def)
  with n have "\<exists>i < length (op_shards sample_options). \<exists>e. shard_call down_net sample_options pspec ''skip'' i = Inl e" by blast
  with run_distributed_errors [where opts = sample_options and net = down_net and lib = sample_lib and on_err = "''skip''"
      and seed = sample_seed and a = sample_agg, OF _ n _ pspec] sample_spec_ok(2) sample_facts(1)
  have "(\<exists>res. run_distributed sample_lib sample_seed down_net sample_options res)
      \<and> (\<forall>res. run_distributed sample_lib sample_seed down_net sample_options res \<longrightarrow> (\<exists>e. res = Inl e))"
    by (auto simp: sample_options_def)
  then show ?thesis by fastforce
qed



lemma query_rows:
  fixes content :: bytes
  assumes req: "spec_to_proto spec = Inr req" and new0: "new_aggregator seed0 (cc_schema cfg) spec = Inr a0"
    and new: "new_aggregator seed (cc_schema cfg) spec = Inr a" and known: "known_schema (cc_schema cfg)"
    and named: "named_spec spec" and valid: "validate_distributable spec = Inr ()" and cols: "columns (cc_schema cfg) \<noteq> []"
    and skip: "cc_on_error cfg = ErrorPolicySkip" and content: "fs (cc_path cfg) = Some content"
    and disc: "cc_discover cfg = Inr addrs" "addrs \<noteq> []"
    and serves: "serves lib seeds scs fs net" and env: "\<And>i. env_ok (cc_schema cfg) (envs (scs i) 0)"
    and texts: "list_all valid_utf8 (config_texts (query_options cfg spec []))" and room: "length (lines_of content) \<le> max_groups"
    and keys: "\<forall>row \<in> set (file_rows a ErrorPolicySkip (cc_schema cfg) content). text_key (fst row)" and sort: "slice_sorts sort_slice"
  shows "(\<exists>res. query_returns sort_slice lib seed0 seed fs net cfg req res)
     \<and> (\<forall>res. query_returns sort_slice lib seed0 seed fs net cfg req res \<longrightarrow>
          (\<exists>p r c c'. res = Inr p \<and> proto_to_result p = Inr (Some r) \<and> agg_result_of sort_slice lib c = Some (r, c')
             \<and> holds lib a c (file_rows a ErrorPolicySkip (cc_schema cfg) content)))"
proof -
  obtain shs where shs: "plan_shards fs (cc_path cfg) addrs (cc_schema cfg) = Inr shs"
    using plan_shards_ok [where fs = fs and addrs = addrs and s = "cc_schema cfg", OF content disc(2)] by blast
  have q: "op_schema (query_options cfg spec shs) = cc_schema cfg" "op_spec (query_options cfg spec shs) = spec"
      "op_path (query_options cfg spec shs) = cc_path cfg" "op_on_error (query_options cfg spec shs) = cc_on_error cfg"
      "op_shards (query_options cfg spec shs) = shs" "config_texts (query_options cfg spec shs) = config_texts (query_options cfg spec [])"
    by (simp_all add: query_options_def config_texts_def)
  note runs = distributed_rows [where opts = "query_options cfg spec shs" and fs = fs and addrs = addrs and net = net and lib = lib,
      unfolded q, OF new known named valid cols skip content shs serves env texts room]
  have returns: "query_returns sort_slice lib seed0 seed fs net cfg req res
      \<longleftrightarrow> (\<exists>r. run_distributed lib seed net (query_options cfg spec shs) r \<and> res = query_answer sort_slice lib r)" for res
    using wire_specs.decodes [OF named req] new0 valid disc(1) shs by (simp add: query_returns_def)
  have "\<exists>p r c c'. query_answer sort_slice lib x = Inr p \<and> proto_to_result p = Inr (Some r) \<and> agg_result_of sort_slice lib c = Some (r, c')
      \<and> holds lib a c (file_rows a ErrorPolicySkip (cc_schema cfg) content)"
    if run: "run_distributed lib seed net (query_options cfg spec shs) x" for x
  proof -
    obtain c n k where x: "x = Inr (c, n, k)" and c: "holds lib a c (file_rows a ErrorPolicySkip (cc_schema cfg) content)"
      using runs run keys by auto
    have spec: "ag_spec a = spec" using new by (auto simp: new_aggregator_def split: sum.splits)
    obtain r c' where r: "agg_result_of sort_slice lib c = Some (r, c')"
      using agg_result_ok [OF holds_inv [OF c] new_spec_config [OF new], of sort_slice lib] by blast
    have "sendable_result r" using result_sendable [OF holds_inv [OF c] new_spec_config [OF new] _ sort r] named spec by simp
    then obtain p where "result_to_proto (Some r) = Inr p" "proto_to_result p = Inr (Some r)"
      using wire_results.encodes [of "Some r"] by auto
    then show ?thesis using x r c by (auto simp: query_answer_def status_as_def)
  qed
  then show ?thesis using runs by (auto simp: returns)
qed

definition sample_coordinator :: coordinator_config where
  "sample_coordinator = \<lparr>cc_schema = sample_schema, cc_path = ''f'', cc_discover = static_discoverer [''a:1'', ''b:2''],
     cc_on_error = ErrorPolicySkip, cc_batch_size = 0, cc_buffer_size = 0\<rparr>"

text \<open>
  C12. A query over the wire is answered with the group-by of the file: whatever the discovered workers, every answer of
  \<open>Query\<close> decodes to the result of an aggregator that holds exactly the rows of the well-formed data lines.
\<close>

theorem query_answers:
  fixes content :: bytes
  assumes req: "spec_to_proto spec = Inr req" and new0: "new_aggregator seed0 (cc_schema cfg) spec = Inr a0"
    and new: "new_aggregator seed (cc_schema cfg) spec = Inr a" and known: "known_schema (cc_schema cfg)"
    and named: "named_spec spec" and valid: "validate_distributable spec = Inr ()" and cols: "columns (cc_schema cfg) \<noteq> []"
    and skip: "cc_on_error cfg = ErrorPolicySkip" and content: "fs (cc_path cfg) = Some content"
    and disc: "cc_discover cfg = Inr addrs" "addrs \<noteq> []"
    and serves: "serves lib seeds scs fs net" and env: "\<And>i. env_ok (cc_schema cfg) (envs (scs i) 0)"
    and texts: "list_all valid_utf8 (config_texts (query_options cfg spec []))" and room: "length (lines_of content) \<le> max_groups"
    and keys: "\<forall>row \<in> set (file_rows a ErrorPolicySkip (cc_schema cfg) content). text_key (fst row)" and sort: "slice_sorts sort_slice"
  shows "(\<exists>res. query_returns sort_slice lib seed0 seed fs net cfg req res)
     \<and> (\<forall>res. query_returns sort_slice lib seed0 seed fs net cfg req res \<longrightarrow>
          (\<exists>p r c c'. res = Inr p \<and> proto_to_result p = Inr (Some r) \<and> agg_result_of sort_slice lib c = Some (r, c')
             \<and> holds lib a c (file_rows a ErrorPolicySkip (cc_schema cfg) content)))"
  using assms by (rule query_rows)

theorem query_answers_witness:
  "\<exists>req p r. spec_to_proto sample_spec = Inr req
     \<and> query_returns insertion_sort sample_lib sample_seed sample_seed sample_files sample_net sample_coordinator req (Inr p)
     \<and> proto_to_result p = Inr (Some r)"
proof -
  obtain req where req: "spec_to_proto sample_spec = Inr req" using wire_specs.encodes [OF sample_spec_ok(1)] by blast
  have c: "cc_schema sample_coordinator = sample_schema" "cc_path sample_coordinator = ''f''" "cc_on_error sample_coordinator = ErrorPolicySkip"
      "cc_discover sample_coordinator = Inr [''a:1'', ''b:2'']"
    by (simp_all add: sample_coordinator_def static_discoverer_def)
  have texts: "list_all valid_utf8 (config_texts (query_options sample_coordinator sample_spec []))"
    by (simp add: config_texts_def query_options_def c) (simp add: sample_schema_def sample_spec_def)
  have found: "sample_files ''f'' = Some sample_csv" by (simp add: sample_files_def)
  have room: "length (lines_of sample_csv) \<le> max_groups" by (simp add: sample_csv_lines max_groups_def)
  have keys: "\<forall>row \<in> set (file_rows sample_agg ErrorPolicySkip sample_schema sample_csv). text_key (fst row)"
    by (simp add: sample_file_rows text_key_def string_value_def zero_value_def)
  note q = query_answers [where cfg = sample_coordinator and net = sample_net and fs = sample_files and lib = sample_lib, unfolded c,
      OF req sample_facts(1,1) sample_spec_ok(3,1,2,4) refl found refl _ sample_served _ texts room keys insertion_sort_sorts]
  then obtain res where "query_returns insertion_sort sample_lib sample_seed sample_seed sample_files sample_net sample_coordinator req res"
    by auto
  with q req show ?thesis by fastforce
qed



text \<open>
  Discovery is stable: DNS discovery returns one address per resolved host, sorted, so the same set of pods, resolved
  in any order, gives the same shard assignment.
\<close>

theorem dns_discovery_stable:
  assumes "lookup host = Inr ips" and "lookup' host = Inr ips'" and "mset ips = mset ips'" and "ips \<noteq> []"
  shows "\<exists>addrs. dns_discoverer lookup host port = Inr addrs \<and> dns_discoverer lookup' host port = Inr addrs
     \<and> sorted addrs \<and> mset addrs = image_mset (\<lambda>ip. join_host_port ip (format_int port)) (mset ips)"
proof -
  define f where "f = (\<lambda>ip. join_host_port ip (format_int port))"
  have "ips' \<noteq> []" using assms(3,4) by auto
  moreover have "sort (map f ips) = sort (map f ips')"
    using assms(3) by (intro properties_for_sort) (simp_all add: mset_map)
  ultimately show ?thesis using assms by (simp add: dns_discoverer_def f_def)
qed

theorem dns_discovery_stable_witness:
  "\<exists>addrs. dns_discoverer (\<lambda>_. Inr [''10.0.0.2'', ''10.0.0.1'']) ''h'' 1 = Inr addrs
     \<and> dns_discoverer (\<lambda>_. Inr [''10.0.0.1'', ''10.0.0.2'']) ''h'' 1 = Inr addrs"
  using dns_discovery_stable [of "\<lambda>_. Inr [''10.0.0.2'', ''10.0.0.1'']" "''h''" "[''10.0.0.2'', ''10.0.0.1'']"
      "\<lambda>_. Inr [''10.0.0.1'', ''10.0.0.2'']" "[''10.0.0.1'', ''10.0.0.2'']" 1] by auto

end
