(* ===== verification/Query.thy ===== *)
theory Query
  imports AggSpec
begin

text \<open>
  \<open>internal/query/query.go\<close>: the query language. The parser's token slice and position are one list, the
  tokens from the position on; \<open>lex\<close> ends it with \<open>tokEOF\<close>, which \<open>advance\<close> does not pass.
\<close>

section \<open>Tokens\<close>

datatype token_kind = TokEOF | TokIdent | TokStar | TokLParen | TokRParen | TokComma

record token =
  tk_kind :: token_kind
  tk_text :: string
  tk_pos :: nat

datatype query_error =
    QEmpty
  | QChar byte nat
  | QExpected string nat
  | QStarOutsideCount string
  | QInside string nat
  | QTrailing nat
  | QBareNotGrouped string
  | QFunc spec_error

definition is_blank :: "byte \<Rightarrow> bool" where
  "is_blank c \<longleftrightarrow> c = CHR '' '' \<or> c = CHR 0x09 \<or> c = CHR 0x0A \<or> c = CHR 0x0D"

definition is_ident_start :: "byte \<Rightarrow> bool" where
  "is_ident_start c \<longleftrightarrow> c = CHR ''_'' \<or> (97 \<le> code c \<and> code c \<le> 122) \<or> (65 \<le> code c \<and> code c \<le> 90)"

definition is_ident_part :: "byte \<Rightarrow> bool" where
  "is_ident_part c \<longleftrightarrow> is_ident_start c \<or> (48 \<le> code c \<and> code c \<le> 57) \<or> c = CHR ''.''"

definition plain_token :: "token_kind \<Rightarrow> nat \<Rightarrow> token" where
  "plain_token k i = \<lparr>tk_kind = k, tk_text = [], tk_pos = i\<rparr>"

definition ident_token :: "string \<Rightarrow> nat \<Rightarrow> token" where
  "ident_token s i = \<lparr>tk_kind = TokIdent, tk_text = s, tk_pos = i\<rparr>"

definition cons_token :: "token \<Rightarrow> query_error + token list \<Rightarrow> query_error + token list" where
  "cons_token t r = map_sum id ((#) t) r"

function lex_from :: "nat \<Rightarrow> bytes \<Rightarrow> query_error + token list" where
  "lex_from i [] = Inr [plain_token TokEOF i]"
| "lex_from i (c # cs) =
     (if is_blank c then lex_from (i + 1) cs
      else if c = CHR ''('' then cons_token (plain_token TokLParen i) (lex_from (i + 1) cs)
      else if c = CHR '')'' then cons_token (plain_token TokRParen i) (lex_from (i + 1) cs)
      else if c = CHR '','' then cons_token (plain_token TokComma i) (lex_from (i + 1) cs)
      else if c = CHR ''*'' then cons_token (plain_token TokStar i) (lex_from (i + 1) cs)
      else if is_ident_start c then
        (let w = takeWhile is_ident_part cs
         in cons_token (ident_token (c # w) i) (lex_from (i + 1 + length w) (dropWhile is_ident_part cs)))
      else Inl (QChar c i))"
  by pat_completeness auto
termination
  by (relation "measure (\<lambda>(i, s). length s)") (auto simp: le_imp_less_Suc length_dropWhile_le)

definition lex :: "bytes \<Rightarrow> query_error + token list" where
  "lex s = lex_from 0 s"

section \<open>The parser\<close>

type_synonym 'a parsed = "query_error + ('a \<times> token list)"

definition peek :: "token list \<Rightarrow> token" where
  "peek ts = hd ts"

definition advance :: "token list \<Rightarrow> token list" where
  "advance ts = (if 1 < length ts then tl ts else ts)"

definition expect_keyword :: "string \<Rightarrow> token list \<Rightarrow> unit parsed" where
  "expect_keyword word ts =
     (if tk_kind (peek ts) \<noteq> TokIdent \<or> \<not> equal_fold (tk_text (peek ts)) word then Inl (QExpected word (tk_pos (peek ts)))
      else Inr ((), advance ts))"

definition expect_ident :: "token list \<Rightarrow> string parsed" where
  "expect_ident ts =
     (if tk_kind (peek ts) \<noteq> TokIdent then Inl (QExpected ''an identifier'' (tk_pos (peek ts)))
      else Inr (tk_text (peek ts), advance ts))"

definition expect :: "token_kind \<Rightarrow> string \<Rightarrow> token list \<Rightarrow> unit parsed" where
  "expect k what ts =
     (if tk_kind (peek ts) \<noteq> k then Inl (QExpected what (tk_pos (peek ts))) else Inr ((), advance ts))"

datatype select_item = ItemCount | ItemFunc string string | ItemBare string

definition parse_select_item :: "token list \<Rightarrow> select_item parsed" where
  "parse_select_item ts =
     (case expect_ident ts of
        Inl _ \<Rightarrow> Inl (QExpected ''a column, function, or COUNT(*) in the SELECT list'' (tk_pos (peek ts)))
      | Inr (name, ts1) \<Rightarrow>
          (if tk_kind (peek ts1) \<noteq> TokLParen then Inr (ItemBare name, ts1)
           else
             (let ts2 = advance ts1
              in if tk_kind (peek ts2) = TokStar then
                   (if \<not> equal_fold name ''COUNT'' then Inl (QStarOutsideCount name)
                    else (case expect TokRParen '')'' (advance ts2) of
                        Inl e \<Rightarrow> Inl e
                      | Inr (_, ts3) \<Rightarrow> Inr (ItemCount, ts3)))
                 else
                   (case expect_ident ts2 of
                      Inl _ \<Rightarrow> Inl (QInside name (tk_pos (peek ts2)))
                    | Inr (column, ts3) \<Rightarrow>
                        (case expect TokRParen '')'' ts3 of
                           Inl e \<Rightarrow> Inl e
                         | Inr (_, ts4) \<Rightarrow> Inr (ItemFunc name column, ts4))))))"

lemma advance_length: "length (advance ts) \<le> length ts"
  by (simp add: advance_def)

lemma advance_two [simp]: "advance (t # u # ts) = u # ts" "advance [t] = [t]" "peek (t # ts) = t"
  by (simp_all add: advance_def peek_def)

lemma select_item_length: "parse_select_item ts = Inr (it, ts') \<Longrightarrow> length ts' \<le> length (advance ts)"
  by (auto simp: parse_select_item_def expect_ident_def expect_def Let_def
      split: if_splits sum.splits intro: advance_length [THEN order_trans])

text \<open>The loop over the commas.\<close>

function select_list_loop :: "token list \<Rightarrow> select_item list parsed" where
  "select_list_loop ts =
     (if tk_kind (peek ts) = TokComma then
        (case parse_select_item (advance ts) of
           Inl e \<Rightarrow> Inl e
         | Inr (it, ts') \<Rightarrow> map_sum id (\<lambda>(its, ts''). (it # its, ts'')) (select_list_loop ts'))
      else Inr ([], ts))"
  by pat_completeness auto
termination
proof (relation "measure length")
  fix ts p it ts'
  assume a: "tk_kind (peek ts) = TokComma" "parse_select_item (advance ts) = Inr p" "(it, ts') = p"
  show "(ts', ts) \<in> measure length"
  proof (cases "1 < length ts")
    case True
    then show ?thesis using select_item_length [of "advance ts" it ts'] advance_length [of "advance ts"] a
      by (simp add: advance_def)
  next
    case False
    then have "advance ts = ts" by (simp add: advance_def)
    then show ?thesis using a by (simp add: parse_select_item_def expect_ident_def)
  qed
qed simp

declare select_list_loop.simps [simp del]

definition parse_select_list :: "token list \<Rightarrow> select_item list parsed" where
  "parse_select_list ts =
     (case parse_select_item ts of
        Inl e \<Rightarrow> Inl e
      | Inr (it, ts') \<Rightarrow> map_sum id (\<lambda>(its, ts''). (it # its, ts'')) (select_list_loop ts'))"

lemma expect_ident_length: "expect_ident ts = Inr (c, ts') \<Longrightarrow> ts' = advance ts"
  by (auto simp: expect_ident_def split: if_splits)

function col_list_loop :: "token list \<Rightarrow> string list parsed" where
  "col_list_loop ts =
     (if tk_kind (peek ts) = TokComma then
        (case expect_ident (advance ts) of
           Inl _ \<Rightarrow> Inl (QExpected ''a column after ,'' (tk_pos (peek (advance ts))))
         | Inr (col, ts') \<Rightarrow> map_sum id (\<lambda>(cols, ts''). (col # cols, ts'')) (col_list_loop ts'))
      else Inr ([], ts))"
  by pat_completeness auto
termination
proof (relation "measure length")
  fix ts p col ts'
  assume a: "tk_kind (peek ts) = TokComma" "expect_ident (advance ts) = Inr p" "(col, ts') = p"
  show "(ts', ts) \<in> measure length"
  proof (cases "1 < length ts")
    case True
    then show ?thesis using expect_ident_length [of "advance ts" col ts'] advance_length [of "advance ts"] a
      by (simp add: advance_def)
  next
    case False
    then have "advance ts = ts" by (simp add: advance_def)
    then show ?thesis using a by (simp add: expect_ident_def)
  qed
qed simp

declare col_list_loop.simps [simp del]

definition parse_col_list :: "token list \<Rightarrow> string list parsed" where
  "parse_col_list ts =
     (case expect_ident ts of
        Inl _ \<Rightarrow> Inl (QExpected ''at least one column after GROUP BY'' (tk_pos (peek ts)))
      | Inr (col, ts') \<Rightarrow> map_sum id (\<lambda>(cols, ts''). (col # cols, ts'')) (col_list_loop ts'))"

text \<open>The part of \<open>Parse\<close> from the tokens to the select list and the group-by columns.\<close>

definition parse_group_by :: "token list \<Rightarrow> string list parsed" where
  "parse_group_by ts =
     (if tk_kind (peek ts) = TokIdent \<and> equal_fold (tk_text (peek ts)) ''GROUP'' then
        (case expect_keyword ''BY'' (advance ts) of Inl e \<Rightarrow> Inl e | Inr (_, ts') \<Rightarrow> parse_col_list ts')
      else Inr ([], ts))"

definition parse_tokens :: "token list \<Rightarrow> query_error + (select_item list \<times> string list)" where
  "parse_tokens ts =
     (case expect_keyword ''SELECT'' ts of
        Inl e \<Rightarrow> Inl e
      | Inr (_, ts1) \<Rightarrow>
          (case parse_select_list ts1 of
             Inl e \<Rightarrow> Inl e
           | Inr (items, ts2) \<Rightarrow>
               (case parse_group_by ts2 of
                  Inl e \<Rightarrow> Inl e
                | Inr (cols, ts3) \<Rightarrow>
                    (if tk_kind (peek ts3) \<noteq> TokEOF then Inl (QTrailing (tk_pos (peek ts3))) else Inr (items, cols)))))"

text \<open>The loop over the items, with the measures so far and the map \<open>byColumn\<close>.\<close>

fun build_measures :: "(bytes \<Rightarrow> bytes) \<Rightarrow> string list \<Rightarrow> select_item list \<Rightarrow> measure_spec list \<Rightarrow> (string \<Rightarrow> nat option)
    \<Rightarrow> query_error + measure_spec list" where
  "build_measures u cols [] ms by_col = Inr ms"
| "build_measures u cols (ItemCount # its) ms by_col = build_measures u cols its ms by_col"
| "build_measures u cols (ItemBare c # its) ms by_col =
     (if c \<notin> set cols then Inl (QBareNotGrouped c) else build_measures u cols its ms by_col)"
| "build_measures u cols (ItemFunc f c # its) ms by_col =
     (case parse_agg_func u f of
        Inl e \<Rightarrow> Inl (QFunc e)
      | Inr fn \<Rightarrow>
          (case by_col c of
             Some idx \<Rightarrow> build_measures u cols its (ms[idx := (ms ! idx)\<lparr>ms_funcs := ms_funcs (ms ! idx) @ [fn]\<rparr>]) by_col
           | None \<Rightarrow> build_measures u cols its (ms @ [\<lparr>ms_column = c, ms_funcs = [fn]\<rparr>]) (by_col(c \<mapsto> length ms))))"

definition parse_query :: "(bytes \<Rightarrow> bytes) \<Rightarrow> bytes \<Rightarrow> query_error + agg_spec" where
  "parse_query u s =
     (if trim_space s = [] then Inl QEmpty
      else (case lex s of
          Inl e \<Rightarrow> Inl e
        | Inr toks \<Rightarrow>
            (case parse_tokens toks of
               Inl e \<Rightarrow> Inl e
             | Inr (items, cols) \<Rightarrow>
                 map_sum id (\<lambda>ms. \<lparr>group_by = cols, measures = ms\<rparr>) (build_measures u cols items [] Map.empty))))"

section \<open>The lexer\<close>

text \<open>What a token looks like in the source.\<close>

definition print_token :: "token \<Rightarrow> bytes" where
  "print_token t =
     (case tk_kind t of TokEOF \<Rightarrow> [] | TokIdent \<Rightarrow> tk_text t | TokStar \<Rightarrow> ''*'' | TokLParen \<Rightarrow> ''('' | TokRParen \<Rightarrow> '')''
      | TokComma \<Rightarrow> '','')"

definition ended :: "token list \<Rightarrow> bool" where
  "ended ts \<longleftrightarrow> (\<exists>us e. ts = us @ [e] \<and> tk_kind e = TokEOF \<and> (\<forall>u \<in> set us. tk_kind u \<noteq> TokEOF))"

lemma ended_Cons: "ended (t # ts) \<longleftrightarrow> (if tk_kind t = TokEOF then ts = [] else ended ts)"
  unfolding ended_def by (cases ts rule: rev_cases) (auto simp: append_eq_Cons_conv Cons_eq_append_conv)

lemma ended_nonempty: "ended ts \<Longrightarrow> ts \<noteq> []"
  by (auto simp: ended_def)

lemma advance_ended: "ended ts \<Longrightarrow> tk_kind (peek ts) \<noteq> TokEOF \<Longrightarrow> \<exists>t. ts = t # advance ts \<and> ended (advance ts) \<and> t = peek ts"
  by (cases ts; cases "tl ts") (auto simp: ended_def peek_def advance_def append_eq_Cons_conv Cons_eq_append_conv)

definition token_char :: "byte \<Rightarrow> bool" where
  "token_char c \<longleftrightarrow> is_blank c \<or> c \<in> {CHR ''('', CHR '')'', CHR '','', CHR ''*''} \<or> is_ident_start c"

lemma cons_token_cases: "cons_token t r = Inr toks \<longleftrightarrow> (\<exists>ts. r = Inr ts \<and> toks = t # ts)" "cons_token t r = Inl e \<longleftrightarrow> r = Inl e"
  by (cases r; auto simp: cons_token_def)+

text \<open>Every token stands at its position, and together they are the source without its blanks.\<close>

definition token_at :: "nat \<Rightarrow> bytes \<Rightarrow> token \<Rightarrow> bool" where
  "token_at i s t \<longleftrightarrow> i \<le> tk_pos t \<and> take (length (print_token t)) (drop (tk_pos t - i) s) = print_token t"

definition lexed :: "nat \<Rightarrow> bytes \<Rightarrow> token list \<Rightarrow> bool" where
  "lexed i s toks \<longleftrightarrow> ended toks \<and> (\<forall>t \<in> set toks. token_at i s t)
     \<and> concat (map print_token toks) = filter (\<lambda>c. \<not> is_blank c) s"

lemma token_at_drop:
  assumes "token_at (i + k) (drop k s) t"
  shows "token_at i s t"
proof -
  have "tk_pos t - (i + k) + k = tk_pos t - i" using assms by (simp add: token_at_def)
  then show ?thesis using assms by (simp add: token_at_def)
qed

lemma lexed_skip: "lexed (i + 1) cs toks \<Longrightarrow> is_blank c \<Longrightarrow> lexed i (c # cs) toks"
  using token_at_drop [of i 1 "c # cs"] by (simp add: lexed_def)

lemma lexed_token:
  assumes "lexed (i + k) (drop k s) toks" and "print_token t = take k s" and "length (print_token t) = k" and "tk_pos t = i"
    and "tk_kind t \<noteq> TokEOF" and "\<forall>c \<in> set (take k s). \<not> is_blank c"
  shows "lexed i s (t # toks)"
proof -
  have "filter (\<lambda>c. \<not> is_blank c) s = take k s @ filter (\<lambda>c. \<not> is_blank c) (drop k s)"
    using assms(6) by (subst append_take_drop_id [of k s, symmetric], simp only: filter_append) simp
  moreover have "token_at i s t" using assms(2-4) by (simp add: token_at_def)
  ultimately show ?thesis
    using assms token_at_drop by (auto simp: lexed_def ended_Cons)
qed

lemma lexed_char:
  assumes "lexed (i + 1) cs ts" and "print_token (plain_token k i) = [c]" and "\<not> is_blank c"
  shows "lexed i (c # cs) (plain_token k i # ts)"
  using assms by (intro lexed_token [where k = 1]) (auto simp: plain_token_def print_token_def split: token_kind.splits)

lemma lex_from_sound: "lex_from i s = Inr toks \<Longrightarrow> lexed i s toks"
proof (induction i s arbitrary: toks rule: lex_from.induct)
  case (1 i)
  then have "toks = [plain_token TokEOF i]" by simp
  then show ?case by (simp add: plain_token_def print_token_def ended_Cons lexed_def token_at_def)
next
  case (2 i c cs)
  show ?case
  proof (cases "is_blank c \<or> c \<in> {CHR ''('', CHR '')'', CHR '','', CHR ''*''}")
    case True
    have blanks: "\<not> is_blank (CHR ''('')" "\<not> is_blank (CHR '')'')" "\<not> is_blank (CHR '','')" "\<not> is_blank (CHR ''*'')"
      by (simp_all add: is_blank_def)
    have print: "print_token (plain_token TokLParen i) = ''(''" "print_token (plain_token TokRParen i) = '')''"
        "print_token (plain_token TokComma i) = '',''" "print_token (plain_token TokStar i) = ''*''"
      by (simp_all add: print_token_def plain_token_def)
    consider "is_blank c" | "c = CHR ''(''" | "c = CHR '')''" | "c = CHR '',''" | "c = CHR ''*''" using True by blast
    then show ?thesis
    proof cases
      case 1
      then show ?thesis using 2(1,7) lexed_skip by simp
    next
      case 2: 2
      then show ?thesis using "2.IH"(2) "2.prems" lexed_char print blanks by (auto simp: cons_token_cases)
    next
      case 3
      then show ?thesis using "2.IH"(3) "2.prems" lexed_char print blanks by (auto simp: cons_token_cases)
    next
      case 4
      then show ?thesis using "2.IH"(4) "2.prems" lexed_char print blanks by (auto simp: cons_token_cases)
    next
      case 5
      then show ?thesis using "2.IH"(5) "2.prems" lexed_char print blanks by (auto simp: cons_token_cases)
    qed
  next
    case False
    then have id: "is_ident_start c" using "2.prems" by (auto split: if_splits)
    define w where "w = takeWhile is_ident_part cs"
    obtain ts where ts: "lex_from (i + 1 + length w) (dropWhile is_ident_part cs) = Inr ts" "toks = ident_token (c # w) i # ts"
      using "2.prems" False id by (auto simp: cons_token_cases w_def Let_def)
    have drop: "dropWhile is_ident_part cs = drop (length w) cs" by (simp add: w_def dropWhile_eq_drop)
    have IH: "lexed (i + 1 + length w) (drop (length w) cs) ts"
      using "2.IH"(6) [OF _ _ _ _ _ id w_def] ts(1) False by (simp add: drop)
    have part: "is_ident_part x \<Longrightarrow> \<not> is_blank x" for x
      by (auto simp: is_ident_part_def is_ident_start_def is_blank_def)
    have tw: "take (length w) cs = w" by (metis w_def takeWhile_eq_take)
    have "\<forall>x \<in> set (take (Suc (length w)) (c # cs)). \<not> is_blank x"
      unfolding take_Suc_Cons tw using part False by (auto simp: w_def dest: set_takeWhileD)
    then show ?thesis
      unfolding ts(2) using IH tw
      by (intro lexed_token [where k = "Suc (length w)"]) (simp_all add: ident_token_def print_token_def)
  qed
qed

lemma lex_from_error:
  "lex_from i s = Inl e \<Longrightarrow> \<exists>j < length s. e = QChar (s ! j) (i + j) \<and> \<not> token_char (s ! j)"
proof (induction i s rule: lex_from.induct)
  case (1 i)
  then show ?case by simp
next
  case (2 i c cs)
  have shift: "\<exists>j < length (c # cs). e = QChar ((c # cs) ! j) (i + j) \<and> \<not> token_char ((c # cs) ! j)"
    if "\<exists>j < length (drop k cs). e = QChar (drop k cs ! j) (i + 1 + k + j) \<and> \<not> token_char (drop k cs ! j)" for k
  proof -
    from that obtain j where "j < length (drop k cs)" "e = QChar (drop k cs ! j) (i + 1 + k + j)" "\<not> token_char (drop k cs ! j)" by blast
    then show ?thesis by (intro exI [of _ "Suc (k + j)"]) (simp add: add.commute add.left_commute)
  qed
  show ?case
  proof (cases "is_blank c \<or> c \<in> {CHR ''('', CHR '')'', CHR '','', CHR ''*''}")
    case True
    then show ?thesis using 2 shift [of 0] by (auto simp: cons_token_cases is_blank_def split: if_splits)
  next
    case False
    show ?thesis
    proof (cases "is_ident_start c")
      case True
      define w where "w = takeWhile is_ident_part cs"
      have "dropWhile is_ident_part cs = drop (length w) cs" by (simp add: w_def dropWhile_eq_drop)
      then show ?thesis
        using 2(6) [OF _ _ _ _ _ True w_def] 2(7) False True shift [of "length w"]
        by (auto simp: cons_token_cases Let_def simp flip: w_def)
    next
      case no: False
      then show ?thesis using 2(7) False by (intro exI [of _ 0]) (auto simp: token_char_def)
    qed
  qed
qed

section \<open>The grammar\<close>

inductive item_tokens :: "token list \<Rightarrow> select_item \<Rightarrow> bool" where
  item_bare: "tk_kind t = TokIdent \<Longrightarrow> item_tokens [t] (ItemBare (tk_text t))"
| item_count: "\<lbrakk>map tk_kind [f, l, x, r] = [TokIdent, TokLParen, TokStar, TokRParen]; equal_fold (tk_text f) ''COUNT''\<rbrakk> \<Longrightarrow>
     item_tokens [f, l, x, r] ItemCount"
| item_func: "map tk_kind [f, l, x, r] = [TokIdent, TokLParen, TokIdent, TokRParen] \<Longrightarrow>
     item_tokens [f, l, x, r] (ItemFunc (tk_text f) (tk_text x))"

inductive item_list_tokens :: "token list \<Rightarrow> select_item list \<Rightarrow> bool" where
  items_one: "item_tokens ts it \<Longrightarrow> item_list_tokens ts [it]"
| items_more: "\<lbrakk>item_tokens ts it; tk_kind c = TokComma; item_list_tokens us its\<rbrakk> \<Longrightarrow> item_list_tokens (ts @ c # us) (it # its)"

inductive col_list_tokens :: "token list \<Rightarrow> string list \<Rightarrow> bool" where
  cols_one: "tk_kind t = TokIdent \<Longrightarrow> col_list_tokens [t] [tk_text t]"
| cols_more: "\<lbrakk>tk_kind t = TokIdent; tk_kind c = TokComma; col_list_tokens us cols\<rbrakk> \<Longrightarrow> col_list_tokens (t # c # us) (tk_text t # cols)"

definition keyword :: "string \<Rightarrow> token \<Rightarrow> bool" where
  "keyword word t \<longleftrightarrow> tk_kind t = TokIdent \<and> equal_fold (tk_text t) word"

inductive query_tokens :: "token list \<Rightarrow> select_item list \<Rightarrow> string list \<Rightarrow> bool" where
  query_plain: "\<lbrakk>keyword ''SELECT'' s; item_list_tokens ts items; tk_kind e = TokEOF\<rbrakk> \<Longrightarrow> query_tokens (s # ts @ [e]) items []"
| query_group: "\<lbrakk>keyword ''SELECT'' s; item_list_tokens ts items; keyword ''GROUP'' g; keyword ''BY'' b; col_list_tokens us cols;
     tk_kind e = TokEOF\<rbrakk> \<Longrightarrow> query_tokens (s # ts @ g # b # us @ [e]) items cols"

inductive_cases item_tokensE: "item_tokens ts it"
inductive_cases col_list_tokensE: "col_list_tokens ts cols"

section \<open>The parser accepts the grammar and nothing else\<close>

text \<open>Each parser function removes exactly the tokens of what it returns.\<close>

lemma expect_ident_sound:
  "ended ts \<Longrightarrow> expect_ident ts = Inr (c, ts') \<Longrightarrow> \<exists>t. ts = t # ts' \<and> tk_kind t = TokIdent \<and> c = tk_text t \<and> ended ts'"
  using advance_ended [of ts] by (auto simp: expect_ident_def split: if_splits)

lemma expect_sound:
  "ended ts \<Longrightarrow> k \<noteq> TokEOF \<Longrightarrow> expect k what ts = Inr (x, ts') \<Longrightarrow> \<exists>t. ts = t # ts' \<and> tk_kind t = k \<and> ended ts'"
  using advance_ended [of ts] by (auto simp: expect_def split: if_splits)

lemma expect_keyword_sound:
  "ended ts \<Longrightarrow> expect_keyword w ts = Inr (x, ts') \<Longrightarrow> \<exists>t. ts = t # ts' \<and> keyword w t \<and> ended ts'"
  using advance_ended [of ts] by (auto simp: expect_keyword_def keyword_def split: if_splits)

lemma parse_item_sound:
  assumes "ended ts" and "parse_select_item ts = Inr (it, ts')"
  shows "\<exists>us. ts = us @ ts' \<and> item_tokens us it \<and> ended ts'"
proof -
  obtain name ts1 where n: "expect_ident ts = Inr (name, ts1)" using assms(2)
    by (auto simp: parse_select_item_def split: sum.splits)
  obtain f where f: "ts = f # ts1" "tk_kind f = TokIdent" "name = tk_text f" "ended ts1"
    using expect_ident_sound [OF assms(1) n] by blast
  show ?thesis
  proof (cases "tk_kind (peek ts1) = TokLParen")
    case False
    then have "it = ItemBare name" "ts' = ts1" using assms(2) n by (auto simp: parse_select_item_def)
    then show ?thesis using f item_bare by (intro exI [of _ "[f]"]) auto
  next
    case True
    then obtain l where l: "ts1 = l # advance ts1" "ended (advance ts1)" "tk_kind l = TokLParen"
      using advance_ended [OF f(4)] by auto
    show ?thesis
    proof (cases "tk_kind (peek (advance ts1)) = TokStar")
      case star: True
      then obtain x where x: "advance ts1 = x # advance (advance ts1)" "ended (advance (advance ts1))" "tk_kind x = TokStar"
        using advance_ended [OF l(2)] by auto
      have c: "equal_fold name ''COUNT''" "\<exists>u. expect TokRParen '')'' (advance (advance ts1)) = Inr (u, ts')" "it = ItemCount"
        using assms(2) n True star by (auto simp: parse_select_item_def split: if_splits sum.splits)
      then obtain r where r: "advance (advance ts1) = r # ts'" "tk_kind r = TokRParen" "ended ts'"
        using expect_sound [OF x(2)] by blast
      have "ts = [f, l, x, r] @ ts'" using f(1) l(1) x(1) r(1) by (metis append_Cons append_Nil)
      moreover have "item_tokens [f, l, x, r] it" using c f l x r by (auto intro: item_count)
      ultimately show ?thesis using r(3) by blast
    next
      case False
      obtain col ts3 u where c: "expect_ident (advance ts1) = Inr (col, ts3)" "expect TokRParen '')'' ts3 = Inr (u, ts')" "it = ItemFunc name col"
        using assms(2) n True False by (auto simp: parse_select_item_def Let_def split: if_splits sum.splits)
      obtain x where x: "advance ts1 = x # ts3" "tk_kind x = TokIdent" "col = tk_text x" "ended ts3"
        using expect_ident_sound [OF l(2) c(1)] by blast
      obtain r where r: "ts3 = r # ts'" "tk_kind r = TokRParen" "ended ts'" using expect_sound [OF x(4) _ c(2)] by auto
      have "ts = [f, l, x, r] @ ts'" using f(1) l(1) x(1) r(1) by (metis append_Cons append_Nil)
      moreover have "item_tokens [f, l, x, r] it" unfolding c(3) f(3) x(3) using f l x r by (intro item_func) simp
      ultimately show ?thesis using r(3) by blast
    qed
  qed
qed

lemma parse_item_complete:
  assumes "item_tokens us it" and "ts \<noteq> []" and "tk_kind (hd ts) \<noteq> TokLParen"
  shows "parse_select_item (us @ ts) = Inr (it, ts)"
proof -
  obtain h rest where ts: "ts = h # rest" using assms(2) by (cases ts) auto
  from assms(1) show ?thesis
    using assms(3) by cases (auto simp: parse_select_item_def expect_ident_def expect_def ts)
qed

lemma item_tokens_nonempty: "item_tokens us it \<Longrightarrow> us \<noteq> [] \<and> tk_kind (hd us) = TokIdent"
  by (induction rule: item_tokens.induct) auto

lemma item_list_head: "item_list_tokens us its \<Longrightarrow> us \<noteq> [] \<and> tk_kind (hd us) = TokIdent"
  by (induction rule: item_list_tokens.induct) (auto dest: item_tokens_nonempty)

lemma select_list_sound:
  assumes "ended ts" and "parse_select_list ts = Inr (its, ts')"
  shows "\<exists>us. ts = us @ ts' \<and> item_list_tokens us its \<and> ended ts'"
  using assms
proof (induction "length ts" arbitrary: ts its rule: less_induct)
  case less
  obtain it ts1 its' where p: "parse_select_item ts = Inr (it, ts1)" "select_list_loop ts1 = Inr (its', ts')" "its = it # its'"
    using less.prems(2) by (auto simp: parse_select_list_def map_sum_def split: sum.splits)
  obtain us where us: "ts = us @ ts1" "item_tokens us it" "ended ts1" using parse_item_sound [OF less.prems(1) p(1)] by blast
  show ?case
  proof (cases "tk_kind (peek ts1) = TokComma")
    case False
    then have "its' = []" "ts' = ts1" using p(2) by (simp_all add: select_list_loop.simps [of ts1])
    then show ?thesis using us p(3) items_one by blast
  next
    case True
    then obtain c where c: "ts1 = c # advance ts1" "ended (advance ts1)" "tk_kind c = TokComma"
      using advance_ended [OF us(3)] by auto
    have "parse_select_list (advance ts1) = Inr (its', ts')"
      using p(2) True by (simp add: select_list_loop.simps [of ts1] parse_select_list_def)
    moreover have "length (advance ts1) < length ts" using us(1) c(1) by (metis length_Cons length_append less_Suc_eq trans_less_add2)
    ultimately obtain vs where vs: "advance ts1 = vs @ ts'" "item_list_tokens vs its'" "ended ts'"
      using less.hyps c(2) by blast
    have "ts = (us @ c # vs) @ ts'" using us(1) c(1) vs(1) by simp
    then show ?thesis using items_more [OF us(2) c(3) vs(2)] p(3) vs(3) by blast
  qed
qed

lemma select_list_complete:
  assumes "item_list_tokens us its" and "ts \<noteq> []" and "tk_kind (hd ts) \<notin> {TokLParen, TokComma}"
  shows "parse_select_list (us @ ts) = Inr (its, ts)"
  using assms
proof (induction rule: item_list_tokens.induct)
  case (items_one us it)
  then have "parse_select_item (us @ ts) = Inr (it, ts)" by (intro parse_item_complete) auto
  moreover have "select_list_loop ts = Inr ([], ts)" using items_one by (simp add: select_list_loop.simps [of ts] peek_def)
  ultimately show ?case by (simp add: parse_select_list_def)
next
  case (items_more us it c vs its)
  have "parse_select_item (us @ c # vs @ ts) = Inr (it, c # vs @ ts)"
    using items_more by (intro parse_item_complete) auto
  moreover have "advance (c # vs @ ts) = vs @ ts" using items_more.prems by (simp add: advance_def)
  ultimately show ?case
    using items_more by (simp add: parse_select_list_def select_list_loop.simps [of "c # vs @ ts"])
qed

lemma col_list_sound:
  assumes "ended ts" and "parse_col_list ts = Inr (cols, ts')"
  shows "\<exists>us. ts = us @ ts' \<and> col_list_tokens us cols \<and> ended ts'"
  using assms
proof (induction "length ts" arbitrary: ts cols rule: less_induct)
  case less
  obtain col ts1 cols' where p: "expect_ident ts = Inr (col, ts1)" "col_list_loop ts1 = Inr (cols', ts')" "cols = col # cols'"
    using less.prems(2) by (auto simp: parse_col_list_def map_sum_def split: sum.splits)
  obtain t where t: "ts = t # ts1" "tk_kind t = TokIdent" "col = tk_text t" "ended ts1"
    using expect_ident_sound [OF less.prems(1) p(1)] by blast
  show ?case
  proof (cases "tk_kind (peek ts1) = TokComma")
    case False
    then have "cols' = []" "ts' = ts1" using p(2) by (simp_all add: col_list_loop.simps [of ts1])
    then show ?thesis using t p(3) cols_one [of t] by (intro exI [of _ "[t]"]) simp
  next
    case True
    then obtain c where c: "ts1 = c # advance ts1" "ended (advance ts1)" "tk_kind c = TokComma"
      using advance_ended [OF t(4)] by auto
    have "parse_col_list (advance ts1) = Inr (cols', ts')"
      using p(2) True by (auto simp: col_list_loop.simps [of ts1] parse_col_list_def map_sum_def split: sum.splits)
    moreover have "length (advance ts1) < length ts" using t(1) c(1) by (metis length_Cons less_SucI lessI)
    ultimately obtain vs where vs: "advance ts1 = vs @ ts'" "col_list_tokens vs cols'" "ended ts'"
      using less.hyps c(2) by blast
    have "ts = (t # c # vs) @ ts'" using t(1) c(1) vs(1) by simp
    then show ?thesis using cols_more [OF t(2) c(3) vs(2)] p(3) t(3) vs(3) by blast
  qed
qed

lemma col_list_complete:
  assumes "col_list_tokens us cols" and "ts \<noteq> []" and "tk_kind (hd ts) \<noteq> TokComma"
  shows "parse_col_list (us @ ts) = Inr (cols, ts)"
  using assms
proof (induction rule: col_list_tokens.induct)
  case (cols_one t)
  then obtain h rest where "ts = h # rest" by (cases ts) auto
  then show ?case using cols_one by (simp add: parse_col_list_def expect_ident_def col_list_loop.simps [of "h # rest"])
next
  case (cols_more t c vs cols)
  have "advance (c # vs @ ts) = vs @ ts" using cols_more.prems by (simp add: advance_def)
  moreover obtain a b aa where "expect_ident (vs @ ts) = Inr (a, b)" "col_list_loop b = Inr (aa, ts)" "cols = a # aa"
    using cols_more by (auto simp: parse_col_list_def map_sum_def split: sum.splits)
  moreover have "expect_ident (t # c # vs @ ts) = Inr (tk_text t, c # vs @ ts)" using cols_more by (simp add: expect_ident_def)
  ultimately show ?case
    using cols_more by (simp add: parse_col_list_def col_list_loop.simps [of "c # vs @ ts"])
qed

lemma ended_single: "ended ts \<Longrightarrow> tk_kind (peek ts) = TokEOF \<Longrightarrow> \<exists>e. ts = [e] \<and> tk_kind e = TokEOF"
proof (cases ts)
  case Nil
  then show "ended ts \<Longrightarrow> ?thesis" by (simp add: ended_def)
next
  case (Cons t us)
  then show "ended ts \<Longrightarrow> tk_kind (peek ts) = TokEOF \<Longrightarrow> ?thesis" by (simp add: ended_Cons)
qed

lemma parse_tokens_sound:
  assumes "ended ts" and "parse_tokens ts = Inr (items, cols)"
  shows "query_tokens ts items cols"
proof -
  obtain x ts1 ts2 ts3 where p: "expect_keyword ''SELECT'' ts = Inr (x, ts1)" "parse_select_list ts1 = Inr (items, ts2)"
      "parse_group_by ts2 = Inr (cols, ts3)" "tk_kind (peek ts3) = TokEOF"
    using assms(2) by (auto simp: parse_tokens_def split: sum.splits if_splits)
  obtain s where s: "ts = s # ts1" "keyword ''SELECT'' s" "ended ts1" using expect_keyword_sound [OF assms(1) p(1)] by blast
  obtain us where us: "ts1 = us @ ts2" "item_list_tokens us items" "ended ts2" using select_list_sound [OF s(3) p(2)] by blast
  show ?thesis
  proof (cases "keyword ''GROUP'' (peek ts2)")
    case False
    then have "cols = []" "ts3 = ts2" using p(3) by (auto simp: parse_group_by_def keyword_def split: if_splits)
    moreover obtain e where "ts2 = [e]" "tk_kind e = TokEOF" using ended_single [OF us(3)] p(4) \<open>ts3 = ts2\<close> by blast
    ultimately show ?thesis using query_plain [OF s(2) us(2)] by (simp add: s(1) us(1))
  next
    case True
    then obtain g where g: "ts2 = g # advance ts2" "ended (advance ts2)" "keyword ''GROUP'' g"
      using advance_ended [OF us(3)] by (auto simp: keyword_def)
    obtain y ts4 where b: "expect_keyword ''BY'' (advance ts2) = Inr (y, ts4)" "parse_col_list ts4 = Inr (cols, ts3)"
      using p(3) True by (auto simp: parse_group_by_def keyword_def split: sum.splits)
    obtain w where w: "advance ts2 = w # ts4" "keyword ''BY'' w" "ended ts4" using expect_keyword_sound [OF g(2) b(1)] by blast
    obtain vs where vs: "ts4 = vs @ ts3" "col_list_tokens vs cols" "ended ts3" using col_list_sound [OF w(3) b(2)] by blast
    obtain e where "ts3 = [e]" "tk_kind e = TokEOF" using ended_single [OF vs(3) p(4)] by blast
    then show ?thesis using query_group [OF s(2) us(2) g(3) w(2) vs(2)] s(1) us(1) g(1) w(1) vs(1) by auto
  qed
qed

lemma keyword_step: "keyword w t \<Longrightarrow> ts \<noteq> [] \<Longrightarrow> expect_keyword w (t # ts) = Inr ((), ts)"
  by (simp add: expect_keyword_def keyword_def advance_def)

lemma parse_tokens_complete: "query_tokens ts items cols \<Longrightarrow> parse_tokens ts = Inr (items, cols)"
proof (induction rule: query_tokens.induct)
  case (query_plain s ts items e)
  have "parse_select_list (ts @ [e]) = Inr (items, [e])" using query_plain by (intro select_list_complete) auto
  then show ?case using query_plain keyword_step [of "''SELECT''" s "ts @ [e]"]
    by (simp add: parse_tokens_def parse_group_by_def)
next
  case (query_group s ts items g b us cols e)
  have "parse_select_list (ts @ g # b # us @ [e]) = Inr (items, g # b # us @ [e])"
    using query_group by (intro select_list_complete) (auto simp: keyword_def)
  moreover have "parse_col_list (us @ [e]) = Inr (cols, [e])" using query_group by (intro col_list_complete) auto
  ultimately show ?case
    using query_group keyword_step [of "''SELECT''" s "ts @ g # b # us @ [e]"] keyword_step [of "''BY''" b "us @ [e]"]
    by (simp add: parse_tokens_def parse_group_by_def keyword_def)
qed

text \<open>A text that starts with a visible ASCII character is not blank.\<close>

definition graphic :: "char \<Rightarrow> bool" where
  "graphic c \<longleftrightarrow> 33 \<le> code c \<and> code c < 127"

lemma space_encodings_not_graphic: "w \<in> set space_encodings \<Longrightarrow> w \<noteq> [] \<and> \<not> graphic (hd w)"
proof -
  have "list_all (\<lambda>w. w \<noteq> [] \<and> \<not> graphic (hd w)) space_encodings"
    by (simp add: space_encodings_def byte_seq_def graphic_def)
  then show "w \<in> set space_encodings \<Longrightarrow> w \<noteq> [] \<and> \<not> graphic (hd w)" by (simp add: list_all_iff)
qed

lemma trim_right_graphic: "s = c # t \<Longrightarrow> graphic c \<Longrightarrow> \<exists>u. trim_right s = c # u"
proof (induction s arbitrary: t rule: trim_right.induct)
  case (1 s)
  show ?case
  proof (cases "strip_space_suffix s")
    case None
    then have "trim_right s = s" by (simp add: trim_right.simps [of s])
    then show ?thesis using 1(2) by simp
  next
    case (Some r)
    then obtain w where w: "w \<in> set space_encodings" "length w \<le> length s" "drop (length s - length w) s = w"
        "r = take (length s - length w) s"
      by (auto simp: strip_space_suffix_def dest!: find_SomeD)
    have "length w \<noteq> length s"
    proof
      assume "length w = length s"
      then have "w = s" using w(3) by simp
      then show False using space_encodings_not_graphic [OF w(1)] 1(2,3) by simp
    qed
    then have "r = c # take (length s - length w - 1) t" using w(2,4) 1(2) by (simp add: take_Cons')
    from 1(1) [OF Some this 1(3)] show ?thesis using Some by (simp add: trim_right.simps [of s])
  qed
qed

lemma trim_space_graphic:
  assumes "graphic (hd s)" and "s \<noteq> []"
  shows "trim_space s \<noteq> []"
proof -
  obtain c t where s: "s = c # t" "graphic c" using assms by (cases s) auto
  have "take (length w) s \<noteq> w" if "w \<in> set space_encodings" for w
    using space_encodings_not_graphic [OF that] s by (cases w) auto
  then have "trim_left s = s"
    using find_None_iff [of "\<lambda>w. take (length w) s = w" space_encodings]
    by (simp add: trim_left.simps [of s] strip_space_prefix_def)
  then show ?thesis using trim_right_graphic [OF s] by (auto simp: trim_space_def)
qed

section \<open>Properties\<close>

text \<open>
  The lexer loses nothing: on success the tokens, each at the position it records, spell the source
  without its blanks, and end with the one \<open>tokEOF\<close>; on failure the error names the character at its
  position, and that character starts no token.
\<close>

theorem lex_faithful:
  "case lex s of
      Inr toks \<Rightarrow> lexed 0 s toks
    | Inl e \<Rightarrow> \<exists>i < length s. e = QChar (s ! i) i \<and> \<not> token_char (s ! i)"
  using lex_from_sound [of 0 s] lex_from_error [of 0 s] by (auto simp: lex_def split: sum.splits)

text \<open>
  C15. The parser decides the grammar in the comment of \<open>Parse\<close>: on any token list the lexer produces it
  succeeds exactly on the sentences of the grammar, with the items and columns the derivation gives, so the
  grammar is also unambiguous.
\<close>

theorem parse_tokens_grammar:
  assumes "lex s = Inr toks"
  shows "parse_tokens toks = Inr (items, cols) \<longleftrightarrow> query_tokens toks items cols"
proof -
  have "ended toks" using assms lex_from_sound [of 0 s] by (simp add: lex_def lexed_def)
  then show ?thesis using parse_tokens_sound parse_tokens_complete by blast
qed

theorem parse_tokens_grammar_witness:
  "\<exists>toks. lex ''SELECT COUNT(*)'' = Inr toks \<and> query_tokens toks [ItemCount] []"
proof -
  have "lex ''SELECT COUNT(*)'' = Inr [ident_token ''SELECT'' 0, ident_token ''COUNT'' 7, plain_token TokLParen 12,
      plain_token TokStar 13, plain_token TokRParen 14, plain_token TokEOF 15]"
    by (simp add: lex_def is_blank_def is_ident_start_def is_ident_part_def cons_token_def Let_def eval_nat_numeral)
  moreover have "parse_tokens [ident_token ''SELECT'' 0, ident_token ''COUNT'' 7, plain_token TokLParen 12,
      plain_token TokStar 13, plain_token TokRParen 14, plain_token TokEOF 15] = Inr ([ItemCount], [])"
    by (simp add: parse_tokens_def expect_keyword_def parse_select_list_def parse_select_item_def expect_ident_def expect_def
        ident_token_def plain_token_def equal_fold_def ascii_lower_def select_list_loop.simps parse_group_by_def Let_def)
  ultimately show ?thesis using parse_tokens_grammar [of "''SELECT COUNT(*)''"] by blast
qed

text \<open>The functions asked for on a column, in the order of the items.\<close>

definition item_funcs :: "(bytes \<Rightarrow> bytes) \<Rightarrow> string \<Rightarrow> select_item list \<Rightarrow> agg_func list" where
  "item_funcs u c items = concat (map (\<lambda>it. case it of
      ItemFunc f d \<Rightarrow> (case parse_agg_func u f of Inr fn \<Rightarrow> if d = c then [fn] else [] | Inl _ \<Rightarrow> [])
    | _ \<Rightarrow> []) items)"

definition spec_funcs :: "measure_spec list \<Rightarrow> string \<Rightarrow> agg_func list" where
  "spec_funcs ms c = concat (map ms_funcs (filter (\<lambda>m. ms_column m = c) ms))"

definition columns_indexed :: "measure_spec list \<Rightarrow> (string \<Rightarrow> nat option) \<Rightarrow> bool" where
  "columns_indexed ms by_col \<longleftrightarrow> distinct (map ms_column ms)
     \<and> (\<forall>c i. by_col c = Some i \<longleftrightarrow> i < length ms \<and> ms_column (ms ! i) = c)"

lemma spec_funcs_update:
  assumes "distinct (map ms_column ms)" and "i < length ms"
  shows "spec_funcs (ms[i := (ms ! i)\<lparr>ms_funcs := ms_funcs (ms ! i) @ [fn]\<rparr>]) c
     = spec_funcs ms c @ (if ms_column (ms ! i) = c then [fn] else [])"
proof -
  obtain xs m ys where ms: "ms = xs @ m # ys" "length xs = i" using assms(2) id_take_nth_drop by fastforce
  have "ms_column m \<notin> ms_column ` set ys" "ms_column m \<notin> ms_column ` set xs" using assms(1) by (auto simp: ms(1))
  then have "ms_column m = c \<Longrightarrow> filter (\<lambda>m. ms_column m = c) ys = []"
    by (auto simp: filter_empty_conv image_iff)
  then show ?thesis by (auto simp: ms(1) nth_append list_update_append spec_funcs_def simp flip: ms(2))
qed

lemma build_measures_ok:
  "build_measures u cols items ms by_col = Inr ms' \<Longrightarrow> columns_indexed ms by_col \<Longrightarrow>
     distinct (map ms_column ms') \<and> (\<forall>c. spec_funcs ms' c = spec_funcs ms c @ item_funcs u c items)
     \<and> (\<forall>c. ItemBare c \<in> set items \<longrightarrow> c \<in> set cols)
     \<and> ((\<forall>m \<in> set ms. ms_funcs m \<noteq> []) \<longrightarrow> (\<forall>m \<in> set ms'. ms_funcs m \<noteq> []))"
proof (induction u cols items ms by_col rule: build_measures.induct)
  case (1 u cols ms by_col)
  then show ?case by (simp add: columns_indexed_def item_funcs_def)
next
  case (2 u cols its ms by_col)
  then show ?case by (simp add: item_funcs_def)
next
  case (3 u cols c its ms by_col)
  then show ?case by (auto simp: item_funcs_def split: if_splits)
next
  case (4 u cols f c its ms by_col)
  then obtain fn where fn: "parse_agg_func u f = Inr fn" by (auto split: sum.splits)
  have items: "item_funcs u d (ItemFunc f c # its) = (if c = d then [fn] else []) @ item_funcs u d its" for d
    by (simp add: item_funcs_def fn)
  show ?case
  proof (cases "by_col c")
    case None
    define ms1 where "ms1 = ms @ [\<lparr>ms_column = c, ms_funcs = [fn]\<rparr>]"
    have "c \<notin> ms_column ` set ms"
    proof
      assume "c \<in> ms_column ` set ms"
      then obtain i where "i < length ms" "ms_column (ms ! i) = c" by (auto simp: in_set_conv_nth)
      then have "by_col c = Some i" using 4(4) by (simp add: columns_indexed_def)
      then show False using None by simp
    qed
    then have ok: "columns_indexed ms1 (by_col(c \<mapsto> length ms))"
      using 4(4) by (auto simp: columns_indexed_def ms1_def nth_append less_Suc_eq)
    have s: "spec_funcs ms1 d = spec_funcs ms d @ (if c = d then [fn] else [])" for d by (simp add: ms1_def spec_funcs_def)
    have b: "build_measures u cols its ms1 (by_col(c \<mapsto> length ms)) = Inr ms'" using 4(3) by (simp add: fn None ms1_def)
    have ne: "(\<forall>m \<in> set ms. ms_funcs m \<noteq> []) \<longrightarrow> (\<forall>m \<in> set ms1. ms_funcs m \<noteq> [])" by (simp add: ms1_def)
    from 4(1) [OF fn None, folded ms1_def, OF b ok] ne show ?thesis by (simp add: s items)
  next
    case (Some i)
    define ms1 where "ms1 = ms[i := (ms ! i)\<lparr>ms_funcs := ms_funcs (ms ! i) @ [fn]\<rparr>]"
    have i: "i < length ms" "ms_column (ms ! i) = c" "distinct (map ms_column ms)"
      using Some 4(4) by (auto simp: columns_indexed_def)
    have cols: "ms_column (ms1 ! j) = ms_column (ms ! j)" if "j < length ms" for j
      using that i(1) by (simp add: ms1_def nth_list_update)
    then have map: "map ms_column ms1 = map ms_column ms" by (intro nth_equalityI) (simp_all add: ms1_def)
    have ok: "columns_indexed ms1 by_col"
      using 4(4) cols map unfolding columns_indexed_def by (auto simp: ms1_def)
    have s: "spec_funcs ms1 d = spec_funcs ms d @ (if c = d then [fn] else [])" for d
      unfolding ms1_def using spec_funcs_update [OF i(3,1)] i(2) by simp
    have "set ms1 \<subseteq> insert ((ms ! i)\<lparr>ms_funcs := ms_funcs (ms ! i) @ [fn]\<rparr>) (set ms)"
      unfolding ms1_def by (rule set_update_subset_insert)
    then have ne: "(\<forall>m \<in> set ms. ms_funcs m \<noteq> []) \<longrightarrow> (\<forall>m \<in> set ms1. ms_funcs m \<noteq> [])" by auto
    have "build_measures u cols its ms1 by_col = Inr ms'" using 4(3) by (simp add: fn Some ms1_def)
    from 4(2) [OF fn Some, folded ms1_def, OF this ok] ne show ?thesis by (simp add: s items)
  qed
qed

text \<open>
  C27. What a parsed query means: its text is a sentence of the grammar; the group-by columns are those
  written; every column that carries a function has one measure, with its functions in the order written;
  and every bare column is a group-by column.
\<close>

theorem parse_query_meaning:
  assumes "parse_query u s = Inr spec"
  shows "\<exists>toks items. lex s = Inr toks \<and> query_tokens toks items (group_by spec)
     \<and> distinct (map ms_column (measures spec)) \<and> (\<forall>c. spec_funcs (measures spec) c = item_funcs u c items)
     \<and> (\<forall>m \<in> set (measures spec). ms_funcs m \<noteq> []) \<and> (\<forall>c. ItemBare c \<in> set items \<longrightarrow> c \<in> set (group_by spec))"
proof -
  obtain toks items cols ms where p: "lex s = Inr toks" "parse_tokens toks = Inr (items, cols)"
      "build_measures u cols items [] Map.empty = Inr ms" "spec = \<lparr>group_by = cols, measures = ms\<rparr>"
    using assms by (auto simp: parse_query_def map_sum_def split: if_splits sum.splits)
  have "ended toks" using p(1) lex_from_sound [of 0 s] by (simp add: lex_def lexed_def)
  then have "query_tokens toks items cols" using parse_tokens_sound p(2) by blast
  moreover have "columns_indexed [] Map.empty" by (simp add: columns_indexed_def)
  from build_measures_ok [OF p(3) this] have "distinct (map ms_column ms)" "\<forall>c. spec_funcs ms c = item_funcs u c items"
      "\<forall>c. ItemBare c \<in> set items \<longrightarrow> c \<in> set cols" "\<forall>m \<in> set ms. ms_funcs m \<noteq> []"
    by (simp_all add: spec_funcs_def)
  ultimately show ?thesis using p(1,4) by auto
qed

theorem parse_query_meaning_witness:
  "\<exists>spec. parse_query id ''SELECT a GROUP BY a'' = Inr spec \<and> distinct (map ms_column (measures spec))"
proof -
  have "trim_space ''SELECT a GROUP BY a'' \<noteq> []" by (rule trim_space_graphic) (simp_all add: graphic_def)
  moreover have "lex ''SELECT a GROUP BY a'' = Inr [ident_token ''SELECT'' 0, ident_token ''a'' 7, ident_token ''GROUP'' 9,
      ident_token ''BY'' 15, ident_token ''a'' 18, plain_token TokEOF 19]"
    by (simp add: lex_def is_blank_def is_ident_start_def is_ident_part_def cons_token_def Let_def eval_nat_numeral)
  moreover have "parse_tokens [ident_token ''SELECT'' 0, ident_token ''a'' 7, ident_token ''GROUP'' 9,
      ident_token ''BY'' 15, ident_token ''a'' 18, plain_token TokEOF 19] = Inr ([ItemBare ''a''], [''a''])"
    by (simp add: parse_tokens_def expect_keyword_def parse_select_list_def parse_select_item_def expect_ident_def expect_def
        ident_token_def plain_token_def equal_fold_def ascii_lower_def select_list_loop.simps parse_group_by_def
        parse_col_list_def col_list_loop.simps Let_def)
  ultimately have "parse_query id ''SELECT a GROUP BY a'' = Inr \<lparr>group_by = [''a''], measures = []\<rparr>"
    by (simp add: parse_query_def)
  with parse_query_meaning [OF this] show ?thesis by blast
qed

section \<open>Writing queries\<close>

definition valid_ident :: "string \<Rightarrow> bool" where
  "valid_ident w \<longleftrightarrow> (case w of [] \<Rightarrow> False | c # cs \<Rightarrow> is_ident_start c \<and> list_all is_ident_part cs)"

definition word_token :: "token \<Rightarrow> bool" where
  "word_token t \<longleftrightarrow> tk_kind t \<noteq> TokEOF \<and> (if tk_kind t = TokIdent then valid_ident (tk_text t) else tk_text t = [])"

text \<open>What the parser looks at.\<close>

definition tok_view :: "token \<Rightarrow> token_kind \<times> string" where
  "tok_view t = (tk_kind t, tk_text t)"

definition render :: "token list \<Rightarrow> bytes" where
  "render ts = concat (map (\<lambda>t. print_token t @ '' '') ts)"

lemma lex_char:
  assumes "tk_text t = []" and "tk_kind t \<noteq> TokEOF" and "tk_kind t \<noteq> TokIdent"
  shows "lex_from i (print_token t @ x) = cons_token (plain_token (tk_kind t) i) (lex_from (i + 1) x)
     \<and> length (print_token t) = 1"
  using assms by (cases "tk_kind t") (simp_all add: print_token_def is_blank_def)

lemma lex_word:
  assumes "is_ident_start c" and "list_all is_ident_part cs" and "\<not> is_ident_part (hd x)" and "x \<noteq> []"
  shows "lex_from i (c # cs @ x) = cons_token (ident_token (c # cs) i) (lex_from (i + 1 + length cs) x)"
proof -
  have "\<not> is_blank c" "c \<noteq> CHR ''(''" "c \<noteq> CHR '')''" "c \<noteq> CHR '',''" "c \<noteq> CHR ''*''"
    using assms(1) by (auto simp: is_ident_start_def is_blank_def)
  moreover have "takeWhile is_ident_part (cs @ x) = cs" "dropWhile is_ident_part (cs @ x) = x"
    using assms(2-4) by (cases x; simp add: takeWhile_append2 dropWhile_append2 list_all_iff)+
  ultimately show ?thesis using assms(1) by (simp add: Let_def)
qed

lemma lex_render:
  "list_all word_token ts \<Longrightarrow> \<exists>toks. lex_from i (render ts) = Inr toks \<and> map tok_view toks = map tok_view ts @ [(TokEOF, [])]"
proof (induction ts arbitrary: i)
  case Nil
  then show ?case by (simp add: render_def plain_token_def tok_view_def)
next
  case (Cons t ts)
  define n where "n = i + length (print_token t) + 1"
  obtain toks where toks: "lex_from n (render ts) = Inr toks" "map tok_view toks = map tok_view ts @ [(TokEOF, [])]"
    using Cons by force
  have blank: "lex_from j (CHR '' '' # render ts) = lex_from (j + 1) (render ts)" for j by (simp add: is_blank_def)
  have render: "render (t # ts) = print_token t @ CHR '' '' # render ts" by (simp add: render_def)
  show ?case
  proof (cases "tk_kind t = TokIdent")
    case False
    then have t: "tk_text t = []" "tk_kind t \<noteq> TokEOF" using Cons.prems by (simp_all add: word_token_def)
    have one: "lex_from i (print_token t @ CHR '' '' # render ts) = cons_token (plain_token (tk_kind t) i) (lex_from (i + 1) (CHR '' '' # render ts))"
        "length (print_token t) = 1"
      using lex_char [OF t False, of i "CHR '' '' # render ts"] by blast+
    have "lex_from (i + 1) (CHR '' '' # render ts) = Inr toks"
      using toks(1) blank [of "i + 1"] one(2) by (simp only: n_def)
    then have "lex_from i (render (t # ts)) = Inr (plain_token (tk_kind t) i # toks)"
      by (simp only: render one) (simp add: cons_token_def)
    moreover have "tok_view (plain_token (tk_kind t) i) = tok_view t" using t(1) by (simp add: plain_token_def tok_view_def)
    ultimately show ?thesis using toks(2) by simp
  next
    case True
    then obtain c cs where w: "tk_text t = c # cs" "is_ident_start c" "list_all is_ident_part cs"
      using Cons.prems by (auto simp: word_token_def valid_ident_def split: list.splits)
    have "\<not> is_ident_part (CHR '' '')" by (simp add: is_ident_part_def is_ident_start_def)
    then have "lex_from i (render (t # ts))
        = cons_token (ident_token (c # cs) i) (lex_from (i + 1 + length cs) (CHR '' '' # render ts))"
      using lex_word [OF w(2,3), of "CHR '' '' # render ts" i] by (simp only: render print_token_def True w(1)) simp
    also have "lex_from (i + 1 + length cs) (CHR '' '' # render ts) = Inr toks"
      using toks(1) blank by (simp add: n_def print_token_def True w(1))
    finally have "lex_from i (render (t # ts)) = Inr (ident_token (c # cs) i # toks)" by (simp add: cons_token_def)
    moreover have "tok_view (ident_token (c # cs) i) = tok_view t" using True w(1) by (simp add: ident_token_def tok_view_def)
    ultimately show ?thesis using toks(2) by simp
  qed
qed

lemma view_token: "tok_view t = tok_view u \<longleftrightarrow> tk_kind t = tk_kind u \<and> tk_text t = tk_text u"
  by (simp add: tok_view_def)

lemma item_tokens_view: "item_tokens us it \<Longrightarrow> map tok_view vs = map tok_view us \<Longrightarrow> item_tokens vs it"
proof (induction rule: item_tokens.induct)
  case (item_bare t)
  then show ?case using item_tokens.item_bare by (auto simp: map_eq_Cons_conv view_token) (metis item_tokens.item_bare)
next
  case (item_count f l x r)
  then show ?case using item_tokens.item_count by (auto simp: map_eq_Cons_conv view_token)
next
  case (item_func f l x r)
  from item_func.prems obtain f' l' x' r' where vs: "vs = [f', l', x', r']" "tok_view f' = tok_view f" "tok_view l' = tok_view l"
      "tok_view x' = tok_view x" "tok_view r' = tok_view r"
    by (auto simp: map_eq_Cons_conv)
  then show ?case using item_func.hyps item_tokens.item_func [of f' l' x' r'] by (simp add: view_token)
qed

lemma item_list_view: "item_list_tokens us its \<Longrightarrow> map tok_view vs = map tok_view us \<Longrightarrow> item_list_tokens vs its"
proof (induction arbitrary: vs rule: item_list_tokens.induct)
  case (items_one us it)
  then show ?case using item_tokens_view item_list_tokens.items_one by blast
next
  case (items_more us it c ws its)
  then obtain us' c' ws' where "vs = us' @ c' # ws'" "map tok_view us' = map tok_view us" "tok_view c' = tok_view c" "map tok_view ws' = map tok_view ws"
    by (auto simp: map_eq_append_conv map_eq_Cons_conv)
  then show ?case using items_more item_tokens_view by (auto simp: view_token intro: item_list_tokens.items_more)
qed

lemma col_list_view: "col_list_tokens us cols \<Longrightarrow> map tok_view vs = map tok_view us \<Longrightarrow> col_list_tokens vs cols"
proof (induction arbitrary: vs rule: col_list_tokens.induct)
  case (cols_one t)
  then obtain t' where "vs = [t']" "tok_view t' = tok_view t" by (auto simp: map_eq_Cons_conv)
  then show ?case using col_list_tokens.cols_one [of t'] cols_one(1) by (simp add: view_token)
next
  case (cols_more t c us cols)
  then obtain t' c' us' where "vs = t' # c' # us'" "tok_view t' = tok_view t" "tok_view c' = tok_view c" "map tok_view us' = map tok_view us"
    by (auto simp: map_eq_Cons_conv)
  then show ?case using col_list_tokens.cols_more [of t' c' us' cols] cols_more by (simp add: view_token)
qed

lemma keyword_view: "keyword w t \<Longrightarrow> tok_view t' = tok_view t \<Longrightarrow> keyword w t'"
  by (simp add: keyword_def view_token)

lemma query_tokens_view: "query_tokens us items cols \<Longrightarrow> map tok_view vs = map tok_view us \<Longrightarrow> query_tokens vs items cols"
proof (induction rule: query_tokens.induct)
  case (query_plain s ts items e)
  then obtain s' ts' e' where "vs = s' # ts' @ [e']" "tok_view s' = tok_view s" "map tok_view ts' = map tok_view ts" "tok_view e' = tok_view e"
    by (auto simp: map_eq_append_conv map_eq_Cons_conv)
  then show ?case using query_plain item_list_view keyword_view query_tokens.query_plain [of s' ts' items e'] by (simp add: view_token)
next
  case (query_group s ts items g b us cols e)
  then have "map tok_view vs = tok_view s # map tok_view ts @ tok_view g # tok_view b # map tok_view us @ [tok_view e]" by simp
  then obtain s' rest where 1: "vs = s' # rest" "tok_view s' = tok_view s"
      "map tok_view rest = map tok_view ts @ tok_view g # tok_view b # map tok_view us @ [tok_view e]"
    unfolding map_eq_Cons_conv by blast
  then obtain ts' rest2 where 2: "rest = ts' @ rest2" "map tok_view ts' = map tok_view ts"
      "map tok_view rest2 = tok_view g # tok_view b # map tok_view us @ [tok_view e]"
    unfolding map_eq_append_conv by metis
  then obtain g' b' rest3 where 3: "rest2 = g' # b' # rest3" "tok_view g' = tok_view g" "tok_view b' = tok_view b"
      "map tok_view rest3 = map tok_view us @ [tok_view e]"
    unfolding map_eq_Cons_conv by blast
  then obtain us' rest4 where 4: "rest3 = us' @ rest4" "map tok_view us' = map tok_view us" "map tok_view rest4 = [tok_view e]"
    unfolding map_eq_append_conv by metis
  then obtain e' where 5: "rest4 = [e']" "tok_view e' = tok_view e" by auto
  have "vs = s' # ts' @ g' # b' # us' @ [e']" by (simp add: 1 2 3 4 5)
  note vs = this 1(2) 2(2) 3(2,3) 4(2) 5(2)
  then show ?case
    using vs query_group item_list_view col_list_view keyword_view query_tokens.query_group [of s' ts' items g' b' us' cols e'] by (simp add: view_token)
qed

text \<open>A query text for a spec: \<open>COUNT(*)\<close>, every function of every measure, and the group-by columns.\<close>

definition word :: "string \<Rightarrow> token" where
  "word w = ident_token w 0"

definition mark :: "token_kind \<Rightarrow> token" where
  "mark k = plain_token k 0"

fun item_words :: "select_item \<Rightarrow> token list" where
  "item_words ItemCount = [word ''COUNT'', mark TokLParen, mark TokStar, mark TokRParen]"
| "item_words (ItemFunc f c) = [word f, mark TokLParen, word c, mark TokRParen]"
| "item_words (ItemBare c) = [word c]"

fun separated :: "token list list \<Rightarrow> token list" where
  "separated [] = []"
| "separated [ts] = ts"
| "separated (ts # us # tss) = ts @ mark TokComma # separated (us # tss)"

definition spec_items :: "measure_spec list \<Rightarrow> select_item list" where
  "spec_items ms = concat (map (\<lambda>m. map (\<lambda>f. ItemFunc (agg_func_string f) (ms_column m)) (ms_funcs m)) ms)"

definition query_words :: "agg_spec \<Rightarrow> token list" where
  "query_words spec = word ''SELECT'' # separated (map item_words (ItemCount # spec_items (measures spec)))
     @ (if group_by spec = [] then [] else word ''GROUP'' # word ''BY'' # separated (map (\<lambda>c. [word c]) (group_by spec)))"

definition write_query :: "agg_spec \<Rightarrow> bytes" where
  "write_query spec = render (query_words spec)"

definition writable :: "agg_spec \<Rightarrow> bool" where
  "writable spec \<longleftrightarrow> list_all valid_ident (group_by spec) \<and> distinct (map ms_column (measures spec))
     \<and> list_all (\<lambda>m. valid_ident (ms_column m) \<and> ms_funcs m \<noteq> [] \<and> list_all writable_func (ms_funcs m)) (measures spec)"

lemma word_defs: "tk_kind (word w) = TokIdent" "tk_text (word w) = w" "tk_kind (mark k) = k" "tk_text (mark k) = []"
  by (simp_all add: word_def mark_def ident_token_def plain_token_def)

lemma item_words_tokens: "item_tokens (item_words it) it"
  by (cases it)
    (auto simp: word_defs equal_fold_def intro: item_bare [of "word w" for w, unfolded word_defs] item_count
      item_func [of "word f" _ "word c" for f c, unfolded word_defs])

lemma separated_items: "its \<noteq> [] \<Longrightarrow> item_list_tokens (separated (map item_words its)) its"
proof (induction its rule: induct_list012)
  case (2 it)
  then show ?case using items_one [OF item_words_tokens] by simp
next
  case (3 it it2 its)
  then show ?case using items_more [OF item_words_tokens [of it], of "mark TokComma"] by (simp add: word_defs)
qed simp

lemma separated_cols: "cols \<noteq> [] \<Longrightarrow> col_list_tokens (separated (map (\<lambda>c. [word c]) cols)) cols"
proof (induction cols rule: induct_list012)
  case (2 c)
  then show ?case using cols_one [of "word c"] by (simp add: word_defs)
next
  case (3 c d cols)
  then show ?case using cols_more [of "word c" "mark TokComma"] by (simp add: word_defs)
qed simp

lemma separated_all: "list_all (list_all P) tss \<Longrightarrow> P (mark TokComma) \<Longrightarrow> list_all P (separated tss)"
  by (induction tss rule: separated.induct) auto

lemma decimal_ident: "list_all is_digit ip \<Longrightarrow> list_all is_digit fp \<Longrightarrow> list_all is_ident_part (decimal_literal False ip fp)"
  by (auto simp: decimal_literal_def list_all_iff is_ident_part_def is_digit_def)

lemma agg_func_ident:
  assumes "writable_func f"
  shows "valid_ident (agg_func_string f)"
proof (cases "\<exists>q. f = FnPercentile q \<and> percentile_ok q")
  case False
  then show ?thesis using assms
    by (auto simp: writable_func_def agg_func_string_def agg_func_defs valid_ident_def is_ident_start_def is_ident_part_def)
next
  case True
  then obtain q where q: "f = FnPercentile q" "percentile_ok q" by blast
  then obtain ip fp where "format_float_f q = decimal_literal (f64_sign q) ip fp" "list_all is_digit ip" "list_all is_digit fp"
    using format_finite_literal percentile_ok_finite by blast
  moreover have "\<not> f64_sign q"
    using q(2) by (auto simp: percentile_ok_def f64_lt_def f64_key_def f64_zero_def f64_mag_def f64_sign_def)
  ultimately show ?thesis
    using decimal_ident by (simp add: q(1) agg_func_string_def agg_func_defs valid_ident_def is_ident_start_def)
qed

lemma query_words_ok: "writable spec \<Longrightarrow> list_all word_token (query_words spec)"
proof -
  assume w: "writable spec"
  have word: "word_token (word s) \<longleftrightarrow> valid_ident s" for s by (simp add: word_token_def word_defs)
  have mark: "word_token (mark k) \<longleftrightarrow> k \<noteq> TokEOF \<and> k \<noteq> TokIdent" for k
    by (auto simp: word_token_def word_defs valid_ident_def)
  have kw: "valid_ident ''SELECT''" "valid_ident ''GROUP''" "valid_ident ''BY''" "valid_ident ''COUNT''"
    by (simp_all add: valid_ident_def is_ident_start_def is_ident_part_def)
  have items: "list_all (list_all word_token) (map item_words (spec_items (measures spec)))"
    using w agg_func_ident by (auto simp: writable_def spec_items_def list_all_iff word mark)
  have cols: "list_all (list_all word_token) (map (\<lambda>c. [word c]) (group_by spec))"
    using w by (auto simp: writable_def list_all_iff word)
  show ?thesis
    using separated_all [OF cols] separated_all [of word_token "map item_words (ItemCount # spec_items (measures spec))"] items kw
    by (simp add: query_words_def word mark)
qed

lemma build_one_measure:
  "list_all writable_func fs \<Longrightarrow> by_col (ms_column m) = Some (length ms) \<Longrightarrow>
     build_measures u cols (map (\<lambda>f. ItemFunc (agg_func_string f) (ms_column m)) fs @ rest) (ms @ [m]) by_col
       = build_measures u cols rest (ms @ [m\<lparr>ms_funcs := ms_funcs m @ fs\<rparr>]) by_col"
proof (induction fs arbitrary: m)
  case (Cons f fs)
  then show ?case using Cons.IH [of "m\<lparr>ms_funcs := ms_funcs m @ [f]\<rparr>"] by (simp add: parse_agg_func_string)
qed simp

lemma build_spec_items:
  "distinct (map ms_column ms) \<Longrightarrow> list_all (\<lambda>m. ms_funcs m \<noteq> [] \<and> list_all writable_func (ms_funcs m)) ms \<Longrightarrow>
     (\<forall>m \<in> set ms. by_col (ms_column m) = None) \<Longrightarrow>
     build_measures u cols (spec_items ms) done0 by_col = Inr (done0 @ ms)"
proof (induction ms arbitrary: done0 by_col)
  case (Cons m ms)
  obtain f fs where fs: "ms_funcs m = f # fs" using Cons.prems(2) by (cases "ms_funcs m") auto
  define m0 where "m0 = \<lparr>ms_column = ms_column m, ms_funcs = [f]\<rparr>"
  have m: "m0\<lparr>ms_funcs := ms_funcs m0 @ fs\<rparr> = m" "ms_column m0 = ms_column m" using fs by (simp_all add: m0_def)
  have "build_measures u cols (spec_items (m # ms)) done0 by_col
      = build_measures u cols (map (\<lambda>f. ItemFunc (agg_func_string f) (ms_column m0)) fs @ spec_items ms) (done0 @ [m0])
          (by_col(ms_column m \<mapsto> length done0))"
    using Cons.prems fs by (simp add: spec_items_def parse_agg_func_string m0_def)
  also have "\<dots> = build_measures u cols (spec_items ms) (done0 @ [m]) (by_col(ms_column m \<mapsto> length done0))"
    using build_one_measure [of fs "by_col(ms_column m \<mapsto> length done0)" m0 done0] Cons.prems(2) fs by (simp add: m)
  also have "\<dots> = Inr ((done0 @ [m]) @ ms)" using Cons.prems by (intro Cons.IH) (auto simp: image_iff)
  finally show ?case by simp
qed (simp add: spec_items_def)

lemma parse_written_query:
  assumes "writable spec"
  shows "parse_query u (write_query spec) = Inr spec"
proof -
  obtain toks where toks: "lex (write_query spec) = Inr toks" "map tok_view toks = map tok_view (query_words spec) @ [(TokEOF, [])]"
    using lex_render [OF query_words_ok [OF assms], of 0] by (auto simp: lex_def write_query_def)
  have kw: "keyword ''SELECT'' (word ''SELECT'')" "keyword ''GROUP'' (word ''GROUP'')" "keyword ''BY'' (word ''BY'')"
    by (simp_all add: keyword_def word_defs equal_fold_def)
  have "query_tokens (query_words spec @ [mark TokEOF]) (ItemCount # spec_items (measures spec)) (group_by spec)"
    using query_plain [OF kw(1) separated_items, of "ItemCount # spec_items (measures spec)" "mark TokEOF"]
      query_group [OF kw(1) separated_items kw(2,3) separated_cols, of "ItemCount # spec_items (measures spec)" "group_by spec" "mark TokEOF"]
    by (cases "group_by spec = []") (simp_all add: query_words_def word_defs)
  moreover have "tok_view (mark TokEOF) = (TokEOF, [])" by (simp add: tok_view_def word_defs)
  ultimately have "query_tokens toks (ItemCount # spec_items (measures spec)) (group_by spec)"
    using toks(2) query_tokens_view by simp
  then have "parse_tokens toks = Inr (ItemCount # spec_items (measures spec), group_by spec)" by (rule parse_tokens_complete)
  moreover have "build_measures u (group_by spec) (spec_items (measures spec)) [] Map.empty = Inr (measures spec)"
    using build_spec_items [of "measures spec" Map.empty u "group_by spec" "[]"] assms by (simp add: writable_def list_all_iff)
  moreover have "trim_space (write_query spec) \<noteq> []"
    by (rule trim_space_graphic) (simp_all add: write_query_def render_def query_words_def print_token_def word_defs graphic_def)
  ultimately show ?thesis using toks(1) by (simp add: parse_query_def)
qed

text \<open>
  C14. Every spec of named functions over distinct columns has a query text: what \<open>write_query\<close> writes is
  parsed back to exactly that spec.
\<close>

theorem query_roundtrip:
  assumes "writable spec"
  shows "parse_query u (write_query spec) = Inr spec"
  using assms by (rule parse_written_query)

theorem query_roundtrip_witness:
  "parse_query id (write_query \<lparr>group_by = [''city''], measures = [\<lparr>ms_column = ''temp'', ms_funcs = [FnMin, FnAvg]\<rparr>]\<rparr>)
     = Inr \<lparr>group_by = [''city''], measures = [\<lparr>ms_column = ''temp'', ms_funcs = [FnMin, FnAvg]\<rparr>]\<rparr>"
  by (rule query_roundtrip)
    (simp add: writable_def writable_func_def valid_ident_def is_ident_start_def is_ident_part_def)

end
