(* ===== verification/Flags.thy ===== *)
theory Flags
  imports StrConv
begin

text \<open>
  What the commands use of Go's \<open>flag\<close>, \<open>strconv\<close> and \<open>net\<close> packages: \<open>FlagSet.Parse\<close> over string, integer,
  boolean and user-defined flags, with \<open>ParseBool\<close> and \<open>ParseInt\<close> of base 0 for the values, and
  \<open>SplitHostPort\<close>.
\<close>

section \<open>Values\<close>

definition parse_bool :: "string \<Rightarrow> bool option" where
  "parse_bool s =
     (if s \<in> {''1'', ''t'', ''T'', ''true'', ''TRUE'', ''True''} then Some True
      else if s \<in> {''0'', ''f'', ''F'', ''false'', ''FALSE'', ''False''} then Some False
      else None)"

definition digit_of :: "char \<Rightarrow> nat" where
  "digit_of c =
     (if is_digit c then digit_val c
      else let l = code (ascii_lower c) in if 97 \<le> l \<and> l \<le> 122 then l - 87 else 36)"

text \<open>
  \<open>ParseInt(s, 0, 64)\<close>: the base is given by the prefix, underscores may separate digits. The flags only
  ask whether there is a value.
\<close>

definition base_prefix :: "string \<Rightarrow> nat \<times> string" where
  "base_prefix s =
     (case s of
        z # rest \<Rightarrow>
          (if z \<noteq> CHR ''0'' then (10, s)
           else (case rest of
               b # ds \<Rightarrow>
                 (if ds \<noteq> [] \<and> ascii_lower b = CHR ''b'' then (2, ds)
                  else if ds \<noteq> [] \<and> ascii_lower b = CHR ''o'' then (8, ds)
                  else if ds \<noteq> [] \<and> ascii_lower b = CHR ''x'' then (16, ds)
                  else (8, rest))
             | [] \<Rightarrow> (8, [])))
      | [] \<Rightarrow> (10, []))"

definition parse_int_flag :: "string \<Rightarrow> int option" where
  "parse_int_flag s =
     (let body = strip_sign s; (base, ds) = base_prefix body; digits = filter (\<lambda>c. c \<noteq> CHR ''_'') ds;
          n = foldl (\<lambda>n c. base * n + digit_of c) 0 digits; neg = (take 1 s = ''-'')
      in if body = [] \<or> \<not> list_all (\<lambda>c. digit_of c < base) digits
            \<or> (CHR ''_'' \<in> set ds \<and> \<not> underscore_ok body) \<or> (if neg then 2 ^ 63 < n else 2 ^ 63 \<le> n)
         then None else Some (if neg then - int n else int n))"

section \<open>Flag sets\<close>

text \<open>
  A flag is boolean, or takes a value its setter may refuse. A flag set maps names to flags; the flags of one
  command update one record.
\<close>

datatype 'c flag =
    BoolFlag "bool \<Rightarrow> 'c \<Rightarrow> 'c"
  | ValueFlag "string \<Rightarrow> 'c \<Rightarrow> 'c option"

datatype flag_error =
    ErrFlagSyntax string
  | ErrHelp
  | ErrUndefined string
  | ErrNeedsArgument string
  | ErrInvalidValue string string

definition int_flag :: "(int \<Rightarrow> 'c \<Rightarrow> 'c) \<Rightarrow> 'c flag" where
  "int_flag set_int = ValueFlag (\<lambda>v c. map_option (\<lambda>n. set_int n c) (parse_int_flag v))"

definition string_flag :: "(string \<Rightarrow> 'c \<Rightarrow> 'c) \<Rightarrow> 'c flag" where
  "string_flag set_string = ValueFlag (\<lambda>v c. Some (set_string v c))"

text \<open>The name of an argument \<open>-name\<close>, \<open>--name\<close>, \<open>-name=value\<close>, and its value if it has one.\<close>

definition flag_text :: "string \<Rightarrow> string" where
  "flag_text a = (if take 2 a = ''--'' then drop 2 a else drop 1 a)"

definition flag_assign :: "string \<Rightarrow> string \<times> string option" where
  "flag_assign t =
     (case index_byte (drop 1 t) (CHR ''='') of
        None \<Rightarrow> (t, None)
      | Some i \<Rightarrow> (take (i + 1) t, Some (drop (i + 2) t)))"

text \<open>\<open>Parse\<close>: the flags up to the first argument that is none, and the arguments left.\<close>

function parse_flags :: "(string \<Rightarrow> 'c flag option) \<Rightarrow> string list \<Rightarrow> 'c \<Rightarrow> flag_error + ('c \<times> string list)" where
  "parse_flags formal [] c = Inr (c, [])"
| "parse_flags formal (a # rest) c =
     (if length a < 2 \<or> hd a \<noteq> CHR ''-'' then Inr (c, a # rest)
      else if a = ''--'' then Inr (c, rest)
      else (let t = flag_text a in
        if t = [] \<or> hd t = CHR ''-'' \<or> hd t = CHR ''='' then Inl (ErrFlagSyntax a)
        else (let (name, v) = flag_assign t in
          case formal name of
            None \<Rightarrow> Inl (if name = ''help'' \<or> name = ''h'' then ErrHelp else ErrUndefined name)
          | Some (BoolFlag f) \<Rightarrow>
              (case v of
                 None \<Rightarrow> parse_flags formal rest (f True c)
               | Some w \<Rightarrow>
                   (case parse_bool w of None \<Rightarrow> Inl (ErrInvalidValue name w) | Some b \<Rightarrow> parse_flags formal rest (f b c)))
          | Some (ValueFlag f) \<Rightarrow>
              (case v of
                 Some w \<Rightarrow> (case f w c of None \<Rightarrow> Inl (ErrInvalidValue name w) | Some c' \<Rightarrow> parse_flags formal rest c')
               | None \<Rightarrow>
                   (case rest of
                      [] \<Rightarrow> Inl (ErrNeedsArgument name)
                    | w # rest' \<Rightarrow>
                        (case f w c of None \<Rightarrow> Inl (ErrInvalidValue name w) | Some c' \<Rightarrow> parse_flags formal rest' c'))))))"
  by pat_completeness auto
termination by (relation "measure (\<lambda>(formal, args, c). length args)") auto

declare parse_flags.simps(2) [simp del]

text \<open>The exit status of a command whose flags are refused (\<open>flag.ExitOnError\<close>).\<close>

definition flag_exit :: "flag_error \<Rightarrow> nat" where
  "flag_exit e = (if e = ErrHelp then 0 else 2)"

section \<open>Addresses\<close>

text \<open>\<open>net.SplitHostPort\<close>; \<open>None\<close> is an error.\<close>

definition last_index :: "string \<Rightarrow> char \<Rightarrow> nat option" where
  "last_index s c = map_option (\<lambda>i. length s - 1 - i) (index_byte (rev s) c)"

definition split_host_port :: "string \<Rightarrow> (string \<times> string) option" where
  "split_host_port s =
     (case last_index s (CHR '':'') of
        None \<Rightarrow> None
      | Some i \<Rightarrow>
          (if take 1 s = ''['' then
             (case index_byte s (CHR '']'') of
                None \<Rightarrow> None
              | Some e \<Rightarrow>
                  (if e + 1 \<noteq> i \<or> CHR ''['' \<in> set (drop 1 s) \<or> CHR '']'' \<in> set (drop (e + 1) s) then None
                   else Some (take (e - 1) (drop 1 s), drop (i + 1) s)))
           else if CHR '':'' \<in> set (take i s) \<or> CHR ''['' \<in> set s \<or> CHR '']'' \<in> set s then None
           else Some (take i s, drop (i + 1) s)))"

section \<open>Command lines\<close>

text \<open>An argument \<open>-name=value\<close> sets its flag, whatever the value contains.\<close>

definition flag_name :: "string \<Rightarrow> bool" where
  "flag_name n \<longleftrightarrow> n \<noteq> [] \<and> hd n \<noteq> CHR ''-'' \<and> CHR ''='' \<notin> set n"

definition assign :: "string \<Rightarrow> string \<Rightarrow> string" where
  "assign n v = ''-'' @ n @ ''='' @ v"

lemma flag_text_assign: "flag_name n \<Longrightarrow> flag_text (assign n v) = n @ ''='' @ v"
  by (cases n) (auto simp: flag_text_def assign_def flag_name_def)

lemma flag_assign_eq: "flag_name n \<Longrightarrow> flag_assign (n @ ''='' @ v) = (n, Some v)"
proof -
  assume n: "flag_name n"
  then obtain c cs where cs: "n = c # cs" "CHR ''='' \<notin> set cs" by (cases n) (auto simp: flag_name_def)
  have "index_byte (cs @ ''='' @ v) (CHR ''='') = Some (length cs)" using cs(2) by (simp add: index_byte_append_notin)
  then show ?thesis using cs(1) by (simp add: flag_assign_def)
qed

lemma parse_flags_assign:
  assumes "flag_name n" and "formal n = Some (ValueFlag f)"
  shows "parse_flags formal (assign n v # rest) c
     = (case f v c of None \<Rightarrow> Inl (ErrInvalidValue n v) | Some c' \<Rightarrow> parse_flags formal rest c')"
proof -
  have t: "flag_text (assign n v) = n @ ''='' @ v" by (rule flag_text_assign [OF assms(1)])
  have "hd n \<noteq> CHR ''='' \<and> hd n \<noteq> CHR ''-'' \<and> n \<noteq> []" using assms(1) by (cases n) (auto simp: flag_name_def)
  then have "hd (n @ ''='' @ v) \<noteq> CHR ''-''" "hd (n @ ''='' @ v) \<noteq> CHR ''=''" "n @ ''='' @ v \<noteq> []" by simp_all
  moreover have "assign n v \<noteq> ''--''" "\<not> length (assign n v) < 2" "hd (assign n v) = CHR ''-''"
    using assms(1) by (cases n; auto simp: assign_def flag_name_def)+
  ultimately show ?thesis
    by (simp only: parse_flags.simps(2) t flag_assign_eq [OF assms(1)] Let_def prod.case assms(2) option.case flag.case
        if_False de_Morgan_disj simp_thms)
qed

end
