(* ===== verification/Command.thy ===== *)
theory Command
  imports Distribute Query Flags
begin

text \<open>
  \<open>cmd/cordage\<close>: the commands, from their arguments to what they print. The world is a parameter: the files, the
  standard input, the JSON decoder, the network, the resolver, and the clock whose readings end a line of output.
  Messages on the standard error output are not modelled.
\<close>

section \<open>The world, errors and outcomes\<close>

record world =
  w_files :: files
  w_stdin :: bytes
  w_decode :: "bytes \<Rightarrow> schema_json option"
  w_lower :: "bytes \<Rightarrow> bytes"
  w_lib :: runtime_lib
  w_sort :: slice_sort
  w_net :: grpc
  w_lookup :: "string \<Rightarrow> string + string list"
  w_listen :: "string \<Rightarrow> string option"
  w_query :: "string \<Rightarrow> p_agg_spec option \<Rightarrow> string + p_result option"
  w_elapsed :: string
  w_rate :: "i64 \<Rightarrow> string"

datatype cli_error =
    CliMissing string
  | CliExclusive
  | CliDelimiter string
  | CliMeasure string
  | CliPolicy string
  | CliAddress string
  | CliOpen string
  | CliArgs
  | CliListen string
  | CliSchema schema_error
  | CliFunc spec_error
  | CliSpec agg_error
  | CliIngest ingest_error
  | CliRun run_error
  | CliDist dist_error
  | CliQuery query_error
  | CliConv conv_error
  | CliCall string

datatype outcome =
    Exited nat
  | Failed cli_error
  | Panicked
  | Printed "string list"
  | Serving string "coordinator_config option"

section \<open>Values and results\<close>

definition format_value :: "value_t \<Rightarrow> string" where
  "format_value v = (case vtype v of
      TypeString \<Rightarrow> vstr v
    | TypeInt64 \<Rightarrow> format_int (sint (vi64 v))
    | TypeFloat64 \<Rightarrow> format_float_g (vf64 v)
    | TypeOther _ \<Rightarrow> [])"

text \<open>The \<open>column=value\<close> pairs of a key; \<open>None\<close> where \<open>g.Key[i]\<close> is out of range.\<close>

fun key_pairs :: "string list \<Rightarrow> value_t list \<Rightarrow> string list option" where
  "key_pairs [] vs = Some []"
| "key_pairs (c # cs) [] = None"
| "key_pairs (c # cs) (v # vs) = map_option ((#) (c @ ''='' @ format_value v)) (key_pairs cs vs)"

fun join_strings :: "string \<Rightarrow> string list \<Rightarrow> string" where
  "join_strings sep [] = []"
| "join_strings sep [s] = s"
| "join_strings sep (s # t # ss) = s @ sep @ join_strings sep (t # ss)"

definition measure_text :: "measure_result \<Rightarrow> string" where
  "measure_text m = '' '' @ agg_func_string (mr_func m) @ ''('' @ mr_column m @ '')='' @ format_value (mr_value m)"

definition group_line :: "string list \<Rightarrow> group_result \<Rightarrow> string option" where
  "group_line group_cols g =
     (case key_pairs group_cols (gr_key g) of
        None \<Rightarrow> None
      | Some ps \<Rightarrow>
          (let sb = join_strings '', '' ps
           in Some (sb @ (if sb \<noteq> [] then '' '' else []) @ ''count='' @ format_int (sint (gr_count g))
                @ concat (map measure_text (gr_measures g)))))"

definition print_result :: "agg_result \<Rightarrow> string list option" where
  "print_result res = those (map (group_line (rs_group_by res)) (rs_groups res))"

section \<open>Flags\<close>

text \<open>\<open>measureFlags\<close>: \<open>-measure\<close> may be repeated and appends to the list.\<close>

definition measure_flags_string :: "measure_spec list \<Rightarrow> string" where
  "measure_flags_string ms =
     join_with (CHR '';'') (map (\<lambda>m. ms_column m @ '':'' @ join_with (CHR '','') (map agg_func_string (ms_funcs m))) ms)"

fun parse_funcs :: "(bytes \<Rightarrow> bytes) \<Rightarrow> string list \<Rightarrow> cli_error + agg_func list" where
  "parse_funcs uni_lower [] = Inr []"
| "parse_funcs uni_lower (name # names) =
     (case parse_agg_func uni_lower name of
        Inl e \<Rightarrow> Inl (CliFunc e)
      | Inr f \<Rightarrow> map_sum id ((#) f) (parse_funcs uni_lower names))"

definition measure_flags_set :: "(bytes \<Rightarrow> bytes) \<Rightarrow> string \<Rightarrow> measure_spec list \<Rightarrow> cli_error + measure_spec list" where
  "measure_flags_set uni_lower s ms =
     (case cut_at s (CHR '':'') of
        None \<Rightarrow> Inl (CliMeasure s)
      | Some (column, funcs_part) \<Rightarrow>
          (if column = [] \<or> funcs_part = [] then Inl (CliMeasure s)
           else map_sum id (\<lambda>funcs. ms @ [\<lparr>ms_column = column, ms_funcs = funcs\<rparr>])
                  (parse_funcs uni_lower (split_on (CHR '','') funcs_part))))"

definition measure_flag :: "(bytes \<Rightarrow> bytes) \<Rightarrow> ('c \<Rightarrow> measure_spec list) \<Rightarrow> (measure_spec list \<Rightarrow> 'c \<Rightarrow> 'c) \<Rightarrow> 'c flag" where
  "measure_flag uni_lower get put =
     ValueFlag (\<lambda>v c. case measure_flags_set uni_lower v (get c) of Inl _ \<Rightarrow> None | Inr ms \<Rightarrow> Some (put ms c))"

definition spec_of_flags :: "string \<Rightarrow> measure_spec list \<Rightarrow> agg_spec" where
  "spec_of_flags cols_flag ms = \<lparr>group_by = (if cols_flag \<noteq> [] then split_on (CHR '','') cols_flag else []), measures = ms\<rparr>"

definition parse_error_policy :: "string \<Rightarrow> cli_error + error_policy" where
  "parse_error_policy s =
     (if s = ''skip'' then Inr ErrorPolicySkip else if s = ''fail'' then Inr ErrorPolicyFail else Inl (CliPolicy s))"

definition open_ingest_source :: "world \<Rightarrow> string \<Rightarrow> cli_error + source" where
  "open_ingest_source w path =
     (if path = [] \<or> path = ''-'' then Inr (stream_source (w_stdin w))
      else (case w_files w path of None \<Rightarrow> Inl (CliOpen path) | Some content \<Rightarrow> Inr (open_file content)))"

definition load_schema :: "world \<Rightarrow> string \<Rightarrow> cli_error + schema" where
  "load_schema w path = map_sum CliSchema id (load_schema_file (w_files w) (w_decode w) path)"

definition resolve_ingest_schema :: "world \<Rightarrow> string \<Rightarrow> string \<Rightarrow> bool \<Rightarrow> cli_error + schema" where
  "resolve_ingest_schema w path delim no_header =
     (if path \<noteq> [] then load_schema w path
      else (case delim of
          [d] \<Rightarrow> Inr (empty_schema\<lparr>delimiter := d, has_header := \<not> no_header\<rparr>)
        | _ \<Rightarrow> Inl (CliDelimiter delim)))"

definition stats_text :: "world \<Rightarrow> i64 \<Rightarrow> i64 \<Rightarrow> string" where
  "stats_text w rows skipped = ''rows='' @ format_int (sint rows) @ '' skipped='' @ format_int (sint skipped)
     @ '' elapsed='' @ w_elapsed w @ '' rows/sec='' @ w_rate w rows"

section \<open>\<open>cordage ingest\<close>\<close>

record ingest_flags =
  if_file :: string
  if_schema :: string
  if_delimiter :: string
  if_no_header :: bool
  if_on_error :: string
  if_chunks :: int
  if_batch_size :: int
  if_buffer_size :: int
  if_quiet :: bool

definition ingest_defaults :: ingest_flags where
  "ingest_defaults = \<lparr>if_file = [], if_schema = [], if_delimiter = '','', if_no_header = False, if_on_error = ''skip'',
     if_chunks = 1, if_batch_size = 0, if_buffer_size = 0, if_quiet = False\<rparr>"

definition ingest_flag_set :: "string \<Rightarrow> ingest_flags flag option" where
  "ingest_flag_set = map_of
     [(''file'', string_flag (\<lambda>v c. c\<lparr>if_file := v\<rparr>)), (''schema'', string_flag (\<lambda>v c. c\<lparr>if_schema := v\<rparr>)),
      (''delimiter'', string_flag (\<lambda>v c. c\<lparr>if_delimiter := v\<rparr>)), (''no-header'', BoolFlag (\<lambda>v c. c\<lparr>if_no_header := v\<rparr>)),
      (''on-error'', string_flag (\<lambda>v c. c\<lparr>if_on_error := v\<rparr>)), (''chunks'', int_flag (\<lambda>v c. c\<lparr>if_chunks := v\<rparr>)),
      (''batch-size'', int_flag (\<lambda>v c. c\<lparr>if_batch_size := v\<rparr>)), (''buffer-size'', int_flag (\<lambda>v c. c\<lparr>if_buffer_size := v\<rparr>)),
      (''quiet'', BoolFlag (\<lambda>v c. c\<lparr>if_quiet := v\<rparr>))]"

definition ingest_prepare :: "world \<Rightarrow> ingest_flags \<Rightarrow> cli_error + source \<times> config" where
  "ingest_prepare w f =
     res_bind (resolve_ingest_schema w (if_schema f) (if_delimiter f) (if_no_header f)) (\<lambda>s.
     res_bind (parse_error_policy (if_on_error f)) (\<lambda>pol.
     res_bind (open_ingest_source w (if_file f)) (\<lambda>src.
       Inr (src, \<lparr>cf_schema = s, cf_chunks = if_chunks f, cf_batch_size = if_batch_size f,
                  cf_buffer_size = if_buffer_size f, cf_on_error = pol, cf_report = True\<rparr>))))"

definition run_ingest :: "world \<Rightarrow> schedule \<Rightarrow> string list \<Rightarrow> outcome \<Rightarrow> bool" where
  "run_ingest w sc args out \<longleftrightarrow>
     (case parse_flags ingest_flag_set args ingest_defaults of
        Inl e \<Rightarrow> out = Exited (flag_exit e)
      | Inr (f, _) \<Rightarrow>
          (case ingest_prepare w f of
             Inl e \<Rightarrow> out = Failed e
           | Inr (src, cfg) \<Rightarrow>
               (let d = ingest sc src cfg; rows = sum_list (map (\<lambda>b. of_nat (num_rows b)) (dr_batches d))
                in case dr_error d of
                     Some e \<Rightarrow> out = Failed (CliIngest e)
                   | None \<Rightarrow> \<exists>k. tally_returns (skip_calls sc src cfg) k \<and> out = Printed [stats_text w rows k])))"

section \<open>\<open>cordage run\<close>\<close>

record run_flags =
  rf_file :: string
  rf_schema :: string
  rf_on_error :: string
  rf_chunks :: int
  rf_workers :: int
  rf_batch_size :: int
  rf_buffer_size :: int
  rf_quiet :: bool
  rf_group_by :: string
  rf_measures :: "measure_spec list"

definition run_defaults :: run_flags where
  "run_defaults = \<lparr>rf_file = [], rf_schema = [], rf_on_error = ''skip'', rf_chunks = 1, rf_workers = 0, rf_batch_size = 0,
     rf_buffer_size = 0, rf_quiet = False, rf_group_by = [], rf_measures = []\<rparr>"

definition run_flag_set :: "(bytes \<Rightarrow> bytes) \<Rightarrow> string \<Rightarrow> run_flags flag option" where
  "run_flag_set uni_lower = map_of
     [(''file'', string_flag (\<lambda>v c. c\<lparr>rf_file := v\<rparr>)), (''schema'', string_flag (\<lambda>v c. c\<lparr>rf_schema := v\<rparr>)),
      (''on-error'', string_flag (\<lambda>v c. c\<lparr>rf_on_error := v\<rparr>)), (''chunks'', int_flag (\<lambda>v c. c\<lparr>rf_chunks := v\<rparr>)),
      (''workers'', int_flag (\<lambda>v c. c\<lparr>rf_workers := v\<rparr>)), (''batch-size'', int_flag (\<lambda>v c. c\<lparr>rf_batch_size := v\<rparr>)),
      (''buffer-size'', int_flag (\<lambda>v c. c\<lparr>rf_buffer_size := v\<rparr>)), (''quiet'', BoolFlag (\<lambda>v c. c\<lparr>rf_quiet := v\<rparr>)),
      (''group-by'', string_flag (\<lambda>v c. c\<lparr>rf_group_by := v\<rparr>)),
      (''measure'', measure_flag uni_lower rf_measures (\<lambda>ms c. c\<lparr>rf_measures := ms\<rparr>))]"

text \<open>The checks in the order of the code; \<open>New\<close> builds an aggregator that is thrown away.\<close>

definition run_prepare :: "world \<Rightarrow> maphash \<Rightarrow> run_flags \<Rightarrow> cli_error + source \<times> config \<times> agg_spec" where
  "run_prepare w seed f =
     (if rf_schema f = [] then Inl (CliMissing ''schema'')
      else res_bind (load_schema w (rf_schema f)) (\<lambda>s.
        let spec = spec_of_flags (rf_group_by f) (rf_measures f) in
        res_bind (map_sum CliSpec id (new_aggregator seed s spec)) (\<lambda>_.
        res_bind (parse_error_policy (rf_on_error f)) (\<lambda>pol.
        res_bind (open_ingest_source w (rf_file f)) (\<lambda>src.
          Inr (src, \<lparr>cf_schema = s, cf_chunks = rf_chunks f, cf_batch_size = rf_batch_size f,
                     cf_buffer_size = rf_buffer_size f, cf_on_error = pol, cf_report = True\<rparr>, spec))))))"

definition print_run :: "world \<Rightarrow> string \<Rightarrow> aggregator \<times> i64 \<times> i64 \<Rightarrow> outcome" where
  "print_run w tail res =
     (case res of (agg, rows, skipped) \<Rightarrow>
        (case agg_result_of (w_sort w) (w_lib w) agg of
           None \<Rightarrow> Panicked
         | Some (r, _) \<Rightarrow>
             (case print_result r of None \<Rightarrow> Panicked | Some ls \<Rightarrow> Printed (ls @ [stats_text w rows skipped @ tail]))))"

definition run_run :: "world \<Rightarrow> maphash \<Rightarrow> (nat \<Rightarrow> maphash) \<Rightarrow> schedule \<Rightarrow> string list \<Rightarrow> outcome \<Rightarrow> bool" where
  "run_run w seed seeds sc args out \<longleftrightarrow>
     (case parse_flags (run_flag_set (w_lower w)) args run_defaults of
        Inl e \<Rightarrow> out = Exited (flag_exit e)
      | Inr (f, _) \<Rightarrow>
          (case run_prepare w seed f of
             Inl e \<Rightarrow> out = Failed e
           | Inr (src, cfg, spec) \<Rightarrow>
               (\<exists>res. run_returns (w_lib w) seeds sc src cfg spec (rf_workers f) res
                  \<and> out = (case res of
                       Inl e \<Rightarrow> Failed (CliRun e)
                     | Inr r \<Rightarrow> print_run w ('' chunks='' @ format_int (rf_chunks f)
                                  @ '' workers='' @ format_int (run_workers (rf_workers f) (rf_chunks f))) r))))"


section \<open>\<open>cordage coordinator\<close>\<close>

record coord_flags =
  cd_file :: string
  cd_schema :: string
  cd_on_error :: string
  cd_batch_size :: int
  cd_buffer_size :: int
  cd_group_by :: string
  cd_workers :: string
  cd_dns :: string
  cd_listen :: string
  cd_measures :: "measure_spec list"

definition coord_defaults :: coord_flags where
  "coord_defaults = \<lparr>cd_file = [], cd_schema = [], cd_on_error = ''skip'', cd_batch_size = 0, cd_buffer_size = 0,
     cd_group_by = [], cd_workers = [], cd_dns = [], cd_listen = [], cd_measures = []\<rparr>"

definition coord_flag_set :: "(bytes \<Rightarrow> bytes) \<Rightarrow> string \<Rightarrow> coord_flags flag option" where
  "coord_flag_set uni_lower = map_of
     [(''file'', string_flag (\<lambda>v c. c\<lparr>cd_file := v\<rparr>)), (''schema'', string_flag (\<lambda>v c. c\<lparr>cd_schema := v\<rparr>)),
      (''on-error'', string_flag (\<lambda>v c. c\<lparr>cd_on_error := v\<rparr>)), (''batch-size'', int_flag (\<lambda>v c. c\<lparr>cd_batch_size := v\<rparr>)),
      (''buffer-size'', int_flag (\<lambda>v c. c\<lparr>cd_buffer_size := v\<rparr>)), (''group-by'', string_flag (\<lambda>v c. c\<lparr>cd_group_by := v\<rparr>)),
      (''workers'', string_flag (\<lambda>v c. c\<lparr>cd_workers := v\<rparr>)), (''worker-discovery-dns'', string_flag (\<lambda>v c. c\<lparr>cd_dns := v\<rparr>)),
      (''listen'', string_flag (\<lambda>v c. c\<lparr>cd_listen := v\<rparr>)),
      (''measure'', measure_flag uni_lower cd_measures (\<lambda>ms c. c\<lparr>cd_measures := ms\<rparr>))]"

text \<open>The discoverer, as what a call of it returns; \<open>Atoi\<close> is \<open>ParseInt\<close> of base 10.\<close>

definition coord_discoverer :: "world \<Rightarrow> coord_flags \<Rightarrow> cli_error + (dist_error + string list)" where
  "coord_discoverer w f =
     (if cd_workers f \<noteq> [] then Inr (static_discoverer (split_on (CHR '','') (cd_workers f)))
      else (case split_host_port (cd_dns f) of
          None \<Rightarrow> Inl (CliAddress (cd_dns f))
        | Some (host, port) \<Rightarrow>
            (case parse_int port of
               Inl _ \<Rightarrow> Inl (CliAddress (cd_dns f))
             | Inr n \<Rightarrow> Inr (dns_discoverer (w_lookup w) host n))))"

definition coord_prepare :: "world \<Rightarrow> maphash \<Rightarrow> coord_flags \<Rightarrow> cli_error + coordinator_config \<times> agg_spec" where
  "coord_prepare w seed f =
     (if cd_file f = [] \<or> cd_file f = ''-'' then Inl (CliMissing ''file'')
      else if cd_schema f = [] then Inl (CliMissing ''schema'')
      else if (cd_workers f = []) = (cd_dns f = []) then Inl (CliMissing ''workers'')
      else res_bind (coord_discoverer w f) (\<lambda>disc.
        res_bind (load_schema w (cd_schema f)) (\<lambda>s.
        let spec = spec_of_flags (cd_group_by f) (cd_measures f) in
        res_bind (map_sum CliSpec id (new_aggregator seed s spec)) (\<lambda>_.
        res_bind (map_sum CliFunc id (validate_distributable spec)) (\<lambda>_.
        res_bind (parse_error_policy (cd_on_error f)) (\<lambda>pol.
          Inr (\<lparr>cc_schema = s, cc_path = cd_file f, cc_discover = disc, cc_on_error = pol,
                cc_batch_size = cd_batch_size f, cc_buffer_size = cd_buffer_size f\<rparr>, spec)))))))"

text \<open>A listening coordinator serves until it is killed; \<open>w_listen\<close> is the error of \<open>net.Listen\<close>, if any.\<close>

definition serve_on :: "world \<Rightarrow> string \<Rightarrow> coordinator_config option \<Rightarrow> outcome" where
  "serve_on w addr cfg = (case w_listen w addr of Some e \<Rightarrow> Failed (CliListen e) | None \<Rightarrow> Serving addr cfg)"

definition run_coordinator :: "world \<Rightarrow> maphash \<Rightarrow> maphash \<Rightarrow> string list \<Rightarrow> outcome \<Rightarrow> bool" where
  "run_coordinator w seed0 seed args out \<longleftrightarrow>
     (case parse_flags (coord_flag_set (w_lower w)) args coord_defaults of
        Inl e \<Rightarrow> out = Exited (flag_exit e)
      | Inr (f, _) \<Rightarrow>
          (case coord_prepare w seed0 f of
             Inl e \<Rightarrow> out = Failed e
           | Inr (cfg, spec) \<Rightarrow>
               (if cd_listen f \<noteq> [] then
                  (if cd_group_by f \<noteq> [] \<or> cd_measures f \<noteq> [] then out = Failed CliExclusive
                   else out = serve_on w (cd_listen f) (Some cfg))
                else (case cc_discover cfg of
                    Inl e \<Rightarrow> out = Failed (CliDist e)
                  | Inr addrs \<Rightarrow>
                      (case plan_shards (w_files w) (cc_path cfg) addrs (cc_schema cfg) of
                         Inl e \<Rightarrow> out = Failed (CliDist e)
                       | Inr shs \<Rightarrow>
                           (\<exists>res. run_distributed (w_lib w) seed (w_net w) (query_options cfg spec shs) res
                              \<and> out = (case res of
                                   Inl e \<Rightarrow> Failed (CliDist e)
                                 | Inr r \<Rightarrow> print_run w ('' shards='' @ format_nat (length shs)) r)))))))"

section \<open>\<open>cordage query\<close>, \<open>cordage worker\<close> and \<open>main\<close>\<close>

text \<open>
  \<open>w_query\<close> is what dialling an address and calling \<open>Query\<close> there returns. A nil result would be a nil
  dereference.
\<close>

definition query_flag_set :: "string \<Rightarrow> string flag option" where
  "query_flag_set = map_of [(''grpc'', string_flag (\<lambda>v c. v))]"

definition query_prepare :: "world \<Rightarrow> string \<Rightarrow> string list \<Rightarrow> cli_error + p_agg_spec option" where
  "query_prepare w addr rest =
     (if addr = [] then Inl (CliMissing ''grpc'')
      else (case rest of
          [q] \<Rightarrow> res_bind (map_sum CliQuery id (parse_query (w_lower w) q)) (\<lambda>spec. map_sum CliConv id (spec_to_proto spec))
        | _ \<Rightarrow> Inl CliArgs))"

definition run_query :: "world \<Rightarrow> string list \<Rightarrow> outcome" where
  "run_query w args =
     (case parse_flags query_flag_set args [] of
        Inl e \<Rightarrow> Exited (flag_exit e)
      | Inr (addr, rest) \<Rightarrow>
          (case query_prepare w addr rest of
             Inl e \<Rightarrow> Failed e
           | Inr pspec \<Rightarrow>
               (case w_query w addr pspec of
                  Inl e \<Rightarrow> Failed (CliCall e)
                | Inr resp \<Rightarrow>
                    (case proto_to_result resp of
                       Inl e \<Rightarrow> Failed (CliConv e)
                     | Inr None \<Rightarrow> Panicked
                     | Inr (Some r) \<Rightarrow>
                         (case print_result r of
                            None \<Rightarrow> Panicked
                          | Some ls \<Rightarrow> Printed (ls @ [''elapsed='' @ w_elapsed w]))))))"

definition worker_flag_set :: "string \<Rightarrow> string flag option" where
  "worker_flag_set = map_of [(''listen'', string_flag (\<lambda>v c. v))]"

definition run_worker :: "world \<Rightarrow> string list \<Rightarrow> outcome" where
  "run_worker w args =
     (case parse_flags worker_flag_set args '':50051'' of
        Inl e \<Rightarrow> Exited (flag_exit e)
      | Inr (addr, _) \<Rightarrow> serve_on w addr None)"

text \<open>The dispatch on the first argument, and the exit status; a panic exits with 2.\<close>

definition cordage_main :: "world \<Rightarrow> maphash \<Rightarrow> (nat \<Rightarrow> maphash) \<Rightarrow> schedule \<Rightarrow> string list \<Rightarrow> outcome \<Rightarrow> bool" where
  "cordage_main w seed seeds sc args out \<longleftrightarrow>
     (case args of
        [] \<Rightarrow> out = Exited 2
      | cmd # rest \<Rightarrow>
          (if cmd = ''ingest'' then run_ingest w sc rest out
           else if cmd = ''run'' then run_run w seed seeds sc rest out
           else if cmd = ''worker'' then out = run_worker w rest
           else if cmd = ''coordinator'' then run_coordinator w seed (seeds 0) rest out
           else if cmd = ''query'' then out = run_query w rest
           else out = Exited 2))"

fun exit_status :: "outcome \<Rightarrow> nat option" where
  "exit_status (Exited n) = Some n"
| "exit_status (Failed _) = Some 1"
| "exit_status Panicked = Some 2"
| "exit_status (Printed _) = Some 0"
| "exit_status (Serving _ _) = None"


section \<open>What a result holds\<close>

text \<open>The type of the value of a function over a column.\<close>

definition result_type :: "column_type \<Rightarrow> agg_func \<Rightarrow> column_type" where
  "result_type t fn = (case af_kind fn of
      KindDistinct \<Rightarrow> TypeInt64
    | KindSum \<Rightarrow> (if t = TypeInt64 then TypeInt64 else TypeFloat64)
    | KindMin \<Rightarrow> (if t = TypeInt64 then TypeInt64 else TypeFloat64)
    | KindMax \<Rightarrow> (if t = TypeInt64 then TypeInt64 else TypeFloat64)
    | _ \<Rightarrow> TypeFloat64)"

text \<open>The columns of a line after the key: column, function and type.\<close>

definition result_columns :: "measure_spec list \<Rightarrow> column_type list \<Rightarrow> (string \<times> agg_func \<times> column_type) list" where
  "result_columns ms ts = concat (map2 (\<lambda>m t. map (\<lambda>fn. (ms_column m, fn, result_type t fn)) (ms_funcs m)) ms ts)"

definition result_cell :: "measure_result \<Rightarrow> string \<times> agg_func \<times> column_type" where
  "result_cell m = (mr_column m, mr_func m, vtype (mr_value m))"

lemma measure_result_value_type:
  assumes "measure_result_value lib m n fn = Some (v, m')" and "named_func fn"
  shows "vtype v = result_type (ma_type m) fn"
proof -
  have "af_kind fn \<noteq> FuncKindOther i" for i
    using assms(2) by (auto simp: named_func_def agg_func_defs dest: arg_cong [where f = af_kind])
  then show ?thesis
    using assms(1) unfolding measure_result_value_def result_type_def Let_def
    by (auto split: func_kind.splits option.splits prod.splits if_splits)
qed

lemma measure_value_type:
  assumes "computable m fn" and "named_func fn"
  shows "vtype (measure_value lib m n fn) = result_type (ma_type m) fn"
  by (rule measure_result_value_type [OF measure_result_value_ok [OF assms(1)] assms(2)])

lemma func_values_cells:
  assumes "\<forall>fn \<in> set fns. computable m fn" and "list_all named_func fns"
  shows "map result_cell (func_values lib col n fns m) = map (\<lambda>fn. (col, fn, result_type (ma_type m) fn)) fns"
  using assms measure_value_type by (simp add: func_values_def result_cell_def list_all_iff)

lemma group_cells:
  assumes "list_all2 (\<lambda>s m. \<forall>fn \<in> set (ms_funcs s). computable m fn) ss ms" and "list_all (\<lambda>s. list_all named_func (ms_funcs s)) ss"
  shows "map result_cell (concat (map2 (\<lambda>s m. func_values lib (ms_column s) n (ms_funcs s) m) ss ms)) = result_columns ss (map ma_type ms)"
  using assms
  by (induction rule: list_all2_induct) (simp_all add: result_columns_def func_values_cells)

lemma result_shape:
  assumes h: "holds lib a0 a rows" and c: "spec_config a0" and named: "named_spec (ag_spec a0)" and sort: "slice_sorts sort_slice"
    and r: "agg_result_of sort_slice lib a = Some (r, a')" and g: "g \<in> set (rs_groups r)"
  shows "rs_group_by r = group_by (ag_spec a0)" and "key_ok (group_by_types a0) (gr_key g)"
    and "map result_cell (gr_measures g) = result_columns (measures (ag_spec a0)) (measure_types a0)"
proof -
  have inv: "agg_inv a0 a" using h by (simp add: holds_def)
  define rs where "rs = map (group_values lib (ag_spec a0)) (table_each (ag_table a))"
  have res: "r = \<lparr>rs_group_by = group_by (ag_spec a0), rs_groups = sort_groups sort_slice (group_by_types a0) rs\<rparr>"
    and keyed: "keyed_results (group_by_types a0) rs"
    using agg_result_ok [OF inv c, of sort_slice lib] r by (auto simp: rs_def)
  show "rs_group_by r = group_by (ag_spec a0)" by (simp add: res)
  have "g \<in> set rs" using g mset_eq_setD [OF sort_groups_ok(1) [OF sort keyed]] by (simp add: res)
  then show "key_ok (group_by_types a0) (gr_key g)" using keyed by (simp add: keyed_results_def)
  from \<open>g \<in> set rs\<close> obtain ga where ga: "ga \<in> set (table_each (ag_table a))" "g = group_values lib (ag_spec a0) ga"
    by (auto simp: rs_def)
  have "keyed_ok (hash_key (ag_seed a0)) (key_ok (group_by_types a0)) (ag_table a)" "config_ok a0" using inv by (simp_all add: agg_inv_def)
  then have shape: "group_shape a0 ga" "config_ok a0"
    using ga(1) keyed_each(2) groups_key [OF inv] by (fastforce simp: groups_def)+
  have "map ma_type (ga_measures ga) = measure_types a0"
    using shape unfolding group_shape_def config_ok_def measure_shape_def
    by (auto simp: list_all2_conv_all_nth intro!: nth_equalityI)
  then show "map result_cell (gr_measures g) = result_columns (measures (ag_spec a0)) (measure_types a0)"
    using group_cells [OF group_computable [OF shape(2) c shape(1)]] named by (simp add: ga(2) group_values_def named_spec_def)
qed

lemma key_pairs_ok: "length cs = length vs \<Longrightarrow> key_pairs cs vs = Some (map2 (\<lambda>c v. c @ ''='' @ format_value v) cs vs)"
  by (induction cs vs rule: key_pairs.induct) auto

lemma those_Some: "(\<forall>x \<in> set xs. f x \<noteq> None) \<Longrightarrow> those (map f xs) = Some (map (\<lambda>x. the (f x)) xs)"
  by (induction xs) auto

lemma print_result_ok:
  assumes "\<forall>g \<in> set (rs_groups r). length (gr_key g) = length (rs_group_by r)"
  shows "\<exists>ls. print_result r = Some ls \<and> length ls = length (rs_groups r)"
proof -
  have "\<forall>g \<in> set (rs_groups r). group_line (rs_group_by r) g \<noteq> None"
    using assms by (simp add: group_line_def key_pairs_ok Let_def)
  then show ?thesis by (simp add: print_result_def those_Some)
qed

lemma resolve_group_by_length: "resolve_group_by s seen names = Inr gs \<Longrightarrow> length gs = length names"
  by (induction s seen names arbitrary: gs rule: resolve_group_by.induct) (auto split: if_splits option.splits sum.splits)

lemma new_group_by_length: "new_aggregator seed s spec = Inr a \<Longrightarrow> length (group_by_types a) = length (group_by spec)"
  using resolve_group_by_length by (auto simp: new_aggregator_def split: sum.splits)

lemma result_printed:
  assumes h: "holds lib a0 a rows" and c: "spec_config a0" and named: "named_spec (ag_spec a0)" and sort: "slice_sorts sort_slice"
    and len: "length (group_by_types a0) = length (group_by (ag_spec a0))"
    and r: "agg_result_of sort_slice lib a = Some (r, a')"
  shows "\<exists>ls. print_result r = Some ls \<and> length ls = length (rs_groups r)"
proof (rule print_result_ok, rule ballI)
  fix g assume g: "g \<in> set (rs_groups r)"
  note s = result_shape [OF h c named sort r g]
  show "length (gr_key g) = length (rs_group_by r)" using key_ok_length [OF s(2)] s(1) len by simp
qed

text \<open>
  C23. Results are typed: in every group of a result the key values have the types of the group-by columns, and the
  measures are those of the spec in order, with an int64 or float64 value as column and function say. So
  \<open>formatValue\<close> never meets a type it does not know, and \<open>printResult\<close> prints one line per group.
\<close>

theorem result_typed:
  assumes "new_aggregator seed s spec = Inr a0" and "known_schema s" and "named_spec spec" and "holds lib a0 a rows"
    and "slice_sorts sort_slice" and "agg_result_of sort_slice lib a = Some (r, a')"
  shows "(\<forall>g \<in> set (rs_groups r). map vtype (gr_key g) = group_by_types a0 \<and> list_all known_type (group_by_types a0)
        \<and> map result_cell (gr_measures g) = result_columns (measures spec) (measure_types a0))
     \<and> (\<exists>ls. print_result r = Some ls \<and> length ls = length (rs_groups r))"
proof (intro conjI ballI)
  have types: "\<forall>c \<in> set (columns s). known_type (cs_type c)"
    using assms(2) by (simp add: known_schema_def known_column_def list_all_iff)
  note n = new_aggregator_ok [OF assms(1) types]
  have named: "named_spec (ag_spec a0)" using assms(3) n(4) by simp
  note c = new_spec_config [OF assms(1)]
  have known: "list_all known_type (group_by_types a0)" using n(1) by (simp add: config_ok_def)
  show "\<exists>ls. print_result r = Some ls \<and> length ls = length (rs_groups r)"
    using result_printed [OF assms(4) c named assms(5) _ assms(6)] new_group_by_length [OF assms(1)] n(4) by simp
  fix g assume g: "g \<in> set (rs_groups r)"
  note s = result_shape [OF assms(4) c named assms(5,6) g]
  show "map result_cell (gr_measures g) = result_columns (measures spec) (measure_types a0)" using s(3) n(4) by simp
  show "list_all known_type (group_by_types a0)" by (rule known)
  have "canonical t v \<Longrightarrow> known_type t \<Longrightarrow> vtype v = t" for t v
    by (cases t) (auto simp: canonical_def known_type_def dest: arg_cong [where f = vtype])
  then show "map vtype (gr_key g) = group_by_types a0"
    using s(2) known unfolding key_ok_def by (auto simp: list_all2_conv_all_nth list_all_length intro!: nth_equalityI)
qed


section \<open>Flags that spell a spec\<close>

text \<open>The arguments of \<open>cordage run\<close> and \<open>cordage coordinator\<close> for a spec.\<close>

definition spec_args :: "agg_spec \<Rightarrow> string list" where
  "spec_args spec = assign ''group-by'' (join_with (CHR '','') (group_by spec))
     # map (\<lambda>m. assign ''measure'' (measure_flags_string [m])) (measures spec)"

text \<open>The specs flags can spell: no commas in group-by columns, no colons in measure columns, no empty names.\<close>

definition flag_spec :: "agg_spec \<Rightarrow> bool" where
  "flag_spec spec \<longleftrightarrow> list_all (\<lambda>c. c \<noteq> [] \<and> CHR '','' \<notin> set c) (group_by spec)
     \<and> list_all (\<lambda>m. ms_column m \<noteq> [] \<and> CHR '':'' \<notin> set (ms_column m) \<and> ms_funcs m \<noteq> []
          \<and> list_all writable_func (ms_funcs m)) (measures spec)"

lemma join_with_Nil_iff: "\<forall>p \<in> set ps. p \<noteq> [] \<Longrightarrow> join_with d ps = [] \<longleftrightarrow> ps = []"
  by (cases "(d, ps)" rule: join_with.cases) auto

lemma ident_plain: "valid_ident w \<Longrightarrow> w \<noteq> [] \<and> CHR '','' \<notin> set w \<and> CHR '':'' \<notin> set w \<and> hd w \<noteq> CHR ''-''"
proof -
  assume w: "valid_ident w"
  have "\<not> is_ident_part (CHR '','')" "\<not> is_ident_part (CHR '':'')" "\<not> is_ident_part (CHR ''-'')"
    by (simp_all add: is_ident_part_def is_ident_start_def)
  moreover have "w \<noteq> []" "\<forall>c \<in> set w. is_ident_part c"
    using w by (auto simp: valid_ident_def list_all_iff is_ident_part_def split: list.splits)
  ultimately show ?thesis using hd_in_set [of w] by metis
qed

lemma parse_funcs_strings: "list_all writable_func fs \<Longrightarrow> parse_funcs uni_lower (map agg_func_string fs) = Inr fs"
  by (induction fs) (simp_all add: parse_agg_func_string)

lemma measure_flags_set_string:
  assumes "ms_column m \<noteq> []" and "CHR '':'' \<notin> set (ms_column m)" and "ms_funcs m \<noteq> []" and "list_all writable_func (ms_funcs m)"
  shows "measure_flags_set uni_lower (measure_flags_string [m]) ms = Inr (ms @ [m])"
proof -
  define names where "names = map agg_func_string (ms_funcs m)"
  have n: "names \<noteq> []" "\<forall>p \<in> set names. p \<noteq> [] \<and> CHR '','' \<notin> set p"
    using assms(3,4) agg_func_ident ident_plain by (auto simp: names_def list_all_iff)
  have "cut_at (measure_flags_string [m]) (CHR '':'') = Some (ms_column m, join_with (CHR '','') names)"
    using assms(2) by (simp add: measure_flags_string_def cut_at_def index_byte_append_notin names_def)
  moreover have "join_with (CHR '','') names \<noteq> []" using n by (simp add: join_with_Nil_iff)
  moreover have "parse_funcs uni_lower (split_on (CHR '','') (join_with (CHR '','') names)) = Inr (ms_funcs m)"
    using split_join [OF n(1), of "CHR '',''"] n(2) parse_funcs_strings [OF assms(4)] by (simp add: names_def)
  ultimately show ?thesis using assms(1) by (simp add: measure_flags_set_def)
qed

lemma run_flags_named:
  "run_flag_set u ''group-by'' = Some (string_flag (\<lambda>v c. c\<lparr>rf_group_by := v\<rparr>))"
  "run_flag_set u ''measure'' = Some (measure_flag u rf_measures (\<lambda>ms c. c\<lparr>rf_measures := ms\<rparr>))"
  "run_flag_set u ''file'' = Some (string_flag (\<lambda>v c. c\<lparr>rf_file := v\<rparr>))"
  "run_flag_set u ''schema'' = Some (string_flag (\<lambda>v c. c\<lparr>rf_schema := v\<rparr>))"
  by (simp_all add: run_flag_set_def)

lemma parse_measure_args:
  assumes "list_all (\<lambda>m. ms_column m \<noteq> [] \<and> CHR '':'' \<notin> set (ms_column m) \<and> ms_funcs m \<noteq> [] \<and> list_all writable_func (ms_funcs m)) ms"
  shows "parse_flags (run_flag_set u) (map (\<lambda>m. assign ''measure'' (measure_flags_string [m])) ms) f
     = Inr (f\<lparr>rf_measures := rf_measures f @ ms\<rparr>, [])"
  using assms
proof (induction ms arbitrary: f)
  case (Cons m ms)
  have "flag_name ''measure''" by (simp add: flag_name_def)
  from Cons show ?case
    using parse_flags_assign [where formal = "run_flag_set u" and n = "''measure''",
        OF \<open>flag_name ''measure''\<close> run_flags_named(2) [unfolded measure_flag_def]]
    by (simp add: measure_flags_set_string)
qed simp

lemma parse_spec_args:
  assumes "flag_spec spec"
  shows "parse_flags (run_flag_set u) (spec_args spec) f
     = Inr (f\<lparr>rf_group_by := join_with (CHR '','') (group_by spec), rf_measures := rf_measures f @ measures spec\<rparr>, [])"
    and "spec_of_flags (join_with (CHR '','') (group_by spec)) (measures spec) = spec"
proof -
  have ms: "list_all (\<lambda>m. ms_column m \<noteq> [] \<and> CHR '':'' \<notin> set (ms_column m) \<and> ms_funcs m \<noteq> [] \<and> list_all writable_func (ms_funcs m)) (measures spec)"
    and cs: "\<forall>c \<in> set (group_by spec). c \<noteq> [] \<and> CHR '','' \<notin> set c"
    using assms by (auto simp: flag_spec_def list_all_iff)
  have "flag_name ''group-by''" by (simp add: flag_name_def)
  from parse_flags_assign [where formal = "run_flag_set u", OF this run_flags_named(1) [unfolded string_flag_def]]
  show "parse_flags (run_flag_set u) (spec_args spec) f
     = Inr (f\<lparr>rf_group_by := join_with (CHR '','') (group_by spec), rf_measures := rf_measures f @ measures spec\<rparr>, [])"
    by (simp add: spec_args_def parse_measure_args [OF ms])
  show "spec_of_flags (join_with (CHR '','') (group_by spec)) (measures spec) = spec"
    using cs by (cases "group_by spec = []") (simp_all add: spec_of_flags_def join_with_Nil_iff split_join)
qed

text \<open>
  C25. The flags of \<open>cordage run\<close> can spell every spec of functions the parser knows, over columns without separators:
  the arguments written for a spec are parsed back to it, whatever flags come before them, percentiles included.
\<close>

theorem spec_flags_roundtrip:
  assumes "flag_spec spec" and "rf_measures f = []"
  shows "\<exists>f'. parse_flags (run_flag_set u) (spec_args spec) f = Inr (f', []) \<and> spec_of_flags (rf_group_by f') (rf_measures f') = spec
     \<and> rf_file f' = rf_file f \<and> rf_schema f' = rf_schema f \<and> rf_chunks f' = rf_chunks f \<and> rf_workers f' = rf_workers f"
  using parse_spec_args [OF assms(1)] assms(2) by simp

theorem spec_flags_roundtrip_witness:
  "\<exists>f'. parse_flags (run_flag_set id) (spec_args \<lparr>group_by = [''a'', ''b''], measures = [\<lparr>ms_column = ''t'', ms_funcs = [FnMin, FnAvg]\<rparr>]\<rparr>) run_defaults
       = Inr (f', [])
     \<and> spec_of_flags (rf_group_by f') (rf_measures f') = \<lparr>group_by = [''a'', ''b''], measures = [\<lparr>ms_column = ''t'', ms_funcs = [FnMin, FnAvg]\<rparr>]\<rparr>"
  using spec_flags_roundtrip [of "\<lparr>group_by = [''a'', ''b''], measures = [\<lparr>ms_column = ''t'', ms_funcs = [FnMin, FnAvg]\<rparr>]\<rparr>" run_defaults id]
  by (auto simp: flag_spec_def writable_func_def run_defaults_def)

theorem result_typed_witness:
  "\<exists>r a'. agg_result_of insertion_sort sample_lib sample_agg = Some (r, a') \<and> (\<exists>ls. print_result r = Some ls \<and> length ls = length (rs_groups r))"
proof -
  have h: "holds sample_lib sample_agg sample_agg []" by (rule holds_new [OF sample_facts(1,2)])
  then obtain r a' where "agg_result_of insertion_sort sample_lib sample_agg = Some (r, a')"
    using agg_result_ok [OF holds_inv new_spec_config [OF sample_facts(1)]] by blast
  with result_typed [OF sample_facts(1) sample_spec_ok(3,1) h insertion_sort_sorts this] show ?thesis by blast
qed

end
