(* ===== verification/EndToEnd.thy ===== *)
theory EndToEnd
  imports Command
begin












end
