(* ===== verification/Generator.thy ===== *)
theory Generator
  imports Pipeline FloatOrder
begin

text \<open>
  \<open>cmd/gen1brc\<close>, the generator of benchmark data: from the draws of a row and the table of stations to the bytes of
  the file, with \<open>strconv.AppendFloat\<close> of a fixed precision.
\<close>

section \<open>Fixed precision\<close>

text \<open>The magnitude in units of \<open>10 ^ -p\<close>, rounded to nearest, ties to even, from the exact value.\<close>

definition fixed_decimal :: "nat \<Rightarrow> int \<Rightarrow> int" where
  "fixed_decimal p m =
     (let n = scaled_mag m * 10 ^ p; q = n div f64_unit; r = n mod f64_unit
      in if f64_unit < 2 * r \<or> (2 * r = f64_unit \<and> odd q) then q + 1 else q)"

definition format_fixed :: "nat \<Rightarrow> f64 \<Rightarrow> string" where
  "format_fixed p x =
     (case format_special x of Some s \<Rightarrow> s
      | None \<Rightarrow> (if f64_sign x then ''-'' else []) @ fixed_digits (fixed_decimal p (f64_mag x)) (- int p))"

section \<open>The generator\<close>

text \<open>The stations with their mean temperatures in tenths of a degree.\<close>

definition stations :: "(string \<times> int) list" where
  "stations = [
    (''Abidjan'', 260), (''Abu Dhabi'', 283), (''Algiers'', 182), (''Amsterdam'', 107), (''Ankara'', 120), (''Athens'', 189),
    (''Auckland'', 152), (''Baghdad'', 228), (''Bangkok'', 286), (''Barcelona'', 182), (''Beijing'', 125), (''Beirut'', 209),
    (''Berlin'', 103), (''Bogota'', 138), (''Boston'', 109), (''Brisbane'', 214), (''Brussels'', 105), (''Bucharest'', 110),
    (''Budapest'', 113), (''Buenos Aires'', 179), (''Cairo'', 219), (''Calgary'', 44), (''Cape Town'', 167), (''Caracas'', 258),
    (''Casablanca'', 176), (''Chicago'', 99), (''Copenhagen'', 91), (''Dakar'', 244), (''Dallas'', 190), (''Delhi'', 252),
    (''Denver'', 104), (''Dhaka'', 259), (''Dubai'', 270), (''Dublin'', 98), (''Edinburgh'', 93), (''Frankfurt'', 106),
    (''Geneva'', 102), (''Glasgow'', 88), (''Hanoi'', 236), (''Havana'', 252), (''Helsinki'', 59), (''Ho Chi Minh City'', 274),
    (''Hong Kong'', 233), (''Honolulu'', 254), (''Houston'', 208), (''Istanbul'', 140), (''Jakarta'', 267),
    (''Johannesburg'', 155), (''Kabul'', 121), (''Karachi'', 260), (''Kathmandu'', 183), (''Kinshasa'', 253),
    (''Kuala Lumpur'', 273), (''Lagos'', 267), (''Lima'', 189), (''Lisbon'', 174), (''London'', 113), (''Los Angeles'', 186),
    (''Madrid'', 150), (''Manila'', 274), (''Melbourne'', 151), (''Mexico City'', 175), (''Miami'', 249), (''Milan'', 130),
    (''Minneapolis'', 77), (''Montreal'', 68), (''Moscow'', 58), (''Mumbai'', 272), (''Nairobi'', 179), (''New Delhi'', 252),
    (''New York City'', 129), (''Osaka'', 169), (''Oslo'', 57), (''Ottawa'', 66), (''Paris'', 123), (''Perth'', 187),
    (''Philadelphia'', 129), (''Phoenix'', 236), (''Prague'', 84), (''Quebec City'', 44), (''Reykjavik'', 43), (''Riga'', 62),
    (''Rio de Janeiro'', 238), (''Riyadh'', 260), (''Rome'', 152), (''San Francisco'', 146), (''Santiago'', 144),
    (''Sao Paulo'', 195), (''Seattle'', 113), (''Seoul'', 125), (''Shanghai'', 167), (''Singapore'', 270), (''Stockholm'', 66),
    (''Sydney'', 177), (''Taipei'', 230), (''Tehran'', 170), (''Tokyo'', 154), (''Toronto'', 94), (''Vancouver'', 104),
    (''Vienna'', 104), (''Warsaw'', 85), (''Washington DC'', 146), (''Wellington'', 129), (''Zurich'', 93)]"

definition station_mean :: "string \<times> int \<Rightarrow> f64" where
  "station_mean st = mk_f64 False (round_mag (snd st * f64_unit) 10)"

text \<open>What the generator draws for a row: \<open>IntN\<close>, \<open>NormFloat64\<close> and \<open>Int64N\<close>.\<close>

record draw =
  dr_station :: nat
  dr_noise :: f64
  dr_sensor :: int

definition gen_temp :: "f64 \<Rightarrow> draw \<Rightarrow> f64" where
  "gen_temp stddev d = f64_add (station_mean (stations ! dr_station d)) (f64_mul (dr_noise d) stddev)"

definition gen_line :: "f64 \<Rightarrow> int \<Rightarrow> draw \<Rightarrow> bytes" where
  "gen_line stddev cardinality d =
     fst (stations ! dr_station d) @ '';'' @ format_fixed 1 (gen_temp stddev d)
       @ (if 0 < cardinality then '';'' @ ''sensor-'' @ format_int (dr_sensor d) else [])"

definition gen_file :: "f64 \<Rightarrow> int \<Rightarrow> draw list \<Rightarrow> bytes" where
  "gen_file stddev cardinality draws = concat (map (\<lambda>d. gen_line stddev cardinality d @ [newline]) draws)"


section \<open>Reading it back\<close>

text \<open>The schemas of \<open>benchmarks/\<close> for the files with and without the sensor column.\<close>

definition gen_schema :: "int \<Rightarrow> schema" where
  "gen_schema cardinality = \<lparr>delimiter = CHR '';'', has_header = False, quote_aware = False,
     columns = [\<lparr>cs_name = ''station'', cs_type = TypeString, cs_kind = KindDimension\<rparr>,
                \<lparr>cs_name = ''temperature'', cs_type = TypeFloat64, cs_kind = KindMeasure\<rparr>]
       @ (if 0 < cardinality then [\<lparr>cs_name = ''sensor_id'', cs_type = TypeString, cs_kind = KindMeasure\<rparr>] else [])\<rparr>"

text \<open>The float a temperature printed to one decimal is read as.\<close>

definition one_decimal :: "f64 \<Rightarrow> f64" where
  "one_decimal x = mk_f64 (f64_sign x) (decimal_mag (fixed_decimal 1 (f64_mag x)) (-1))"

definition gen_cells :: "f64 \<Rightarrow> int \<Rightarrow> draw \<Rightarrow> value_t option list" where
  "gen_cells stddev cardinality d =
     [Some (string_value (fst (stations ! dr_station d))), Some (float64_value (one_decimal (gen_temp stddev d)))]
       @ (if 0 < cardinality then [Some (string_value (''sensor-'' @ format_int (dr_sensor d)))] else [])"

text \<open>Draws in range: a station of the table, and a temperature below \<open>2 ^ 53\<close>.\<close>

definition tame :: "f64 \<Rightarrow> bool" where
  "tame x \<longleftrightarrow> \<not> is_nan x \<and> \<not> is_inf x \<and> scaled_mag (f64_mag x) < 2 ^ 53 * f64_unit"

definition draw_ok :: "f64 \<Rightarrow> draw \<Rightarrow> bool" where
  "draw_ok stddev d \<longleftrightarrow> dr_station d < length stations \<and> tame (gen_temp stddev d)"

lemma fixed_decimal_range:
  assumes "0 \<le> m" and "scaled_mag m < 2 ^ 53 * f64_unit"
  shows "0 \<le> fixed_decimal 1 m \<and> fixed_decimal 1 m \<le> 10 * 2 ^ 53"
proof -
  have "0 \<le> scaled_mag m" using assms(1) by (simp add: scaled_mag_nonneg)
  then have "0 \<le> scaled_mag m * 10 div f64_unit" by (simp add: pos_imp_zdiv_nonneg_iff)
  moreover have "scaled_mag m * 10 div f64_unit < 10 * 2 ^ 53" using assms(2) by (intro int_div_less) simp_all
  ultimately show ?thesis by (auto simp: fixed_decimal_def Let_def)
qed

lemma decimal_mag_tenth:
  assumes "0 \<le> c" and "c \<le> 10 * 2 ^ 53"
  shows "decimal_mag c (-1) < inf_mag"
proof -
  have "c * f64_unit div 10 < 2 ^ 1128" using assms by (intro int_div_less) (simp_all add: f64_unit_def)
  then show ?thesis using round_mag_bound [of 10 "c * f64_unit"] by (simp add: decimal_mag_def)
qed

text \<open>A tame temperature is printed as a literal with one digit after the point, which reads as the rounded value.\<close>

lemma format_temp:
  assumes "tame x"
  shows "\<exists>ip fp. format_fixed 1 x = decimal_literal (f64_sign x) ip fp \<and> list_all is_digit ip \<and> list_all is_digit fp
     \<and> parse_float (format_fixed 1 x) = Inr (one_decimal x)"
proof -
  define c where "c = fixed_decimal 1 (f64_mag x)"
  have c: "0 \<le> c" "c \<le> 10 * 2 ^ 53"
    using fixed_decimal_range [of "f64_mag x"] assms f64_mag_range(1) [of x] by (simp_all add: c_def tame_def)
  obtain ip fp where lit: "fixed_digits c (-1) = decimal_literal False ip fp" "ip \<noteq> []" "list_all is_digit ip" "list_all is_digit fp"
      "decimal_mag (int (digits_value 0 (ip @ fp))) (- int (length fp)) = decimal_mag c (-1)"
    using fixed_digits_literal [OF c(1), of "-1"] by blast
  have f: "format_fixed 1 x = decimal_literal (f64_sign x) ip fp"
    using assms lit(1) by (simp add: format_fixed_def format_special_def tame_def decimal_literal_def c_def)
  have "f64_of_literal neg m 10 (- int k) = (if decimal_mag m (- int k) = inf_mag then Inl ErrRange else Inr (mk_f64 neg (decimal_mag m (- int k))))" for neg m k
    by (simp add: f64_of_literal_def decimal_mag_def Let_def)
  then have "parse_float (format_fixed 1 x) = Inr (one_decimal x)"
    using parse_decimal_literal [OF lit(2-4), of "f64_sign x"] lit(5) decimal_mag_tenth [OF c] unfolding f one_decimal_def c_def by simp
  with f lit(3,4) show ?thesis by blast
qed

text \<open>Neither separators nor line ends occur in what is written between them.\<close>

definition inert :: "string \<Rightarrow> bool" where
  "inert w \<longleftrightarrow> CHR '';'' \<notin> set w \<and> newline \<notin> set w \<and> carriage_return \<notin> set w"

lemma inert_digits: "list_all is_digit w \<Longrightarrow> inert w"
  by (auto simp: inert_def list_all_iff is_digit_def newline_def carriage_return_def)

lemma inert_literal: "list_all is_digit ip \<Longrightarrow> list_all is_digit fp \<Longrightarrow> inert (decimal_literal neg ip fp)"
  using inert_digits [of ip] inert_digits [of fp]
  by (auto simp: decimal_literal_def inert_def newline_def carriage_return_def)

lemma inert_int: "inert (format_int i)"
proof -
  have "inert (format_nat n)" for n by (rule inert_digits) (simp add: list_all_iff format_nat_digits)
  then show ?thesis by (auto simp: format_int_def inert_def newline_def carriage_return_def)
qed

lemma inert_stations: "list_all (\<lambda>st. inert (fst st)) stations"
  by (simp add: stations_def inert_def newline_def carriage_return_def)

lemma inert_station: "i < length stations \<Longrightarrow> inert (fst (stations ! i))"
  using inert_stations by (simp add: list_all_length)

lemma inert_temp: "tame x \<Longrightarrow> inert (format_fixed 1 x)"
  using format_temp [of x] inert_literal by metis

lemma gen_line_ends: "draw_ok stddev d \<Longrightarrow> newline \<notin> set (gen_line stddev k d) \<and> carriage_return \<notin> set (gen_line stddev k d)"
  using inert_station [of "dr_station d"] inert_temp [of "gen_temp stddev d"] inert_int [of "dr_sensor d"]
  by (auto simp: draw_ok_def gen_line_def inert_def newline_def carriage_return_def)

lemma gen_file_lines: "list_all (draw_ok stddev) ds \<Longrightarrow> lines_of (gen_file stddev k ds) = map (gen_line stddev k) ds"
proof (induction ds)
  case (Cons d ds)
  then have e: "newline \<notin> set (gen_line stddev k d)" "carriage_return \<notin> set (gen_line stddev k d)"
    using gen_line_ends by auto
  then have "chop_last carriage_return (gen_line stddev k d) = gen_line stddev k d"
    by (auto simp: chop_last_def dest: last_in_set)
  then show ?case using Cons e(1) by (simp add: gen_file_def lines_of_line)
qed (simp add: gen_file_def)

lemma gen_line_parsed:
  assumes "draw_ok stddev d"
  shows "\<exists>vs. parse_line (gen_schema k) (gen_line stddev k d) = Inr vs \<and> row_cells (gen_schema k) vs = gen_cells stddev k d"
proof -
  define name temp sensor where "name = fst (stations ! dr_station d)" and "temp = format_fixed 1 (gen_temp stddev d)"
    and "sensor = ''sensor-'' @ format_int (dr_sensor d)"
  have p: "CHR '';'' \<notin> set name" "CHR '';'' \<notin> set temp" "CHR '';'' \<notin> set sensor"
    using assms inert_station inert_temp inert_int [of "dr_sensor d"]
    by (auto simp: name_def temp_def sensor_def draw_ok_def inert_def)
  have line: "gen_line stddev k d = name @ CHR '';'' # temp @ (if 0 < k then CHR '';'' # sensor else [])"
    by (simp add: gen_line_def name_def temp_def sensor_def)
  have "split_fields (gen_line stddev k d) (CHR '';'') = (if 0 < k then [name, temp, sensor] else [name, temp])"
    using p by (simp add: split_fields_split_on line split_on_append_sep)
  moreover have "parse_float temp = Inr (one_decimal (gen_temp stddev d))"
    using format_temp assms by (auto simp: draw_ok_def temp_def)
  moreover have "delimiter_or_default (gen_schema k) = CHR '';''" by (simp add: gen_schema_def delimiter_or_default_def nul_def)
  moreover have "\<not> quote_aware (gen_schema k)" by (simp add: gen_schema_def)
  ultimately show ?thesis
    by (cases "0 < k") (simp_all add: parse_row_def split_line_def field_parsers_for_def parse_fields_def default_field_parser_def
        parse_string_field_def parse_float64_field_def row_cells_def seen_value_def gen_cells_def gen_schema_def name_def sensor_def)
qed

text \<open>Without noise the temperature is the station's mean, and every mean of the table is tame.\<close>

lemma zero_noise: "f64_mul f64_zero f64_zero = f64_zero"
  using inf_mag_range by (simp add: f64_mul_def f64_zero_def f64_sign_def f64_mag_def is_nan_def is_inf_def f64_of_ratio_def round_mag_def
      scaled_mag_def mk_f64_def Let_def f64_unit_def inf_mag_def)

lemma finite_zero: "finite_f64 f64_zero" "f64_scaled f64_zero = 0"
  by (simp_all add: finite_f64_def f64_zero_def f64_mag_def inf_mag_def f64_scaled_def)

lemma add_zero_mag:
  assumes "finite_f64 x"
  shows "f64_mag (f64_add x f64_zero) = f64_mag x"
proof -
  have "\<bar>f64_key (f64_add x f64_zero)\<bar> = \<bar>f64_key x\<bar>"
    using add_key(1) [OF assms finite_zero(1)] round_key_scaled [of x] assms by (simp add: finite_zero(2) finite_f64_def)
  then show ?thesis using f64_mag_range(1) by (auto simp: f64_key_def split: if_splits)
qed

lemma station_mean_small: "st \<in> set stations \<Longrightarrow> f64_mag (station_mean st) \<le> 1032 * 2 ^ 52"
proof -
  assume "st \<in> set stations"
  then have t: "0 \<le> snd st" "snd st \<le> 512 * 10" by (auto simp: stations_def)
  have "round_mag (snd st * f64_unit) 10 \<le> round_mag (512 * 10 * f64_unit) 10"
    using t by (intro round_mag_mono_num mult_right_mono) simp_all
  also have "512 * 10 * f64_unit = scaled_mag (1032 * 2 ^ 52) * 10" by (simp add: scaled_mag_def f64_unit_def Let_def)
  also have "round_mag (scaled_mag (1032 * 2 ^ 52) * 10) 10 = 1032 * 2 ^ 52"
    using round_mag_scale [of 10 "scaled_mag (1032 * 2 ^ 52)" 1] round_mag_scaled [of "1032 * 2 ^ 52"] by (simp add: inf_mag_def)
  finally show ?thesis
    using round_mag_nonneg [of "snd st * f64_unit" 10] t by (simp add: station_mean_def f64_mk)
qed

lemma still_draw_ok:
  assumes "dr_station d < length stations" and "dr_noise d = f64_zero"
  shows "draw_ok f64_zero d"
proof -
  define m where "m = f64_mag (station_mean (stations ! dr_station d))"
  have m: "0 \<le> m" "m \<le> 1032 * 2 ^ 52" using assms(1) station_mean_small by (simp_all add: m_def f64_mag_range(1))
  then have fin: "finite_f64 (station_mean (stations ! dr_station d))" by (simp add: finite_f64_def m_def inf_mag_def)
  have t: "f64_mag (gen_temp f64_zero d) = m" by (simp add: gen_temp_def assms(2) zero_noise add_zero_mag [OF fin] m_def)
  have "scaled_mag m \<le> scaled_mag (1032 * 2 ^ 52)" using m by (rule scaled_mag_mono)
  also have "\<dots> < 2 ^ 53 * f64_unit" by (simp add: scaled_mag_def f64_unit_def Let_def)
  finally show ?thesis using m assms(1) by (simp add: draw_ok_def tame_def t is_nan_def is_inf_def inf_mag_def)
qed

text \<open>
  The benchmark data is what the engine expects: of a generated file with temperatures in range every line is
  well-formed under the schemas of \<open>benchmarks/\<close>, and its rows are the stations drawn, the temperatures rounded to
  a tenth of a degree, and the sensors.
\<close>

theorem generated_data_ingests:
  assumes "list_all (draw_ok stddev) ds"
  shows "bad_count (gen_schema k) (data_lines_of (gen_schema k) (gen_file stddev k ds)) = 0
     \<and> good_rows pol (gen_schema k) (data_lines_of (gen_schema k) (gen_file stddev k ds)) = map (gen_cells stddev k) ds"
proof -
  have lines: "data_lines_of (gen_schema k) (gen_file stddev k ds) = map (gen_line stddev k) ds"
    using gen_file_lines [OF assms] by (simp add: data_lines_of_def header_dropped_def gen_schema_def)
  have parsed: "\<exists>vs. parse_line (gen_schema k) (gen_line stddev k d) = Inr vs \<and> row_cells (gen_schema k) vs = gen_cells stddev k d"
    if "d \<in> set ds" for d
    using gen_line_parsed assms that by (auto simp: list_all_iff)
  have "bad_count (gen_schema k) (map (gen_line stddev k) ds) = 0"
    using parsed by (fastforce simp: bad_count_def filter_empty_conv)
  moreover have "good_rows pol (gen_schema k) (map (gen_line stddev k) ds) = map (gen_cells stddev k) ds"
    using parsed
  proof (induction ds)
    case (Cons d ds)
    obtain vs where "parse_line (gen_schema k) (gen_line stddev k d) = Inr vs" "row_cells (gen_schema k) vs = gen_cells stddev k d"
      using Cons.prems [of d] by auto
    with Cons show ?case by simp
  qed simp
  ultimately show ?thesis by (simp add: lines)
qed

theorem generated_data_ingests_witness:
  "good_rows ErrorPolicyFail (gen_schema 0) (data_lines_of (gen_schema 0) (gen_file f64_zero 0 [\<lparr>dr_station = 1, dr_noise = f64_zero, dr_sensor = 0\<rparr>]))
     = [gen_cells f64_zero 0 \<lparr>dr_station = 1, dr_noise = f64_zero, dr_sensor = 0\<rparr>]"
proof -
  have "draw_ok f64_zero \<lparr>dr_station = 1, dr_noise = f64_zero, dr_sensor = 0\<rparr>"
    by (rule still_draw_ok) (simp_all add: stations_def)
  then show ?thesis
    using generated_data_ingests [of f64_zero "[\<lparr>dr_station = 1, dr_noise = f64_zero, dr_sensor = 0\<rparr>]" 0 ErrorPolicyFail] by simp
qed

end
