(* ===== verification/BufWriter.thy ===== *)
theory BufWriter
  imports Prelude
begin

text \<open>
  What the generator uses of Go's \<open>bufio\<close>: a \<open>Writer\<close> over a file. The file system takes some number of bytes and
  then fails, with the bytes that fitted written; the first error sticks.
\<close>

record buf_writer =
  bw_disk :: bytes
  bw_room :: nat
  bw_buf :: bytes
  bw_failed :: bool

definition new_writer :: "nat \<Rightarrow> buf_writer" where
  "new_writer room = \<lparr>bw_disk = [], bw_room = room, bw_buf = [], bw_failed = False\<rparr>"

text \<open>\<open>os.File.Write\<close>.\<close>

definition os_write :: "bytes \<Rightarrow> buf_writer \<Rightarrow> buf_writer" where
  "os_write p w = w\<lparr>bw_disk := bw_disk w @ take (bw_room w) p, bw_room := bw_room w - length p, bw_failed := bw_room w < length p\<rparr>"

definition bw_flush :: "buf_writer \<Rightarrow> buf_writer" where
  "bw_flush w =
     (if bw_failed w \<or> bw_buf w = [] then w
      else (let w' = os_write (bw_buf w) w in w'\<lparr>bw_buf := drop (bw_room w) (bw_buf w)\<rparr>))"

function bw_write :: "nat \<Rightarrow> bytes \<Rightarrow> buf_writer \<Rightarrow> buf_writer" where
  "bw_write cap p w =
     (if bw_failed w then w
      else if cap - length (bw_buf w) < length p then
        (if bw_buf w = [] then bw_write cap (drop (bw_room w) p) (os_write p w)
         else (let k = cap - length (bw_buf w)
               in bw_write cap (drop k p) (bw_flush (w\<lparr>bw_buf := bw_buf w @ take k p\<rparr>))))
      else w\<lparr>bw_buf := bw_buf w @ p\<rparr>)"
  by pat_completeness auto

termination
  by (relation "measure (\<lambda>(cap, p, w). if bw_failed w then 0 else 1 + 2 * length p + (if bw_buf w = [] then 0 else 1))")
    (auto simp: bw_flush_def os_write_def Let_def)

declare bw_write.simps [simp del]

text \<open>
  After \<open>sent\<close> was written: without an error it is on the disk or in the buffer; after an error a proper prefix is on
  the disk, as long as there was room.
\<close>

definition writer_holds :: "nat \<Rightarrow> bytes \<Rightarrow> buf_writer \<Rightarrow> bool" where
  "writer_holds room sent w \<longleftrightarrow>
     (if bw_failed w then bw_disk w = take room sent \<and> room < length sent
      else bw_disk w @ bw_buf w = sent \<and> length (bw_disk w) + bw_room w = room)"

lemma writer_new: "writer_holds room [] (new_writer room)"
  by (simp add: writer_holds_def new_writer_def)

lemma writer_os_write:
  assumes "writer_holds room sent w" and "\<not> bw_failed w" and "bw_buf w = []"
  shows "writer_holds room (sent @ p) (os_write p w)"
  using assms by (auto simp: writer_holds_def os_write_def)

lemma writer_flush:
  assumes "writer_holds room sent w"
  shows "writer_holds room sent (bw_flush w)" and "bw_failed (bw_flush w) \<or> bw_buf (bw_flush w) = []"
proof -
  show "writer_holds room sent (bw_flush w)"
    using assms by (auto simp: writer_holds_def bw_flush_def os_write_def Let_def)
  show "bw_failed (bw_flush w) \<or> bw_buf (bw_flush w) = []"
    by (auto simp: bw_flush_def os_write_def Let_def)
qed

lemma writer_more: "writer_holds room sent w \<Longrightarrow> bw_failed w \<Longrightarrow> writer_holds room (sent @ p) w"
  by (simp add: writer_holds_def)

lemma writer_write: "writer_holds room sent w \<Longrightarrow> writer_holds room (sent @ p) (bw_write cap p w)"
proof (induction cap p w arbitrary: sent rule: bw_write.induct)
  case (1 cap p w)
  define k where "k = cap - length (bw_buf w)"
  consider "bw_failed w" | "\<not> bw_failed w" "k < length p" "bw_buf w = []" | "\<not> bw_failed w" "k < length p" "bw_buf w \<noteq> []"
    | "\<not> bw_failed w" "\<not> k < length p" by blast
  then show ?case
  proof cases
    case 1
    then show ?thesis using writer_more "1.prems" by (simp add: bw_write.simps)
  next
    case 2
    have os: "writer_holds room (sent @ p) (os_write p w)" by (rule writer_os_write [OF "1.prems" 2(1,3)])
    have "writer_holds room (sent @ p) (bw_write cap (drop (bw_room w) p) (os_write p w))"
    proof (cases "bw_failed (os_write p w)")
      case True
      then show ?thesis using os by (simp add: bw_write.simps)
    next
      case False
      then have "drop (bw_room w) p = []" by (simp add: os_write_def)
      then show ?thesis using "1.IH"(1) [of "sent @ p"] 2 os by (simp add: k_def)
    qed
    then show ?thesis using 2 by (subst bw_write.simps) (simp add: k_def)
  next
    case 3
    have "writer_holds room (sent @ take k p) (w\<lparr>bw_buf := bw_buf w @ take k p\<rparr>)"
      using "1.prems" 3(1) by (auto simp: writer_holds_def)
    then have "writer_holds room ((sent @ take k p) @ drop k p) (bw_write cap (drop k p) (bw_flush (w\<lparr>bw_buf := bw_buf w @ take k p\<rparr>)))"
      using "1.IH"(2) [OF 3(1) _ 3(3) k_def] 3(2) writer_flush(1) by (simp only: k_def)
    then show ?thesis using 3 by (subst bw_write.simps) (simp add: Let_def k_def)
  next
    case 4
    then show ?thesis using "1.prems" by (subst bw_write.simps) (auto simp: writer_holds_def k_def)
  qed
qed

text \<open>A writer that fails has filled the disk; one that has flushed without failing has written everything.\<close>

lemma flushed_result:
  assumes "writer_holds room sent w"
  shows "bw_disk (bw_flush w) = take room sent \<and> bw_failed (bw_flush w) = (room < length sent)"
  using writer_flush [OF assms] by (cases "bw_failed (bw_flush w)") (auto simp: writer_holds_def)

end
