(* ===== verification/GenCommand.thy ===== *)
theory GenCommand
  imports Generator Flags BufWriter
begin

text \<open>
  \<open>cmd/gen1brc/main.go\<close> as a command: its flags, the loop that draws and writes the rows, and the file it leaves,
  also when the file system fails. The random source of \<open>math/rand/v2\<close> and the clock are parameters.
\<close>

section \<open>The random source\<close>

text \<open>
  \<open>rand.New(rand.NewPCG(s1, s2))\<close> and the three methods the generator calls, on a state of any type.
\<close>

record 'r rand_lib =
  rn_new :: "u64 \<Rightarrow> u64 \<Rightarrow> 'r"
  rn_int_n :: "int \<Rightarrow> 'r \<Rightarrow> int \<times> 'r"
  rn_norm :: "'r \<Rightarrow> f64 \<times> 'r"
  rn_int64_n :: "int \<Rightarrow> 'r \<Rightarrow> int \<times> 'r"

text \<open>What is used of it: \<open>IntN(n)\<close> is at least 0 and below \<open>n\<close>.\<close>

definition rand_ok :: "'r rand_lib \<Rightarrow> bool" where
  "rand_ok lib \<longleftrightarrow> (\<forall>n r. 0 < n \<longrightarrow> 0 \<le> fst (rn_int_n lib n r) \<and> fst (rn_int_n lib n r) < n)"

section \<open>Rows\<close>

definition draw_row :: "'r rand_lib \<Rightarrow> int \<Rightarrow> 'r \<Rightarrow> draw \<times> 'r" where
  "draw_row lib cardinality r =
     (let (i, r1) = rn_int_n lib (int (length stations)) r;
          (x, r2) = rn_norm lib r1;
          (k, r3) = (if 0 < cardinality then rn_int64_n lib cardinality r2 else (0, r2))
      in (\<lparr>dr_station = nat i, dr_noise = x, dr_sensor = k\<rparr>, r3))"

text \<open>The loop over the rows: the writer after it, and the row whose write failed.\<close>

fun gen_rows :: "'r rand_lib \<Rightarrow> f64 \<Rightarrow> int \<Rightarrow> nat \<Rightarrow> nat \<Rightarrow> 'r \<Rightarrow> buf_writer \<Rightarrow> nat option \<times> buf_writer" where
  "gen_rows lib stddev cardinality i 0 r w = (None, w)"
| "gen_rows lib stddev cardinality i (Suc n) r w =
     (let (d, r') = draw_row lib cardinality r;
          w' = bw_write (2 ^ 20) (gen_line stddev cardinality d @ [newline]) w
      in if bw_failed w' then (Some i, w') else gen_rows lib stddev cardinality (i + 1) n r' w')"

fun gen_draws :: "'r rand_lib \<Rightarrow> int \<Rightarrow> nat \<Rightarrow> 'r \<Rightarrow> draw list" where
  "gen_draws lib cardinality 0 r = []"
| "gen_draws lib cardinality (Suc n) r = (let (d, r') = draw_row lib cardinality r in d # gen_draws lib cardinality n r')"

section \<open>The command\<close>

record gen_world =
  gw_mkdir :: "string option"
  gw_create :: "string option"
  gw_room :: nat
  gw_stat :: "string option"
  gw_elapsed :: string

datatype gen_error =
    GenMkdir string
  | GenCreate string
  | GenWriteRow nat
  | GenFlush
  | GenStat string

definition mebibytes :: "nat \<Rightarrow> string" where
  "mebibytes n = format_fixed 1 (f64_div (f64_of_int (int n)) (f64_of_int (2 ^ 20)))"

definition gen_summary :: "gen_world \<Rightarrow> int \<Rightarrow> string \<Rightarrow> nat \<Rightarrow> string" where
  "gen_summary w rows out n = ''wrote '' @ format_int rows @ '' rows ('' @ format_nat (length stations) @ '' stations) to '' @ out
     @ '' ('' @ mebibytes n @ '' MiB) in '' @ gw_elapsed w"

text \<open>\<open>run\<close>: what it returns and the file it leaves, if it created one. A negative number of rows is none.\<close>

definition gen_seed :: "'r rand_lib \<Rightarrow> u64 \<Rightarrow> 'r" where
  "gen_seed lib seed = rn_new lib seed (seed XOR 0xdeadbeef)"

definition gen_run :: "'r rand_lib \<Rightarrow> gen_world \<Rightarrow> int \<Rightarrow> string \<Rightarrow> u64 \<Rightarrow> f64 \<Rightarrow> int \<Rightarrow> (gen_error + string) \<times> bytes option" where
  "gen_run lib w rows out seed stddev cardinality =
     (case gw_mkdir w of
        Some e \<Rightarrow> (Inl (GenMkdir e), None)
      | None \<Rightarrow>
          (case gw_create w of
             Some e \<Rightarrow> (Inl (GenCreate e), None)
           | None \<Rightarrow>
               (case gen_rows lib stddev cardinality 0 (nat rows) (gen_seed lib seed) (new_writer (gw_room w)) of
                  (Some i, bw) \<Rightarrow> (Inl (GenWriteRow i), Some (bw_disk bw))
                | (None, bw) \<Rightarrow>
                    (let bw' = bw_flush bw
                     in if bw_failed bw' then (Inl GenFlush, Some (bw_disk bw'))
                        else (case gw_stat w of
                            Some e \<Rightarrow> (Inl (GenStat e), Some (bw_disk bw'))
                          | None \<Rightarrow> (Inr (gen_summary w rows out (length (bw_disk bw'))), Some (bw_disk bw')))))))"

text \<open>The flags, with \<open>ParseUint\<close> of base 0 and \<open>ParseFloat\<close>, and \<open>main\<close> with its exit status.\<close>

definition parse_uint_flag :: "string \<Rightarrow> u64 option" where
  "parse_uint_flag s =
     (let (base, ds) = base_prefix s; digits = filter (\<lambda>c. c \<noteq> CHR ''_'') ds;
          n = foldl (\<lambda>n c. base * n + digit_of c) 0 digits
      in if s = [] \<or> \<not> list_all (\<lambda>c. digit_of c < base) digits
            \<or> (CHR ''_'' \<in> set ds \<and> \<not> underscore_ok s) \<or> 2 ^ 64 \<le> n
         then None else Some (of_nat n))"

record gen_flags =
  gf_rows :: int
  gf_out :: string
  gf_seed :: u64
  gf_stddev :: f64
  gf_sensors :: int

definition gen_defaults :: gen_flags where
  "gen_defaults = \<lparr>gf_rows = 10000000, gf_out = ''benchmarks/data/measurements.csv'', gf_seed = 42, gf_stddev = f64_of_int 10, gf_sensors = 0\<rparr>"

definition gen_flag_set :: "string \<Rightarrow> gen_flags flag option" where
  "gen_flag_set = map_of
     [(''rows'', int_flag (\<lambda>v c. c\<lparr>gf_rows := v\<rparr>)), (''out'', string_flag (\<lambda>v c. c\<lparr>gf_out := v\<rparr>)),
      (''seed'', ValueFlag (\<lambda>v c. map_option (\<lambda>n. c\<lparr>gf_seed := n\<rparr>) (parse_uint_flag v))),
      (''stddev'', ValueFlag (\<lambda>v c. case parse_float v of Inl _ \<Rightarrow> None | Inr x \<Rightarrow> Some (c\<lparr>gf_stddev := x\<rparr>))),
      (''sensor-cardinality'', int_flag (\<lambda>v c. c\<lparr>gf_sensors := v\<rparr>))]"

definition gen_main :: "'r rand_lib \<Rightarrow> gen_world \<Rightarrow> string list \<Rightarrow> nat \<times> string option \<times> bytes option" where
  "gen_main lib w args =
     (case parse_flags gen_flag_set args gen_defaults of
        Inl e \<Rightarrow> (flag_exit e, None, None)
      | Inr (f, _) \<Rightarrow>
          (case gen_run lib w (gf_rows f) (gf_out f) (gf_seed f) (gf_stddev f) (gf_sensors f) of
             (Inl _, disk) \<Rightarrow> (1, None, disk)
           | (Inr line, disk) \<Rightarrow> (0, Some line, disk)))"

section \<open>What the command leaves\<close>

lemma gen_file_Cons: "gen_file stddev k (d # ds) = (gen_line stddev k d @ [newline]) @ gen_file stddev k ds"
  by (simp add: gen_file_def)

lemma gen_rows_write:
  assumes "writer_holds room sent w"
  shows "case gen_rows lib stddev k i n r w of
      (None, w') \<Rightarrow> writer_holds room (sent @ gen_file stddev k (gen_draws lib k n r)) w'
    | (Some j, w') \<Rightarrow> bw_disk w' = take room (sent @ gen_file stddev k (gen_draws lib k n r))
        \<and> room < length (sent @ gen_file stddev k (gen_draws lib k n r))"
  using assms
proof (induction n arbitrary: i r w sent)
  case 0
  then show ?case by (simp add: gen_file_def)
next
  case (Suc n)
  obtain d r' where d: "draw_row lib k r = (d, r')" by fastforce
  define row where "row = gen_line stddev k d @ [newline]"
  define w' where "w' = bw_write (2 ^ 20) row w"
  have holds: "writer_holds room (sent @ row) w'" unfolding w'_def by (rule writer_write [OF Suc.prems])
  have whole: "sent @ gen_file stddev k (gen_draws lib k (Suc n) r) = (sent @ row) @ gen_file stddev k (gen_draws lib k n r')"
    by (simp add: d gen_file_Cons row_def)
  have step: "gen_rows lib stddev k i (Suc n) r w = (if bw_failed w' then (Some i, w') else gen_rows lib stddev k (i + 1) n r' w')"
    by (simp only: gen_rows.simps d Let_def prod.case row_def w'_def)
  show ?case
  proof (cases "bw_failed w'")
    case True
    then have "bw_disk w' = take room ((sent @ row) @ xs) \<and> room < length ((sent @ row) @ xs)" for xs
      using holds by (simp add: writer_holds_def)
    then show ?thesis using True unfolding whole step by simp
  next
    case False
    then show ?thesis using Suc.IH [OF holds, where i = "i + 1" and r = r'] unfolding whole step by (simp only: if_False)
  qed
qed

lemma gen_draws_stations: "rand_ok lib \<Longrightarrow> d \<in> set (gen_draws lib k n r) \<Longrightarrow> dr_station d < length stations"
proof (induction n arbitrary: r)
  case (Suc n)
  obtain e r' where e: "draw_row lib k r = (e, r')" by fastforce
  have "0 < length stations" by (simp add: stations_def)
  then have i: "0 \<le> fst (rn_int_n lib (int (length stations)) r)" "fst (rn_int_n lib (int (length stations)) r) < int (length stations)"
    using Suc.prems(1) by (simp_all add: rand_ok_def)
  have "dr_station (fst (draw_row lib k r)) = nat (fst (rn_int_n lib (int (length stations)) r))"
    by (simp add: draw_row_def Let_def split: prod.splits)
  then have "dr_station e < length stations" using e i by (simp add: nat_less_iff)
  then show ?case using Suc e by auto
qed simp

lemma length_gen_draws: "length (gen_draws lib k n r) = n"
  by (induction n arbitrary: r) (simp_all split: prod.splits)

text \<open>
  C29. \<open>gen1brc\<close> leaves what it says: once the file is created, it holds the rows drawn from the seed, as many bytes of
  them as the file system took; the command fails exactly if that is not all of them, or the file cannot be examined; and
  a complete file is read back, if the temperatures are in range, as one row per row drawn, under either policy for
  malformed lines.
\<close>

theorem generator_run:
  assumes "rand_ok lib" and "gw_mkdir w = None" and "gw_create w = None"
    and "draws = gen_draws lib k (nat rows) (gen_seed lib seed)" and "csv = gen_file stddev k draws"
    and "list_all (\<lambda>d. tame (gen_temp stddev d)) draws"
  shows "snd (gen_run lib w rows out seed stddev k) = Some (take (gw_room w) csv)
    \<and> isl (fst (gen_run lib w rows out seed stddev k)) = (gw_room w < length csv \<or> gw_stat w \<noteq> None)
    \<and> length draws = nat rows
    \<and> good_rows pol (gen_schema k) (data_lines_of (gen_schema k) csv) = map (gen_cells stddev k) draws"
proof -
  define res where "res = gen_rows lib stddev k 0 (nat rows) (gen_seed lib seed) (new_writer (gw_room w))"
  have res: "case res of (None, w') \<Rightarrow> writer_holds (gw_room w) csv w'
      | (Some j, w') \<Rightarrow> bw_disk w' = take (gw_room w) csv \<and> gw_room w < length csv"
    using gen_rows_write [OF writer_new, where lib = lib and stddev = stddev and k = k and i = 0 and n = "nat rows" and r = "gen_seed lib seed"] assms(4,5)
    by (simp only: res_def append_Nil)
  have "snd (gen_run lib w rows out seed stddev k) = Some (take (gw_room w) csv)
    \<and> isl (fst (gen_run lib w rows out seed stddev k)) = (gw_room w < length csv \<or> gw_stat w \<noteq> None)"
  proof (cases "fst res")
    case None
    then have "writer_holds (gw_room w) csv (snd res)" using res by (cases res) auto
    from flushed_result [OF this] show ?thesis
      using None assms(2,3) by (cases res) (auto simp: gen_run_def Let_def split: option.splits simp flip: res_def)
  next
    case (Some j)
    then show ?thesis using res assms(2,3) by (cases res) (auto simp: gen_run_def simp flip: res_def)
  qed
  moreover have "list_all (draw_ok stddev) draws"
    using assms(6) gen_draws_stations [OF assms(1)] by (auto simp: list_all_iff draw_ok_def assms(4))
  ultimately show ?thesis using generated_data_ingests assms(5) by (simp add: assms(4) length_gen_draws)
qed

text \<open>A source that always draws the second station and its mean temperature.\<close>

definition sample_rand :: "unit rand_lib" where
  "sample_rand = \<lparr>rn_new = \<lambda>_ _. (), rn_int_n = \<lambda>n r. (min 1 (n - 1), r), rn_norm = \<lambda>r. (f64_zero, r), rn_int64_n = \<lambda>n r. (0, r)\<rparr>"

theorem generator_run_witness:
  "snd (gen_run sample_rand \<lparr>gw_mkdir = None, gw_create = None, gw_room = 10, gw_stat = None, gw_elapsed = ''1s''\<rparr> 2 ''f'' 42 f64_zero 0)
     = Some ''Abu Dhabi;''"
proof -
  define draws csv where "draws = gen_draws sample_rand 0 (nat 2) (gen_seed sample_rand 42)" and "csv = gen_file f64_zero 0 draws"
  define d where "d = \<lparr>dr_station = 1, dr_noise = f64_zero, dr_sensor = 0\<rparr>"
  have r: "rand_ok sample_rand" by (auto simp: rand_ok_def sample_rand_def)
  have "length stations = 104" by (simp add: stations_def)
  then have "draw_row sample_rand 0 () = (d, ())" by (simp add: draw_row_def sample_rand_def d_def)
  then have draws: "draws = [d, d]" by (simp add: draws_def eval_nat_numeral)
  have "draw_ok f64_zero d" by (rule still_draw_ok) (simp_all add: d_def stations_def)
  then have "tame (gen_temp f64_zero d)" by (simp add: draw_ok_def)
  then have t: "list_all (\<lambda>d. tame (gen_temp f64_zero d)) draws" by (simp add: draws)
  have "take 10 csv = ''Abu Dhabi;''" by (simp add: csv_def draws gen_file_def gen_line_def d_def stations_def)
  then show ?thesis
    using generator_run [OF r _ _ draws_def csv_def t, of "\<lparr>gw_mkdir = None, gw_create = None, gw_room = 10, gw_stat = None, gw_elapsed = ''1s''\<rparr>" "''f''" ErrorPolicySkip]
    by simp
qed

end
