(* ===== verification/Pool.thy ===== *)
theory Pool
  imports Ingest Parallel
begin

text \<open>
  The batches as objects: \<open>batchPool\<close> and \<open>Release\<close> of \<open>internal/ingest/batch.go\<close> under the goroutines that share
  them, those of \<open>drainChunk\<close> and those of \<open>RunParallel\<close>. Elsewhere a batch is a value; here it is an address in
  a heap that one goroutine fills, hands over the unbuffered channel to another, which reads it row by row and
  puts it back into the pool for the next one to overwrite. What is shown is that the value model is right:
  no goroutine sees a batch change, or changes one, while another has it.

  A reader is given by the data lines it has still to parse; \<open>next_row\<close> on a line is \<open>parse_line\<close> (theory
  Ingest). The \<open>sync.Pool\<close> may return any batch put into it or make a new one, and may drop any.
\<close>

record chunk_reader =
  cr_lines :: "bytes list"
  cr_hand :: "nat option"
  cr_live :: bool

text \<open>A worker's batch comes with the number of the row \<open>Add\<close> reads next.\<close>

record batch_worker =
  bw_hand :: "(nat \<times> nat) option"
  bw_live :: bool
  bw_seen :: "value_t option list list"
  bw_count :: i64

record pooled =
  po_heap :: "batch list"
  po_free :: "nat list"
  po_readers :: "chunk_reader list"
  po_workers :: "batch_worker list"
  po_stopped :: bool

section \<open>The pool\<close>

text \<open>
  \<open>newBatchPool\<close>, \<open>put\<close> and \<open>Release\<close>, whose batches all come from the pool; and \<open>get\<close>, with the position in the pool of the
  batch it finds, if any.
\<close>

definition new_batch_pool :: "chunk_reader list \<Rightarrow> batch_worker list \<Rightarrow> pooled" where
  "new_batch_pool readers workers = \<lparr>po_heap = [], po_free = [], po_readers = readers, po_workers = workers, po_stopped = False\<rparr>"

definition put_batch :: "nat \<Rightarrow> pooled \<Rightarrow> pooled" where
  "put_batch a st = st\<lparr>po_free := a # po_free st\<rparr>"

definition release :: "nat \<Rightarrow> pooled \<Rightarrow> pooled" where
  "release a st = put_batch a st"

definition take_batch :: "schema \<Rightarrow> nat option \<Rightarrow> pooled \<Rightarrow> nat \<times> pooled" where
  "take_batch s found st =
     (case found of
        None \<Rightarrow> (length (po_heap st), st\<lparr>po_heap := po_heap st @ [get_batch s None]\<rparr>)
      | Some j \<Rightarrow>
          (let a = po_free st ! j
           in (a, st\<lparr>po_heap := (po_heap st)[a := get_batch s (Some (po_heap st ! a))],
                     po_free := take j (po_free st) @ drop (Suc j) (po_free st)\<rparr>)))"

definition set_reader :: "nat \<Rightarrow> chunk_reader \<Rightarrow> pooled \<Rightarrow> pooled" where
  "set_reader i r st = st\<lparr>po_readers := (po_readers st)[i := r]\<rparr>"

definition set_worker :: "nat \<Rightarrow> batch_worker \<Rightarrow> pooled \<Rightarrow> pooled" where
  "set_worker i w st = st\<lparr>po_workers := (po_workers st)[i := w]\<rparr>"

text \<open>\<open>batch.NumRows >= batchSize\<close> after a row was added.\<close>

definition batch_full :: "int \<Rightarrow> batch \<Rightarrow> bool" where
  "batch_full bsize b \<longleftrightarrow> 0 < num_rows b \<and> bsize \<le> int (num_rows b)"

definition closed_chan :: "pooled \<Rightarrow> bool" where
  "closed_chan st \<longleftrightarrow> list_all (\<lambda>r. \<not> cr_live r) (po_readers st)"

section \<open>The goroutines\<close>

text \<open>
  The steps of the readers, the iterations of \<open>drainChunk\<close>; of the workers, the loop of \<open>RunParallel\<close> with the row loop
  of \<open>Add\<close>; and of the environment: a cancelled context, a pool that loses a batch.
\<close>

inductive pool_step :: "schema \<Rightarrow> int \<Rightarrow> error_policy \<Rightarrow> pooled \<Rightarrow> pooled \<Rightarrow> bool" for s bsize pol where
  reader_get: "\<lbrakk>i < length (po_readers st); r = po_readers st ! i; cr_live r; cr_hand r = None;
       case found of None \<Rightarrow> True | Some j \<Rightarrow> j < length (po_free st); take_batch s found st = (a, st')\<rbrakk> \<Longrightarrow>
     pool_step s bsize pol st (set_reader i (r\<lparr>cr_hand := Some a\<rparr>) st')"
| reader_row: "\<lbrakk>i < length (po_readers st); r = po_readers st ! i; cr_live r; cr_hand r = Some a;
       \<not> batch_full bsize (po_heap st ! a); cr_lines r = l # ls; parse_line s l = Inr vs\<rbrakk> \<Longrightarrow>
     pool_step s bsize pol st (set_reader i (r\<lparr>cr_lines := ls\<rparr>)
       (st\<lparr>po_heap := (po_heap st)[a := append_row vs (po_heap st ! a)]\<rparr>))"
| reader_skip: "\<lbrakk>i < length (po_readers st); r = po_readers st ! i; cr_live r; cr_hand r = Some a;
       \<not> batch_full bsize (po_heap st ! a); cr_lines r = l # ls; parse_line s l = Inl e; pol \<noteq> ErrorPolicyFail\<rbrakk> \<Longrightarrow>
     pool_step s bsize pol st (set_reader i (r\<lparr>cr_lines := ls\<rparr>) st)"
| reader_fail: "\<lbrakk>i < length (po_readers st); r = po_readers st ! i; cr_live r; cr_hand r = Some a;
       \<not> batch_full bsize (po_heap st ! a); cr_lines r = l # ls; parse_line s l = Inl e; pol = ErrorPolicyFail\<rbrakk> \<Longrightarrow>
     pool_step s bsize pol st (release a (set_reader i (r\<lparr>cr_hand := None, cr_live := False\<rparr>) (st\<lparr>po_stopped := True\<rparr>)))"
| reader_send: "\<lbrakk>i < length (po_readers st); r = po_readers st ! i; cr_live r; cr_hand r = Some a;
       full = batch_full bsize (po_heap st ! a); full \<or> cr_lines r = [] \<and> 0 < num_rows (po_heap st ! a);
       j < length (po_workers st); w = po_workers st ! j; bw_live w; bw_hand w = None\<rbrakk> \<Longrightarrow>
     pool_step s bsize pol st
       (set_worker j (w\<lparr>bw_hand := Some (a, 0)\<rparr>) (set_reader i (r\<lparr>cr_hand := None, cr_live := full\<rparr>) st))"
| reader_done: "\<lbrakk>i < length (po_readers st); r = po_readers st ! i; cr_live r; cr_hand r = Some a;
       cr_lines r = []; num_rows (po_heap st ! a) = 0\<rbrakk> \<Longrightarrow>
     pool_step s bsize pol st (release a (set_reader i (r\<lparr>cr_hand := None, cr_live := False\<rparr>) st))"
| reader_quit: "\<lbrakk>i < length (po_readers st); r = po_readers st ! i; cr_live r; cr_hand r = Some a; po_stopped st\<rbrakk> \<Longrightarrow>
     pool_step s bsize pol st (release a (set_reader i (r\<lparr>cr_hand := None, cr_live := False\<rparr>) st))"
| worker_fail: "\<lbrakk>j < length (po_workers st); w = po_workers st ! j; bw_live w; bw_hand w = Some (a, 0);
       length (cols (po_heap st ! a)) \<noteq> length (columns s)\<rbrakk> \<Longrightarrow>
     pool_step s bsize pol st (release a (set_worker j (w\<lparr>bw_hand := None, bw_live := False\<rparr>) (st\<lparr>po_stopped := True\<rparr>)))"
| worker_row: "\<lbrakk>j < length (po_workers st); w = po_workers st ! j; bw_live w; bw_hand w = Some (a, n);
       n < num_rows (po_heap st ! a); length (cols (po_heap st ! a)) = length (columns s)\<rbrakk> \<Longrightarrow>
     pool_step s bsize pol st
       (set_worker j (w\<lparr>bw_hand := Some (a, n + 1), bw_seen := bw_seen w @ [batch_row (po_heap st ! a) n]\<rparr>) st)"
| worker_done: "\<lbrakk>j < length (po_workers st); w = po_workers st ! j; bw_live w; bw_hand w = Some (a, n);
       \<not> n < num_rows (po_heap st ! a); length (cols (po_heap st ! a)) = length (columns s)\<rbrakk> \<Longrightarrow>
     pool_step s bsize pol st
       (release a (set_worker j (w\<lparr>bw_hand := None, bw_count := bw_count w + of_nat (num_rows (po_heap st ! a))\<rparr>) st))"
| worker_exit: "\<lbrakk>j < length (po_workers st); w = po_workers st ! j; bw_live w; bw_hand w = None; closed_chan st\<rbrakk> \<Longrightarrow>
     pool_step s bsize pol st (set_worker j (w\<lparr>bw_live := False\<rparr>) st)"
| pool_stop: "\<not> po_stopped st \<Longrightarrow> pool_step s bsize pol st (st\<lparr>po_stopped := True\<rparr>)"
| pool_drop: "j < length (po_free st) \<Longrightarrow>
     pool_step s bsize pol st (st\<lparr>po_free := take j (po_free st) @ drop (Suc j) (po_free st)\<rparr>)"

inductive_cases pool_stepE: "pool_step s bsize pol st st'"

definition pool_start :: "bytes list list \<Rightarrow> int \<Rightarrow> pooled" where
  "pool_start lss workers =
     new_batch_pool (map (\<lambda>ls. \<lparr>cr_lines = ls, cr_hand = None, cr_live = True\<rparr>) lss)
       (replicate (worker_count workers) \<lparr>bw_hand = None, bw_live = True, bw_seen = [], bw_count = 0\<rparr>)"

definition pool_finished :: "pooled \<Rightarrow> bool" where
  "pool_finished st \<longleftrightarrow> closed_chan st \<and> list_all (\<lambda>w. \<not> bw_live w) (po_workers st)"

section \<open>Who has which batch\<close>

definition reader_holds :: "chunk_reader \<Rightarrow> nat multiset" where
  "reader_holds r = (case cr_hand r of None \<Rightarrow> {#} | Some a \<Rightarrow> {#a#})"

definition worker_holds :: "batch_worker \<Rightarrow> nat multiset" where
  "worker_holds w = (case bw_hand w of None \<Rightarrow> {#} | Some (a, n) \<Rightarrow> {#a#})"

definition held :: "pooled \<Rightarrow> nat multiset" where
  "held st = sum_list (map reader_holds (po_readers st)) + sum_list (map worker_holds (po_workers st)) + mset (po_free st)"

definition exclusive :: "pooled \<Rightarrow> bool" where
  "exclusive st \<longleftrightarrow> (\<forall>a. count (held st) a \<le> 1) \<and> (\<forall>a \<in># held st. a < length (po_heap st))"

lemma held_frame [simp]: "held (st\<lparr>po_stopped := x\<rparr>) = held st" "held (st\<lparr>po_heap := h\<rparr>) = held st"
  by (simp_all add: held_def)

lemma held_release [simp]: "held (release a st) = add_mset a (held st)"
  by (simp add: held_def release_def put_batch_def)

lemma held_set_reader: "i < length (po_readers st) \<Longrightarrow> held (set_reader i r st) + reader_holds (po_readers st ! i) = held st + reader_holds r"
  using sum_list_map_upd [of i "po_readers st" reader_holds r] by (simp add: held_def set_reader_def ac_simps)

lemma held_set_worker: "j < length (po_workers st) \<Longrightarrow> held (set_worker j w st) + worker_holds (po_workers st ! j) = held st + worker_holds w"
  using sum_list_map_upd [of j "po_workers st" worker_holds w] by (simp add: held_def set_worker_def ac_simps)

lemma set_frame [simp]:
  "po_heap (set_reader i r st) = po_heap st" "po_workers (set_reader i r st) = po_workers st"
  "po_free (set_reader i r st) = po_free st" "po_stopped (set_reader i r st) = po_stopped st"
  "po_heap (set_worker j w st) = po_heap st" "po_readers (set_worker j w st) = po_readers st"
  "po_free (set_worker j w st) = po_free st" "po_stopped (set_worker j w st) = po_stopped st"
  "po_heap (release a st) = po_heap st" "po_readers (release a st) = po_readers st"
  "po_workers (release a st) = po_workers st" "po_stopped (release a st) = po_stopped st"
  "po_readers (set_reader i r st) = (po_readers st)[i := r]" "po_workers (set_worker j w st) = (po_workers st)[j := w]"
  "po_free (release a st) = a # po_free st"
  by (simp_all add: set_reader_def set_worker_def release_def put_batch_def)

lemma set_reader_stop: "set_reader i r (st\<lparr>po_stopped := x\<rparr>) = set_reader i r st\<lparr>po_stopped := x\<rparr>"
  by (simp add: set_reader_def)

lemma holds_hand [simp]:
  "reader_holds (r\<lparr>cr_hand := x\<rparr>) = (case x of None \<Rightarrow> {#} | Some a \<Rightarrow> {#a#})"
  "reader_holds (r\<lparr>cr_live := l\<rparr>) = reader_holds r" "reader_holds (r\<lparr>cr_lines := ls\<rparr>) = reader_holds r"
  "worker_holds (w\<lparr>bw_hand := y\<rparr>) = (case y of None \<Rightarrow> {#} | Some (a, n) \<Rightarrow> {#a#})"
  "worker_holds (w\<lparr>bw_live := l\<rparr>) = worker_holds w" "worker_holds (w\<lparr>bw_seen := rs\<rparr>) = worker_holds w"
  "worker_holds (w\<lparr>bw_count := k\<rparr>) = worker_holds w"
  by (simp_all add: reader_holds_def worker_holds_def)

lemma mset_remove_nth: "j < length xs \<Longrightarrow> add_mset (xs ! j) (mset (take j xs @ drop (Suc j) xs)) = mset xs"
  by (metis id_take_nth_drop mset.simps(2) mset_append union_mset_add_mset_right)

lemma take_batch_held:
  assumes "take_batch s found st = (a, st')" and "case found of None \<Rightarrow> True | Some j \<Rightarrow> j < length (po_free st)"
  shows "po_readers st' = po_readers st" and "po_workers st' = po_workers st" and "po_stopped st' = po_stopped st"
    and "if found = None then a = length (po_heap st) \<and> held st' = held st \<and> length (po_heap st') = Suc a
         else a \<in># mset (po_free st) \<and> add_mset a (held st') = held st \<and> length (po_heap st') = length (po_heap st)"
proof -
  show "po_readers st' = po_readers st" and "po_workers st' = po_workers st" and "po_stopped st' = po_stopped st"
    using assms(1) by (auto simp: take_batch_def Let_def split: option.splits)
  show "if found = None then a = length (po_heap st) \<and> held st' = held st \<and> length (po_heap st') = Suc a
         else a \<in># mset (po_free st) \<and> add_mset a (held st') = held st \<and> length (po_heap st') = length (po_heap st)"
  proof (cases found)
    case None
    then show ?thesis using assms(1) by (auto simp: take_batch_def held_def)
  next
    case (Some j)
    then show ?thesis using assms mset_remove_nth [of j "po_free st"]
      by (auto simp: take_batch_def held_def Let_def simp flip: union_mset_add_mset_right)
  qed
qed

lemma held_reader:
  assumes "i < length (po_readers st)"
  shows "reader_holds r = reader_holds (po_readers st ! i) \<Longrightarrow> held (set_reader i r st) = held st"
    and "reader_holds (po_readers st ! i) = add_mset a (reader_holds r) \<Longrightarrow> add_mset a (held (set_reader i r st)) = held st"
    and "reader_holds r = add_mset a (reader_holds (po_readers st ! i)) \<Longrightarrow> held (set_reader i r st) = add_mset a (held st)"
  using held_set_reader [OF assms, of r] by simp_all

lemma held_worker:
  assumes "j < length (po_workers st)"
  shows "worker_holds w = worker_holds (po_workers st ! j) \<Longrightarrow> held (set_worker j w st) = held st"
    and "worker_holds (po_workers st ! j) = add_mset a (worker_holds w) \<Longrightarrow> add_mset a (held (set_worker j w st)) = held st"
    and "worker_holds w = add_mset a (worker_holds (po_workers st ! j)) \<Longrightarrow> held (set_worker j w st) = add_mset a (held st)"
  using held_set_worker [OF assms, of w] by simp_all

lemma some_holds:
  "cr_hand r = Some a \<Longrightarrow> reader_holds r = {#a#}" "cr_hand r = None \<Longrightarrow> reader_holds r = {#}"
  "bw_hand w = Some (a, n) \<Longrightarrow> worker_holds w = {#a#}" "bw_hand w = None \<Longrightarrow> worker_holds w = {#}"
  by (simp_all add: reader_holds_def worker_holds_def)

text \<open>A step keeps what is held, loses it from the pool, or makes a new batch.\<close>

lemma held_step:
  assumes "pool_step s bsize pol st st'"
  shows "length (po_heap st) \<le> length (po_heap st')
    \<and> (held st' \<subseteq># held st \<or> held st' = add_mset (length (po_heap st)) (held st) \<and> length (po_heap st') = Suc (length (po_heap st)))"
  using assms
proof cases
  case (reader_get i r found a st1)
  then have "held st' = add_mset a (held st1)"
    using take_batch_held [OF reader_get(7,6)] by (simp add: held_reader(3) some_holds)
  then show ?thesis using take_batch_held [OF reader_get(7,6)] reader_get(1) by (auto split: if_splits)
next
  case (reader_send i r a full j w)
  then show ?thesis by (simp add: held_worker(3) [of j _ _ a] held_reader(2) some_holds)
next
  case (pool_drop j)
  then have "add_mset (po_free st ! j) (held st') = held st"
    using mset_remove_nth [of j "po_free st"] by (simp add: held_def flip: union_mset_add_mset_right)
  then have "held st' \<subseteq># held st" by (metis multi_psub_of_add_self subset_mset.less_imp_le)
  then show ?thesis using pool_drop by simp
qed (simp_all add: held_worker held_reader some_holds)

lemma exclusive_step: "pool_step s bsize pol st st' \<Longrightarrow> exclusive st \<Longrightarrow> exclusive st'"
proof -
  assume step: "pool_step s bsize pol st st'" and ex: "exclusive st"
  have new: "count (held st) (length (po_heap st)) = 0"
    using ex by (auto simp: exclusive_def count_eq_zero_iff)
  show ?thesis
    using held_step [OF step] ex new
    by (auto simp: exclusive_def dest: mset_subset_eqD less_le_trans)
      (metis le_trans mset_subset_eq_count)
qed

text \<open>What one goroutine, or the pool, has, no other has.\<close>

lemma sum_list_member: "i < length xs \<Longrightarrow> f (xs ! i) \<subseteq># sum_list (map f xs)"
  by (induction xs arbitrary: i) (auto simp: nth_Cons subset_mset.add_increasing subset_mset.add_increasing2 split: nat.splits)

lemma sum_list_two:
  assumes "i < length xs" and "k < length xs" and "i \<noteq> k"
  shows "f (xs ! i) + f (xs ! k) \<subseteq># sum_list (map f xs)"
  using assms
proof (induction xs arbitrary: i k)
  case (Cons x xs)
  then show ?case
    using sum_list_member [of _ xs f]
    by (cases i; cases k) (auto simp: add.commute subset_mset.add_increasing)
qed simp

lemma held_apart:
  assumes "exclusive st"
  shows "i < length (po_readers st) \<Longrightarrow> k < length (po_readers st) \<Longrightarrow> i \<noteq> k \<Longrightarrow>
      a \<in># reader_holds (po_readers st ! i) \<Longrightarrow> a \<notin># reader_holds (po_readers st ! k)"
    and "i < length (po_readers st) \<Longrightarrow> j < length (po_workers st) \<Longrightarrow>
      a \<in># reader_holds (po_readers st ! i) \<Longrightarrow> a \<notin># worker_holds (po_workers st ! j)"
    and "j < length (po_workers st) \<Longrightarrow> k < length (po_workers st) \<Longrightarrow> j \<noteq> k \<Longrightarrow>
      a \<in># worker_holds (po_workers st ! j) \<Longrightarrow> a \<notin># worker_holds (po_workers st ! k)"
    and "i < length (po_readers st) \<Longrightarrow> a \<in># mset (po_free st) \<Longrightarrow> a \<notin># reader_holds (po_readers st ! i)"
    and "j < length (po_workers st) \<Longrightarrow> a \<in># mset (po_free st) \<Longrightarrow> a \<notin># worker_holds (po_workers st ! j)"
proof -
  have twice: False if "x + y \<subseteq># held st" "a \<in># x" "a \<in># y" for x y
  proof -
    have "count (x + y) a \<le> 1" using that(1) assms mset_subset_eq_count [of "x + y" "held st" a] by (auto simp: exclusive_def intro: order_trans)
    moreover have "0 < count x a" "0 < count y a" using that by simp_all
    ultimately show False by simp
  qed
  note sub = sum_list_member [where f = reader_holds] sum_list_member [where f = worker_holds]
  show "a \<notin># reader_holds (po_readers st ! k)"
    if "i < length (po_readers st)" "k < length (po_readers st)" "i \<noteq> k" "a \<in># reader_holds (po_readers st ! i)"
    using twice [OF subset_mset.order_trans [OF sum_list_two [OF that(1-3), of reader_holds]] that(4)]
    by (auto simp: held_def)
  show "a \<notin># worker_holds (po_workers st ! k)"
    if "j < length (po_workers st)" "k < length (po_workers st)" "j \<noteq> k" "a \<in># worker_holds (po_workers st ! j)"
    using twice [OF subset_mset.order_trans [OF sum_list_two [OF that(1-3), of worker_holds]] that(4)]
    by (auto simp: held_def subset_mset.add_increasing2 subset_mset.add_increasing add.assoc)
  show "a \<notin># worker_holds (po_workers st ! j)"
    if "i < length (po_readers st)" "j < length (po_workers st)" "a \<in># reader_holds (po_readers st ! i)"
    using twice [OF subset_mset.order_trans [OF subset_mset.add_mono [OF sub(1) [OF that(1)] sub(2) [OF that(2)]]] that(3)]
    by (auto simp: held_def)
  show "a \<notin># reader_holds (po_readers st ! i)" if "i < length (po_readers st)" "a \<in># mset (po_free st)"
    using twice [of "reader_holds (po_readers st ! i)" "mset (po_free st)"] that sub(1) [OF that(1)]
    by (auto simp: held_def subset_mset.add_increasing2)
  show "a \<notin># worker_holds (po_workers st ! j)" if "j < length (po_workers st)" "a \<in># mset (po_free st)"
    using twice [of "worker_holds (po_workers st ! j)" "mset (po_free st)"] that sub(2) [OF that(1)]
    by (auto simp: held_def subset_mset.add_increasing2 subset_mset.add_increasing)
qed

section \<open>What is in the batches\<close>

definition heap_ok :: "schema \<Rightarrow> pooled \<Rightarrow> bool" where
  "heap_ok s st \<longleftrightarrow> (\<forall>b \<in> set (po_heap st). wf_batch s b)"

text \<open>The rows a goroutine has still to deliver, or has delivered.\<close>

definition reader_rows :: "error_policy \<Rightarrow> schema \<Rightarrow> batch list \<Rightarrow> chunk_reader \<Rightarrow> value_t option list multiset" where
  "reader_rows pol s h r =
     mset (good_rows pol s (cr_lines r)) + (case cr_hand r of None \<Rightarrow> {#} | Some a \<Rightarrow> mset (batch_rows (h ! a)))"

definition worker_rows :: "batch list \<Rightarrow> batch_worker \<Rightarrow> value_t option list multiset" where
  "worker_rows h w = mset (bw_seen w) + (case bw_hand w of None \<Rightarrow> {#} | Some (a, n) \<Rightarrow> mset (drop n (batch_rows (h ! a))))"

lemma wf_reset: "wf_batch s b \<Longrightarrow> get_batch s (Some b) = new_batch s"
  by (rule get_batch_new) (rule wf_batch_shaped)

lemma take_batch_heap:
  assumes "take_batch s found st = (a, st')" and "case found of None \<Rightarrow> True | Some j \<Rightarrow> j < length (po_free st)"
    and "heap_ok s st" and "exclusive st"
  shows "heap_ok s st'" and "po_heap st' ! a = new_batch s" and "a < length (po_heap st')"
    and "b < length (po_heap st) \<Longrightarrow> b \<noteq> a \<Longrightarrow> po_heap st' ! b = po_heap st ! b"
proof -
  have "heap_ok s st' \<and> po_heap st' ! a = new_batch s \<and> a < length (po_heap st')
     \<and> (b < length (po_heap st) \<and> b \<noteq> a \<longrightarrow> po_heap st' ! b = po_heap st ! b)"
  proof (cases found)
    case None
    then show ?thesis using assms by (auto simp: take_batch_def get_batch_None heap_ok_def wf_new_batch nth_append)
  next
    case (Some j)
    then have j: "a = po_free st ! j" "po_heap st' = (po_heap st)[a := get_batch s (Some (po_heap st ! a))]" "j < length (po_free st)"
      using assms(1,2) by (auto simp: take_batch_def Let_def)
    then have "a \<in># held st" by (simp add: held_def)
    then have "a < length (po_heap st)" using assms(4) by (auto simp: exclusive_def)
    moreover from this have "get_batch s (Some (po_heap st ! a)) = new_batch s"
      using assms(3) by (intro wf_reset) (simp add: heap_ok_def)
    ultimately show ?thesis
      using assms(3) j(2) by (auto simp: heap_ok_def wf_new_batch dest!: set_update_subset_insert [THEN subsetD])
  qed
  then show "heap_ok s st'" and "po_heap st' ! a = new_batch s" and "a < length (po_heap st')"
    and "b < length (po_heap st) \<Longrightarrow> b \<noteq> a \<Longrightarrow> po_heap st' ! b = po_heap st ! b" by blast+
qed

section \<open>The invariant\<close>

text \<open>A goroutine that has returned holds no batch, and a reader returns early only once the run is cancelled.\<close>

definition reader_ok :: "bool \<Rightarrow> chunk_reader \<Rightarrow> bool" where
  "reader_ok stopped r \<longleftrightarrow> cr_live r \<or> cr_hand r = None \<and> (cr_lines r = [] \<or> stopped)"

definition idle_ok :: "pooled \<Rightarrow> bool" where
  "idle_ok st \<longleftrightarrow>
     (\<forall>r \<in> set (po_readers st). reader_ok (po_stopped st) r)
     \<and> (\<forall>w \<in> set (po_workers st). bw_live w \<or> bw_hand w = None)
     \<and> ((\<exists>w \<in> set (po_workers st). bw_live w) \<or> closed_chan st \<or> po_stopped st)"

definition pool_inv :: "schema \<Rightarrow> pooled \<Rightarrow> bool" where
  "pool_inv s st \<longleftrightarrow> heap_ok s st \<and> exclusive st \<and> idle_ok st"

lemma heap_ok_frame [simp]:
  "heap_ok s (set_reader i r st) = heap_ok s st" "heap_ok s (set_worker j w st) = heap_ok s st"
  "heap_ok s (release a st) = heap_ok s st" "heap_ok s (st\<lparr>po_stopped := x\<rparr>) = heap_ok s st"
  "heap_ok s (st\<lparr>po_free := fr\<rparr>) = heap_ok s st"
  by (simp_all add: heap_ok_def)

lemma hand_valid:
  assumes "exclusive st" and "i < length (po_readers st)" and "cr_hand (po_readers st ! i) = Some a"
  shows "a < length (po_heap st)"
proof -
  have "{#a#} \<subseteq># held st"
    using sum_list_member [OF assms(2), of reader_holds] assms(3) by (simp add: held_def some_holds subset_mset.add_increasing2 add.assoc)
  then show ?thesis using assms(1) by (auto simp: exclusive_def dest: mset_subset_eqD)
qed

lemma worker_hand_valid:
  assumes "exclusive st" and "j < length (po_workers st)" and "bw_hand (po_workers st ! j) = Some (a, n)"
  shows "a < length (po_heap st)"
proof -
  have "{#a#} \<subseteq># held st"
    using sum_list_member [OF assms(2), of worker_holds] assms(3)
    by (auto simp: held_def some_holds intro: subset_mset.add_increasing2 subset_mset.add_increasing)
  then show ?thesis using assms(1) by (auto simp: exclusive_def dest: mset_subset_eqD)
qed

lemma heap_ok_step:
  assumes "pool_step s bsize pol st st'" and "heap_ok s st" and "exclusive st"
  shows "heap_ok s st'"
  using assms(1)
proof cases
  case (reader_get i r found a st1)
  then show ?thesis using take_batch_heap(1) [OF reader_get(7,6) assms(2,3)] by simp
next
  case (reader_row i r a l ls vs)
  then have "wf_batch s (po_heap st ! a)" using hand_valid [OF assms(3)] assms(2) by (simp add: heap_ok_def)
  then have "wf_batch s (append_row vs (po_heap st ! a))"
    using append_row_wf [OF _ parse_line_parsed_as [OF reader_row(8)]] by blast
  then show ?thesis using reader_row(1) assms(2) by (auto simp: heap_ok_def dest!: set_update_subset_insert [THEN subsetD])
qed (use assms(2) in simp_all)

text \<open>\<open>Add\<close> never refuses a batch of the pool.\<close>

lemma no_worker_fail:
  assumes "heap_ok s st" and "exclusive st" and "j < length (po_workers st)" and "bw_hand (po_workers st ! j) = Some (a, n)"
  shows "length (cols (po_heap st ! a)) = length (columns s)"
  using worker_hand_valid [OF assms(2-4)] assms(1) by (auto simp: heap_ok_def intro: wf_batch_length)

lemma closed_frame [simp]:
  "closed_chan (set_worker j w st) = closed_chan st" "closed_chan (release a st) = closed_chan st"
  "closed_chan (st\<lparr>po_stopped := x\<rparr>) = closed_chan st" "closed_chan (st\<lparr>po_free := fr\<rparr>) = closed_chan st"
  "closed_chan (st\<lparr>po_heap := h\<rparr>) = closed_chan st"
  by (simp_all add: closed_chan_def)

lemma closed_not_live: "i < length (po_readers st) \<Longrightarrow> cr_live (po_readers st ! i) \<Longrightarrow> \<not> closed_chan st"
  by (auto simp: closed_chan_def list_all_length)

lemma all_upd: "\<forall>x \<in> set xs. P x \<Longrightarrow> P y \<Longrightarrow> \<forall>x \<in> set (xs[i := y]). P x"
  by (auto dest!: set_update_subset_insert [THEN subsetD])

lemma idle_frame [simp]:
  "idle_ok (release a st) = idle_ok st" "idle_ok (st\<lparr>po_free := fr\<rparr>) = idle_ok st" "idle_ok (st\<lparr>po_heap := h\<rparr>) = idle_ok st"
  by (simp_all add: idle_ok_def)

lemma idle_stop: "idle_ok st \<Longrightarrow> idle_ok (st\<lparr>po_stopped := True\<rparr>)"
  by (auto simp: idle_ok_def reader_ok_def)

lemma idle_reader:
  assumes "idle_ok st" and "i < length (po_readers st)" and "cr_live (po_readers st ! i)" and "reader_ok (po_stopped st) r"
  shows "idle_ok (set_reader i r st)"
proof -
  have "\<forall>r \<in> set ((po_readers st)[i := r]). reader_ok (po_stopped st) r"
    by (rule all_upd) (use assms in \<open>simp_all add: idle_ok_def\<close>)
  then show ?thesis using assms(1) closed_not_live [OF assms(2,3)] by (simp add: idle_ok_def) blast
qed

lemma idle_worker:
  assumes "idle_ok st" and "j < length (po_workers st)" and "bw_live w"
  shows "idle_ok (set_worker j w st)"
proof -
  have "\<forall>w \<in> set ((po_workers st)[j := w]). bw_live w \<or> bw_hand w = None"
    by (rule all_upd) (use assms in \<open>simp_all add: idle_ok_def\<close>)
  moreover have "w \<in> set ((po_workers st)[j := w])" by (rule set_update_memI [OF assms(2)])
  ultimately show ?thesis using assms(1,3) by (simp only: idle_ok_def set_frame closed_frame) blast
qed

lemma idle_ok_step:
  assumes "pool_step s bsize pol st st'" and "idle_ok st" and "heap_ok s st" and "exclusive st"
  shows "idle_ok st'"
  using assms(1)
proof cases
  case (reader_get i r found a st1)
  note t = take_batch_held(1-3) [OF reader_get(7,6)]
  have "idle_ok st1" using assms(2) t by (simp add: idle_ok_def closed_chan_def)
  then show ?thesis using reader_get t by (simp add: idle_reader reader_ok_def)
next
  case (reader_send i r a full j w)
  then have "idle_ok (set_reader i (r\<lparr>cr_hand := None, cr_live := full\<rparr>) st)"
    using assms(2) by (intro idle_reader) (auto simp: reader_ok_def)
  then show ?thesis using reader_send by (simp add: idle_worker)
next
  case (worker_exit j w)
  then have "\<forall>w' \<in> set ((po_workers st)[j := w\<lparr>bw_live := False\<rparr>]). bw_live w' \<or> bw_hand w' = None"
    using assms(2) by (intro all_upd) (simp_all add: idle_ok_def)
  then show ?thesis using assms(2) worker_exit by (simp add: idle_ok_def)
next
  case (worker_fail j w a)
  then show ?thesis using no_worker_fail [OF assms(3,4)] by blast
qed (use assms(2) in \<open>simp_all add: idle_stop reader_ok_def idle_reader idle_worker\<close>)

lemma pool_inv_step: "pool_step s bsize pol st st' \<Longrightarrow> pool_inv s st \<Longrightarrow> pool_inv s st'"
  by (simp add: pool_inv_def heap_ok_step exclusive_step idle_ok_step)

lemma pool_inv_start: "pool_inv s (pool_start lss workers)"
proof -
  have none: "sum_list (replicate k {#}) = {#}" for k by (induction k) simp_all
  have "held (pool_start lss workers) = {#}"
    by (simp add: held_def pool_start_def new_batch_pool_def reader_holds_def worker_holds_def comp_def none)
  moreover have "0 < worker_count workers" by (simp add: worker_count_def)
  ultimately show ?thesis
    by (auto simp: pool_inv_def exclusive_def heap_ok_def pool_start_def new_batch_pool_def idle_ok_def reader_ok_def)
qed

section \<open>Quantities summed over the goroutines\<close>

text \<open>
  A quantity of a goroutine that depends on no batch but its own; what a step does to its sum over all goroutines,
  the step of one of which may write its own batch.
\<close>

definition pool_total :: "(batch list \<Rightarrow> chunk_reader \<Rightarrow> 'b) \<Rightarrow> (batch list \<Rightarrow> batch_worker \<Rightarrow> 'b) \<Rightarrow> pooled \<Rightarrow> 'b::comm_monoid_add" where
  "pool_total fr fw st = sum_list (map (fr (po_heap st)) (po_readers st)) + sum_list (map (fw (po_heap st)) (po_workers st))"

lemma pool_total_frame [simp]:
  "pool_total fr fw (release a st) = pool_total fr fw st" "pool_total fr fw (st\<lparr>po_stopped := x\<rparr>) = pool_total fr fw st"
  "pool_total fr fw (st\<lparr>po_free := fr'\<rparr>) = pool_total fr fw st"
  by (simp_all add: pool_total_def)

locale own_batch =
  fixes fr :: "batch list \<Rightarrow> chunk_reader \<Rightarrow> 'b::comm_monoid_add" and fw :: "batch list \<Rightarrow> batch_worker \<Rightarrow> 'b"
  assumes fr_own: "(\<And>b. b \<in># reader_holds r \<Longrightarrow> h' ! b = h ! b) \<Longrightarrow> fr h' r = fr h r"
    and fw_own: "(\<And>b. b \<in># worker_holds w \<Longrightarrow> h' ! b = h ! b) \<Longrightarrow> fw h' w = fw h w"
begin

lemma reader_changes:
  assumes "i < length (po_readers st)"
    and "\<And>k b. k < length (po_readers st) \<Longrightarrow> k \<noteq> i \<Longrightarrow> b \<in># reader_holds (po_readers st ! k) \<Longrightarrow> h ! b = po_heap st ! b"
    and "\<And>j b. j < length (po_workers st) \<Longrightarrow> b \<in># worker_holds (po_workers st ! j) \<Longrightarrow> h ! b = po_heap st ! b"
    and st': "po_readers st' = (po_readers st)[i := r]" "po_workers st' = po_workers st" "po_heap st' = h"
  shows "pool_total fr fw st' + fr (po_heap st) (po_readers st ! i) = pool_total fr fw st + fr h r"
proof -
  have "sum_list (map (fw h) (po_workers st)) = sum_list (map (fw (po_heap st)) (po_workers st))"
    using assms(3) by (auto simp: in_set_conv_nth intro!: fw_own arg_cong [where f = sum_list])
  moreover have "sum_list (map (fr h) ((po_readers st)[i := r])) + fr (po_heap st) (po_readers st ! i)
      = sum_list (map (fr (po_heap st)) (po_readers st)) + fr h r"
    by (rule sum_list_frame [OF assms(1)]) (rule fr_own, rule assms(2))
  ultimately show ?thesis by (simp add: pool_total_def st' ac_simps)
qed

lemma worker_changes:
  assumes "j < length (po_workers st)"
  shows "pool_total fr fw (set_worker j w st) + fw (po_heap st) (po_workers st ! j) = pool_total fr fw st + fw (po_heap st) w"
  using sum_list_map_upd [OF assms, of "fw (po_heap st)" w] by (simp add: pool_total_def ac_simps)

lemma reader_moves:
  assumes "i < length (po_readers st)"
  shows "pool_total fr fw (set_reader i r st) + fr (po_heap st) (po_readers st ! i) = pool_total fr fw st + fr (po_heap st) r"
  by (rule reader_changes [OF assms]) simp_all

lemma reader_gets:
  assumes "pool_inv s st" and "i < length (po_readers st)"
    and "case found of None \<Rightarrow> True | Some j \<Rightarrow> j < length (po_free st)" and "take_batch s found st = (a, st1)"
  shows "pool_total fr fw (set_reader i r st1) + fr (po_heap st) (po_readers st ! i) = pool_total fr fw st + fr (po_heap st1) r"
proof -
  have inv: "heap_ok s st" "exclusive st" using assms(1) by (simp_all add: pool_inv_def)
  note t = take_batch_held [OF assms(4,3)] take_batch_heap [OF assms(4,3) inv]
  have same: "po_heap st1 ! b = po_heap st ! b" if "b \<in># reader_holds (po_readers st ! k) \<and> k < length (po_readers st)
      \<or> b \<in># worker_holds (po_workers st ! k) \<and> k < length (po_workers st)" for b k
  proof -
    have "b \<in># held st"
      using that sum_list_member [of k "po_readers st" reader_holds] sum_list_member [of k "po_workers st" worker_holds]
      by (auto simp: held_def dest: mset_subset_eqD)
    then have b: "b < length (po_heap st)" using inv(2) by (simp add: exclusive_def)
    have "b \<noteq> a" using t(4) that b held_apart(4,5) [OF inv(2), of k b] by (auto split: if_splits)
    then show ?thesis using t(8) b by blast
  qed
  show ?thesis by (rule reader_changes) (use assms(2) same t(1,2) in auto)
qed

lemma reader_writes:
  assumes "exclusive st" and "i < length (po_readers st)" and "cr_hand (po_readers st ! i) = Some a"
  shows "pool_total fr fw (set_reader i r (st\<lparr>po_heap := (po_heap st)[a := b]\<rparr>)) + fr (po_heap st) (po_readers st ! i)
    = pool_total fr fw st + fr ((po_heap st)[a := b]) r"
proof -
  have mine: "a \<in># reader_holds (po_readers st ! i)" by (simp add: some_holds(1) [OF assms(3)])
  show ?thesis
  proof (rule reader_changes)
    show "(po_heap st)[a := b] ! c = po_heap st ! c" if "k < length (po_readers st)" "k \<noteq> i" "c \<in># reader_holds (po_readers st ! k)" for k c
      using held_apart(1) [OF assms(1,2) that(1) _ mine] that by (metis nth_list_update_neq)
    show "(po_heap st)[a := b] ! c = po_heap st ! c" if "k < length (po_workers st)" "c \<in># worker_holds (po_workers st ! k)" for k c
      using held_apart(2) [OF assms(1,2) that(1) mine] that by (metis nth_list_update_neq)
  qed (use assms(2) in simp_all)
qed

end

section \<open>No row is lost, changed or read twice\<close>

definition pool_rows :: "error_policy \<Rightarrow> schema \<Rightarrow> pooled \<Rightarrow> value_t option list multiset" where
  "pool_rows pol s st = pool_total (reader_rows pol s) worker_rows st"

interpretation rows: own_batch "reader_rows pol s" worker_rows for pol s
  by unfold_locales (auto simp: reader_rows_def reader_holds_def worker_rows_def worker_holds_def split: option.splits)

lemma drop_batch_rows: "n < num_rows b \<Longrightarrow> drop n (batch_rows b) = batch_row b n # drop (Suc n) (batch_rows b)"
  by (subst Cons_nth_drop_Suc [symmetric]) (simp_all add: batch_rows_def)

lemma rows_step:
  assumes step: "pool_step s bsize pol st st'" and inv: "pool_inv s st"
  shows "pool_rows pol s st' \<subseteq># pool_rows pol s st \<and> (\<not> po_stopped st' \<longrightarrow> pool_rows pol s st' = pool_rows pol s st)"
proof -
  have ok: "heap_ok s st" "exclusive st" using inv by (simp_all add: pool_inv_def)
  have lost: "pool_rows pol s (set_reader i (r\<lparr>cr_hand := None, cr_live := False\<rparr>) st) \<subseteq># pool_rows pol s st"
    if "i < length (po_readers st)" "r = po_readers st ! i" for i r
    using rows.reader_moves [of i st pol s "r\<lparr>cr_hand := None, cr_live := False\<rparr>"] that
    by (auto simp: reader_rows_def pool_rows_def subset_mset.le_iff_add ac_simps) (metis add.commute)
  from step show ?thesis
  proof cases
    case (reader_get i r found a st1)
    then show ?thesis
      using rows.reader_gets [OF inv reader_get(2,6,7), of pol s "r\<lparr>cr_hand := Some a\<rparr>"] take_batch_heap(2) [OF reader_get(7,6) ok]
      by (simp add: pool_rows_def reader_rows_def)
  next
    case (reader_row i r a l ls vs)
    have a: "a < length (po_heap st)" using hand_valid [OF ok(2)] reader_row by blast
    then have "wf_batch s (po_heap st ! a)" using ok(1) by (simp add: heap_ok_def)
    then have "batch_rows (append_row vs (po_heap st ! a)) = batch_rows (po_heap st ! a) @ [row_cells s vs]"
      using append_row_rows [OF _ parse_line_parsed_as [OF reader_row(8)]] by (simp add: row_cells_def)
    then show ?thesis
      using rows.reader_writes [OF ok(2) reader_row(2), of a pol s "r\<lparr>cr_lines := ls\<rparr>" "append_row vs (po_heap st ! a)"] reader_row a
      by (simp add: pool_rows_def reader_rows_def)
  next
    case (reader_skip i r a l ls e)
    then show ?thesis
      using rows.reader_moves [of i st pol s "r\<lparr>cr_lines := ls\<rparr>"] by (simp add: pool_rows_def reader_rows_def)
  next
    case (reader_fail i r a l ls e)
    then show ?thesis using lost [of i r] by (simp add: pool_rows_def set_reader_stop)
  next
    case (reader_send i r a full j w)
    have "pool_rows pol s (set_reader i (r\<lparr>cr_hand := None, cr_live := full\<rparr>) st) + mset (batch_rows (po_heap st ! a)) = pool_rows pol s st"
      using rows.reader_moves [of i st pol s "r\<lparr>cr_hand := None, cr_live := full\<rparr>"] reader_send by (simp add: pool_rows_def reader_rows_def)
    then show ?thesis
      using rows.worker_changes [of j "set_reader i (r\<lparr>cr_hand := None, cr_live := full\<rparr>) st" pol s "w\<lparr>bw_hand := Some (a, 0)\<rparr>"] reader_send
      by (simp add: pool_rows_def worker_rows_def)
  next
    case (reader_done i r a)
    then have "batch_rows (po_heap st ! a) = []" by (simp add: batch_rows_def)
    then show ?thesis
      using rows.reader_moves [of i st pol s "r\<lparr>cr_hand := None, cr_live := False\<rparr>"] reader_done by (simp add: pool_rows_def reader_rows_def)
  next
    case (reader_quit i r a)
    then show ?thesis using lost [of i r] by (simp add: pool_rows_def)
  next
    case (worker_fail j w a)
    then show ?thesis using no_worker_fail [OF ok] by auto
  next
    case (worker_row j w a n)
    then show ?thesis
      using rows.worker_changes [of j st pol s "w\<lparr>bw_hand := Some (a, n + 1), bw_seen := bw_seen w @ [batch_row (po_heap st ! a) n]\<rparr>"]
      by (simp add: pool_rows_def worker_rows_def drop_batch_rows)
  next
    case (worker_done j w a n)
    then show ?thesis
      using rows.worker_changes [of j st pol s "w\<lparr>bw_hand := None, bw_count := bw_count w + of_nat (num_rows (po_heap st ! a))\<rparr>"]
      by (simp add: pool_rows_def worker_rows_def)
  next
    case (worker_exit j w)
    then show ?thesis using rows.worker_changes [of j st pol s "w\<lparr>bw_live := False\<rparr>"] by (simp add: pool_rows_def worker_rows_def)
  qed (simp_all add: pool_rows_def)
qed

section \<open>Every run ends\<close>

text \<open>
  A line is worth more than the row it becomes in a reader's batch, and that more than the same row in a worker's
  hand, which takes one step to read; taking a batch, releasing it and losing it from the pool take one each.
\<close>

definition reader_weight :: "batch list \<Rightarrow> chunk_reader \<Rightarrow> nat" where
  "reader_weight h r =
     6 * length (cr_lines r) + (if cr_live r then (case cr_hand r of None \<Rightarrow> 3 | Some a \<Rightarrow> 2 + 5 * num_rows (h ! a)) else 0)"

definition worker_weight :: "batch list \<Rightarrow> batch_worker \<Rightarrow> nat" where
  "worker_weight h w =
     (if bw_live w then 1 else 0) + (case bw_hand w of None \<Rightarrow> 0 | Some (a, n) \<Rightarrow> 2 + (num_rows (h ! a) - n))"

definition pool_weight :: "pooled \<Rightarrow> nat" where
  "pool_weight st = pool_total reader_weight worker_weight st + length (po_free st) + (if po_stopped st then 0 else 1)"

interpretation weights: own_batch reader_weight worker_weight
  by unfold_locales (auto simp: reader_weight_def reader_holds_def worker_weight_def worker_holds_def split: option.splits)

lemma take_batch_free:
  "take_batch s found st = (a, st') \<Longrightarrow> (case found of None \<Rightarrow> True | Some j \<Rightarrow> j < length (po_free st)) \<Longrightarrow>
     length (po_free st') \<le> length (po_free st)"
  by (auto simp: take_batch_def Let_def split: option.splits)

lemma pool_decreases:
  assumes step: "pool_step s bsize pol st st'" and inv: "pool_inv s st"
  shows "pool_weight st' < pool_weight st"
proof -
  have ok: "heap_ok s st" "exclusive st" using inv by (simp_all add: pool_inv_def)
  note w_simps = pool_weight_def reader_weight_def worker_weight_def
  have gone: "pool_total reader_weight worker_weight (set_reader i (r\<lparr>cr_hand := None, cr_live := False\<rparr>) st) + 2
      \<le> pool_total reader_weight worker_weight st"
    if "i < length (po_readers st)" "r = po_readers st ! i" "cr_live r" "cr_hand r = Some a" for i r a
    using weights.reader_moves [of i st "r\<lparr>cr_hand := None, cr_live := False\<rparr>"] that by (simp add: reader_weight_def)
  from step show ?thesis
  proof cases
    case (reader_get i r found a st1)
    then show ?thesis
      using weights.reader_gets [OF inv reader_get(2,6,7), of "r\<lparr>cr_hand := Some a\<rparr>"] take_batch_heap(2) [OF reader_get(7,6) ok]
        take_batch_held(3) [OF reader_get(7,6)] take_batch_free [OF reader_get(7,6)]
      by (simp add: w_simps)
  next
    case (reader_row i r a l ls vs)
    have a: "a < length (po_heap st)" using hand_valid [OF ok(2)] reader_row by blast
    then show ?thesis
      using weights.reader_writes [OF ok(2) reader_row(2), of a "r\<lparr>cr_lines := ls\<rparr>" "append_row vs (po_heap st ! a)"] reader_row
      by (simp add: w_simps)
  next
    case (reader_skip i r a l ls e)
    then show ?thesis using weights.reader_moves [of i st "r\<lparr>cr_lines := ls\<rparr>"] by (simp add: w_simps)
  next
    case (reader_fail i r a l ls e)
    then show ?thesis using gone [of i r a] by (simp add: pool_weight_def set_reader_stop)
  next
    case (reader_send i r a full j w)
    have "pool_total reader_weight worker_weight (set_reader i (r\<lparr>cr_hand := None, cr_live := full\<rparr>) st) + 5 * num_rows (po_heap st ! a)
        \<le> pool_total reader_weight worker_weight st + 1 \<and> 0 < num_rows (po_heap st ! a)"
      using weights.reader_moves [of i st "r\<lparr>cr_hand := None, cr_live := full\<rparr>"] reader_send
      by (auto simp: reader_weight_def batch_full_def)
    then show ?thesis
      using weights.worker_changes [of j "set_reader i (r\<lparr>cr_hand := None, cr_live := full\<rparr>) st" "w\<lparr>bw_hand := Some (a, 0)\<rparr>"] reader_send
      by (auto simp: pool_weight_def worker_weight_def)
  next
    case (reader_done i r a)
    then show ?thesis using gone [of i r a] by (simp add: pool_weight_def)
  next
    case (reader_quit i r a)
    then show ?thesis using gone [of i r a] by (simp add: pool_weight_def)
  next
    case (worker_fail j w a)
    then show ?thesis using no_worker_fail [OF ok] by auto
  next
    case (worker_row j w a n)
    then show ?thesis
      using weights.worker_changes [of j st "w\<lparr>bw_hand := Some (a, n + 1), bw_seen := bw_seen w @ [batch_row (po_heap st ! a) n]\<rparr>"]
      by (simp add: w_simps)
  next
    case (worker_done j w a n)
    then show ?thesis
      using weights.worker_changes [of j st "w\<lparr>bw_hand := None, bw_count := bw_count w + of_nat (num_rows (po_heap st ! a))\<rparr>"]
      by (simp add: w_simps)
  next
    case (worker_exit j w)
    then show ?thesis using weights.worker_changes [of j st "w\<lparr>bw_live := False\<rparr>"] by (simp add: w_simps)
  qed (simp_all add: pool_weight_def)
qed

text \<open>A step after which the run is cancelled only if it was before.\<close>

definition quiet_step :: "schema \<Rightarrow> int \<Rightarrow> error_policy \<Rightarrow> pooled \<Rightarrow> pooled \<Rightarrow> bool" where
  "quiet_step s bsize pol st st' \<longleftrightarrow> pool_step s bsize pol st st' \<and> (pol = ErrorPolicyFail \<or> po_stopped st' = po_stopped st)"

lemma quietI: "pool_step s bsize pol st st' \<Longrightarrow> pol = ErrorPolicyFail \<or> po_stopped st' = po_stopped st \<Longrightarrow> \<exists>st'. quiet_step s bsize pol st st'"
  by (auto simp: quiet_step_def)

lemma worker_can_go:
  assumes "pool_inv s st" and j: "j < length (po_workers st)" "bw_live (po_workers st ! j)"
    and "bw_hand (po_workers st ! j) \<noteq> None \<or> closed_chan st"
  shows "\<exists>st'. quiet_step s bsize pol st st'"
proof (cases "bw_hand (po_workers st ! j)")
  case None
  then show ?thesis using quietI [OF worker_exit [OF j(1) refl j(2) None]] assms(4) by simp
next
  case (Some p)
  obtain a n where "p = (a, n)" by fastforce
  with Some have h: "bw_hand (po_workers st ! j) = Some (a, n)" by simp
  then have "length (cols (po_heap st ! a)) = length (columns s)" using assms(1) j(1) no_worker_fail by (auto simp: pool_inv_def)
  then show ?thesis
    using quietI [OF worker_row [OF j(1) refl j(2) h]] quietI [OF worker_done [OF j(1) refl j(2) h]]
    by (cases "n < num_rows (po_heap st ! a)") simp_all
qed

text \<open>A reader is held up only by a channel no worker is ready to receive from.\<close>

lemma reader_can_go:
  assumes i: "i < length (po_readers st)" "cr_live (po_readers st ! i)"
    and "po_stopped st \<or> (\<exists>j < length (po_workers st). bw_live (po_workers st ! j) \<and> bw_hand (po_workers st ! j) = None)"
  shows "\<exists>st'. quiet_step s bsize pol st st'"
proof (cases "cr_hand (po_readers st ! i)")
  case None
  obtain a st1 where t: "take_batch s None st = (a, st1)" by fastforce
  then have "pool_step s bsize pol st (set_reader i ((po_readers st ! i)\<lparr>cr_hand := Some a\<rparr>) st1)"
    by (intro reader_get [OF i(1) refl i(2) None, of None]) simp_all
  then show ?thesis by (rule quietI) (simp add: take_batch_held(3) [OF t])
next
  case (Some a)
  show ?thesis
  proof (cases "po_stopped st")
    case True
    then show ?thesis using quietI [OF reader_quit [OF i(1) refl i(2) Some]] by simp
  next
    case False
    then obtain j where j: "j < length (po_workers st)" "bw_live (po_workers st ! j)" "bw_hand (po_workers st ! j) = None"
      using assms(3) by blast
    note send = quietI [OF reader_send [OF i(1) refl i(2) Some refl _ j(1) refl j(2,3)]]
    show ?thesis
    proof (cases "batch_full bsize (po_heap st ! a)")
      case not_full: False
      show ?thesis
      proof (cases "cr_lines (po_readers st ! i)")
        case Nil
        then show ?thesis using send quietI [OF reader_done [OF i(1) refl i(2) Some Nil]]
          by (cases "num_rows (po_heap st ! a) = 0") simp_all
      next
        case (Cons l ls)
        note line = i(1) refl i(2) Some not_full Cons
        show ?thesis
          using quietI [OF reader_row [OF line]] quietI [OF reader_skip [OF line]] quietI [OF reader_fail [OF line]]
          by (cases "parse_line s l"; cases "pol = ErrorPolicyFail") simp_all
      qed
    qed (use send in simp)
  qed
qed

lemma pool_progress:
  assumes inv: "pool_inv s st" and "\<not> pool_finished st"
  shows "\<exists>st'. quiet_step s bsize pol st st'"
proof (cases "\<exists>j < length (po_workers st). bw_live (po_workers st ! j) \<and> (bw_hand (po_workers st ! j) \<noteq> None \<or> closed_chan st)")
  case True
  then show ?thesis using worker_can_go [OF inv] by blast
next
  case no: False
  then have open_chan: "\<not> closed_chan st" using assms(2) by (auto simp: pool_finished_def list_all_length)
  then obtain i where i: "i < length (po_readers st)" "cr_live (po_readers st ! i)" by (auto simp: closed_chan_def list_all_length)
  have "po_stopped st \<or> (\<exists>j < length (po_workers st). bw_live (po_workers st ! j))"
    using inv open_chan by (auto simp: pool_inv_def idle_ok_def in_set_conv_nth)
  then show ?thesis using reader_can_go [OF i] no by blast
qed

interpretation pooling: ending "pool_step s bsize pol" pool_finished pool_weight "pool_inv s" for s bsize pol
proof
  show "\<exists>st'. pool_step s bsize pol st st'" if "pool_inv s st" "\<not> pool_finished st" for st
    using pool_progress [OF that] by (auto simp: quiet_step_def)
qed (rule pool_inv_step pool_decreases; assumption)+

interpretation quiet: ending "quiet_step s bsize pol" pool_finished pool_weight "pool_inv s" for s bsize pol
  by unfold_locales (auto simp: quiet_step_def intro: pool_inv_step pool_decreases pool_progress [unfolded quiet_step_def])

lemma quiet_run: "(quiet_step s bsize pol)\<^sup>*\<^sup>* st st' \<Longrightarrow>
    (pool_step s bsize pol)\<^sup>*\<^sup>* st st' \<and> (pol = ErrorPolicyFail \<or> po_stopped st' = po_stopped st)"
  by (induction rule: rtranclp_induct) (auto simp: quiet_step_def)

section \<open>What a run delivers\<close>

lemma pool_rows_start: "pool_rows pol s (pool_start lss workers) = mset (concat (map (good_rows pol s) lss))"
proof -
  have none: "sum_list (replicate k {#}) = {#}" for k by (induction k) simp_all
  have "sum_list (map (\<lambda>ls. mset (good_rows pol s ls)) lss) = mset (concat (map (good_rows pol s) lss))"
    by (induction lss) simp_all
  then show ?thesis
    by (simp add: pool_rows_def pool_total_def pool_start_def new_batch_pool_def reader_rows_def worker_rows_def comp_def none)
qed

definition rows_seen :: "pooled \<Rightarrow> value_t option list list" where
  "rows_seen st = concat (map bw_seen (po_workers st))"

lemma seen_in_rows: "mset (rows_seen st) \<subseteq># pool_rows pol s st"
proof -
  have "mset (concat (map bw_seen ws)) \<subseteq># sum_list (map (worker_rows h) ws)" for ws h
    by (induction ws) (auto simp: worker_rows_def subset_mset.add_mono subset_mset.add_increasing2)
  then show ?thesis by (simp add: rows_seen_def pool_rows_def pool_total_def subset_mset.add_increasing)
qed

lemma finished_rows:
  assumes "pool_inv s st" and "pool_finished st" and "\<not> po_stopped st"
  shows "mset (rows_seen st) = pool_rows pol s st"
proof -
  have "reader_rows pol s h r = {#}" if "r \<in> set (po_readers st)" for r h
    using assms that by (auto simp: pool_inv_def idle_ok_def reader_ok_def reader_rows_def pool_finished_def closed_chan_def list_all_iff)
  then have "map (reader_rows pol s (po_heap st)) (po_readers st) = map (\<lambda>_. 0) (po_readers st)" by simp
  then have readers: "sum_list (map (reader_rows pol s (po_heap st)) (po_readers st)) = {#}" by (simp only: sum_list_0)
  have "worker_rows h w = mset (bw_seen w)" if "w \<in> set (po_workers st)" for w h
    using assms that by (auto simp: pool_inv_def idle_ok_def worker_rows_def pool_finished_def list_all_iff)
  then have "sum_list (map (worker_rows (po_heap st)) (po_workers st)) = sum_list (map (mset \<circ> bw_seen) (po_workers st))"
    by (intro arg_cong [where f = sum_list]) simp
  moreover have "sum_list (map (mset \<circ> bw_seen) ws) = mset (concat (map bw_seen ws))" for ws :: "batch_worker list" by (induction ws) simp_all
  ultimately show ?thesis by (simp only: pool_rows_def pool_total_def rows_seen_def readers empty_neutral)
qed

lemma rows_reached:
  assumes "(pool_step s bsize pol)\<^sup>*\<^sup>* st0 st" and "pool_inv s st0"
  shows "pool_rows pol s st \<subseteq># pool_rows pol s st0 \<and> (\<not> po_stopped st \<longrightarrow> pool_rows pol s st = pool_rows pol s st0)"
  using assms
proof (induction rule: rtranclp_induct)
  case (step st1 st2)
  have inv: "pool_inv s st1" by (rule pooling.reached [OF step(1,4)])
  have "po_stopped st2" if "po_stopped st1"
    using step(2) that by cases (auto dest: take_batch_held(3))
  then show ?case using rows_step [OF step(2) inv] step.IH [OF step(4)] by (auto intro: subset_mset.order_trans)
qed simp

text \<open>
  C21. Batches are recycled safely: however the goroutines are scheduled and whatever the pool does, no batch is in two
  hands, or in a hand and in the pool, at a time; every batch in a hand or in the pool has the shape of the schema; and a
  batch taken from the pool is as good as new.
\<close>

theorem pool_exclusive:
  assumes "(pool_step s bsize pol)\<^sup>*\<^sup>* (pool_start lss workers) st"
  shows "(\<forall>a. count (held st) a \<le> 1) \<and> (\<forall>a \<in># held st. a < length (po_heap st) \<and> wf_batch s (po_heap st ! a))
    \<and> (\<forall>j < length (po_free st). get_batch s (Some (po_heap st ! (po_free st ! j))) = new_batch s)"
proof -
  have inv: "exclusive st" "heap_ok s st"
    using pooling.reached [OF assms pool_inv_start] by (simp_all add: pool_inv_def)
  then have here: "a < length (po_heap st) \<and> wf_batch s (po_heap st ! a)" if "a \<in># held st" for a
    using that by (auto simp: exclusive_def heap_ok_def)
  moreover have "po_free st ! j \<in># held st" if "j < length (po_free st)" for j using that by (simp add: held_def)
  ultimately show ?thesis using inv(1) wf_reset by (auto simp: exclusive_def)
qed

theorem pool_exclusive_witness:
  "\<exists>st. pool_step sample_schema 1 ErrorPolicySkip (pool_start [[]] 1) st \<and> held st = {#0#} \<and> wf_batch sample_schema (po_heap st ! 0)"
proof -
  define st where "st = snd (take_batch sample_schema None (pool_start [[]] 1))"
  have "pool_step sample_schema 1 ErrorPolicySkip (pool_start [[]] 1)
      (set_reader 0 ((po_readers (pool_start [[]] 1) ! 0)\<lparr>cr_hand := Some 0\<rparr>) st)" (is "pool_step _ _ _ _ ?u")
    by (rule reader_get [where found = None]) (simp_all add: pool_start_def new_batch_pool_def take_batch_def st_def)
  moreover have "held ?u = {#0#}"
    by (simp add: held_def st_def pool_start_def new_batch_pool_def take_batch_def worker_count_def worker_holds_def reader_holds_def)
  ultimately show ?thesis using pool_exclusive [of sample_schema 1 ErrorPolicySkip "[[]]" 1 ?u, OF r_into_rtranclp] by (intro exI [of _ ?u]) simp
qed

text \<open>
  C8. What the workers read is what the readers parsed, although the batches are overwritten again and again: every run
  can be completed, without being cancelled unless a malformed line is fatal; the rows the workers have read are at any time
  among the rows of the chunks' well-formed lines, each read at most as often as it occurs; and a run that was not cancelled
  has read all of them when it ends.
\<close>

theorem pooled_rows:
  assumes "(pool_step s bsize pol)\<^sup>*\<^sup>* (pool_start lss workers) st"
  shows "(\<exists>st'. (pool_step s bsize pol)\<^sup>*\<^sup>* st st' \<and> pool_finished st' \<and> (pol = ErrorPolicyFail \<or> po_stopped st' = po_stopped st))
    \<and> mset (rows_seen st) \<subseteq># mset (concat (map (good_rows pol s) lss))
    \<and> (po_stopped st \<or> \<not> pool_finished st \<or> mset (rows_seen st) = mset (concat (map (good_rows pol s) lss)))"
proof -
  have inv: "pool_inv s st" by (rule pooling.reached [OF assms pool_inv_start])
  note rows = rows_reached [OF assms pool_inv_start, unfolded pool_rows_start]
  have "mset (rows_seen st) \<subseteq># mset (concat (map (good_rows pol s) lss))"
    using seen_in_rows rows by (blast intro: subset_mset.order_trans)
  moreover have "\<exists>st'. (pool_step s bsize pol)\<^sup>*\<^sup>* st st' \<and> pool_finished st' \<and> (pol = ErrorPolicyFail \<or> po_stopped st' = po_stopped st)"
    using quiet.ends [OF inv] quiet_run by blast
  ultimately show ?thesis using finished_rows [OF inv] rows by metis
qed

theorem pooled_rows_witness:
  "\<exists>st. (pool_step sample_schema 2 ErrorPolicySkip)\<^sup>*\<^sup>* (pool_start [[''a;1'', ''b;2'', ''bad''], [''a;3'']] 2) st
     \<and> mset (rows_seen st) = mset (concat (map (good_rows ErrorPolicySkip sample_schema) [[''a;1'', ''b;2'', ''bad''], [''a;3'']]))"
proof -
  define lss :: "bytes list list" where "lss = [[''a;1'', ''b;2'', ''bad''], [''a;3'']]"
  obtain st where st: "(pool_step sample_schema 2 ErrorPolicySkip)\<^sup>*\<^sup>* (pool_start lss 2) st" "pool_finished st"
    and "po_stopped st = po_stopped (pool_start lss 2)"
    using pooled_rows [of sample_schema 2 ErrorPolicySkip lss 2, OF rtranclp.rtrancl_refl] by blast
  then have "\<not> po_stopped st" by (simp add: pool_start_def new_batch_pool_def)
  then show ?thesis using pooled_rows [OF st(1)] st unfolding lss_def by blast
qed

end
