(* ===== verification/DigestSize.thy ===== *)
theory DigestSize
  imports TDigest FloatOrder
begin

text \<open>
  The size of a t-digest: \<open>compress\<close> of \<open>internal/aggregate/tdigest.go\<close> leaves at most 101 centroids, whatever the
  values are, so the memory of a percentile measure is bounded.
\<close>

section \<open>The scale function\<close>

text \<open>
  What is used of \<open>math.Asin\<close>: on the interval from -1 to 1 it returns a number, at most 1.575 in magnitude, and it
  increases, up to an error of \<open>2 ^ -20\<close>.
\<close>

definition asin_ok :: "(f64 \<Rightarrow> f64) \<Rightarrow> bool" where
  "asin_ok f \<longleftrightarrow>
     (\<forall>x. finite_f64 x \<and> \<bar>f64_scaled x\<bar> \<le> f64_unit \<longrightarrow> finite_f64 (f x) \<and> \<bar>f64_scaled (f x)\<bar> * 40 \<le> 63 * f64_unit)
     \<and> (\<forall>x y. finite_f64 x \<and> finite_f64 y \<and> \<bar>f64_scaled x\<bar> \<le> f64_unit \<and> \<bar>f64_scaled y\<bar> \<le> f64_unit \<and> f64_scaled x \<le> f64_scaled y
          \<longrightarrow> f64_scaled (f x) \<le> f64_scaled (f y) + 2 ^ 1054)"

definition scale_factor :: f64 where
  "scale_factor = f64_div (f64_of_int tdigest_default_compression) two_pi"

lemma two_pi_value: "finite_f64 two_pi" "f64_sign two_pi = False" "scaled_mag (f64_mag two_pi) = 7074237752028440 * 2 ^ 1024"
  by (simp_all add: finite_f64_def two_pi_def f64_mag_def f64_sign_def inf_mag_def scaled_mag_def Let_def)

lemma of_int_value: "\<bar>i\<bar> < 2 ^ 53 \<Longrightarrow> finite_f64 (f64_of_int i)" "\<bar>i\<bar> < 2 ^ 53 \<Longrightarrow> f64_scaled (f64_of_int i) = i * f64_unit"
  using f64_scaled_of_int [of i] by (simp_all add: finite_f64_def)

lemma scale_factor_value:
  "finite_f64 scale_factor" "1590 * f64_unit \<le> 100 * f64_scaled scale_factor" "100 * f64_scaled scale_factor \<le> 1592 * f64_unit"
proof -
  have z: "\<not> is_zero two_pi" by (simp add: is_zero_def two_pi_def f64_mag_def)
  have f: "finite_f64 (f64_of_int 100)" "scaled_mag (f64_mag (f64_of_int 100)) = 100 * f64_unit"
    using of_int_value [of 100] by (simp_all add: f64_scaled_def)
  define n d where "n = 100 * f64_unit * f64_unit" and "d = (7074237752028440 * 2 ^ 1024 :: int)"
  have mag: "f64_mag scale_factor = round_mag n d" "f64_sign scale_factor = False"
    using div_mag [OF f(1) two_pi_value(1) z] two_pi_value(2,3) f(2)
    by (simp_all add: scale_factor_def tdigest_default_compression_def n_def d_def)
  have d: "0 < d" "0 \<le> n" by (simp_all add: d_def n_def)
  have n: "n = 100 * 2 ^ 2148" by (simp add: n_def f64_unit_def)
  have lt: "n < d * 2 ^ (53 + 1026)" by (simp add: n d_def)
  also have "\<dots> \<le> 2 ^ 1128 * d" using d(1) by (simp only: mult.commute [of d]) (intro mult_right_mono power_increasing, simp_all)
  finally have q: "n div d < 2 ^ 1128" by (rule int_div_less [OF d(1)])
  then have fin: "round_mag n d < inf_mag" using d(1) q by (intro round_mag_bound)
  then show "finite_f64 scale_factor" by (simp add: finite_f64_def mag)
  have "\<bar>scaled_mag (round_mag n d) * d - n\<bar> \<le> d * 2 ^ binade n d" by (rule round_error [OF d(2,1) fin])
  also have "\<dots> \<le> d * 2 ^ 1026" using binade_bound [OF d(1) lt] d(1) by (intro mult_left_mono power_increasing) simp_all
  finally have "\<bar>scaled_mag (round_mag n d) * d - n\<bar> \<le> d * 2 ^ 1026" .
  then show "1590 * f64_unit \<le> 100 * f64_scaled scale_factor" "100 * f64_scaled scale_factor \<le> 1592 * f64_unit"
    by (simp_all add: f64_scaled_def mag n d_def f64_unit_def)
qed

text \<open>A share of the total weight, as \<open>compress\<close> computes it: between 0 and 1, and monotone.\<close>

definition share :: "int \<Rightarrow> int \<Rightarrow> f64" where
  "share tot x = f64_div (f64_of_int x) (f64_of_int tot)"

definition unit_f64 :: "f64 \<Rightarrow> bool" where
  "unit_f64 q \<longleftrightarrow> finite_f64 q \<and> \<not> f64_sign q \<and> f64_scaled q \<le> f64_unit"

lemma share_mag:
  assumes "0 \<le> x" and "x \<le> tot" and "0 < tot" and "tot < exact_bound"
  shows "f64_mag (share tot x) = round_mag (x * f64_unit * f64_unit) (tot * f64_unit)" and "f64_sign (share tot x) = False"
proof -
  have b: "\<bar>x\<bar> < 2 ^ 53" "\<bar>tot\<bar> < 2 ^ 53" using assms by (simp_all add: exact_bound_def)
  have v: "scaled_mag (f64_mag (f64_of_int x)) = x * f64_unit" "scaled_mag (f64_mag (f64_of_int tot)) = tot * f64_unit"
    using of_int_value(2) [OF b(1)] of_int_value(2) [OF b(2)] assms by (simp_all add: f64_scaled_def)
  have "\<not> is_zero (f64_of_int tot)" using v(2) assms(3) by (auto simp: is_zero_def)
  then show "f64_mag (share tot x) = round_mag (x * f64_unit * f64_unit) (tot * f64_unit)" and "f64_sign (share tot x) = False"
    using div_mag [OF of_int_value(1) [OF b(1)] of_int_value(1) [OF b(2)]] v assms by (simp_all add: share_def)
qed

lemma share_mono:
  assumes "0 \<le> x" and "x \<le> y" and "y \<le> tot" and "0 < tot" and "tot < exact_bound"
  shows "f64_mag (share tot x) \<le> f64_mag (share tot y)"
proof -
  have "round_mag (x * f64_unit * f64_unit) (tot * f64_unit) \<le> round_mag (y * f64_unit * f64_unit) (tot * f64_unit)"
    using assms by (intro round_mag_mono_num mult_right_mono) simp_all
  then show ?thesis using assms by (simp add: share_mag)
qed

lemma share_unit:
  assumes "0 \<le> x" and "x \<le> tot" and "0 < tot" and "tot < exact_bound"
  shows "unit_f64 (share tot x)"
proof -
  have "round_mag (tot * f64_unit * f64_unit) (tot * f64_unit) = round_mag f64_unit 1"
    using round_mag_scale [of "tot * f64_unit" f64_unit 1] assms(3) by (simp add: ac_simps)
  also have "\<dots> = f64_mag (f64_of_int 1)" by (simp add: f64_mag_of_int)
  finally have "f64_mag (share tot x) \<le> f64_mag (f64_of_int 1)"
    using share_mono [of x tot tot] share_mag(1) [of tot tot] assms by simp
  moreover have "f64_mag (f64_of_int 1) < inf_mag" "f64_scaled (f64_of_int 1) = f64_unit"
    using f64_scaled_of_int [of 1] by simp_all
  ultimately show ?thesis
    using scaled_mag_mono [of "f64_mag (share tot x)" "f64_mag (f64_of_int 1)"] f64_mag_range(1) share_mag(2) [OF assms]
    by (simp add: unit_f64_def finite_f64_def f64_scaled_def)
qed

text \<open>The argument of the arcsine.\<close>

definition scale_arg :: "f64 \<Rightarrow> f64" where
  "scale_arg q = f64_sub (f64_mul (f64_of_int 2) q) (f64_of_int 1)"

lemma twice:
  assumes "unit_f64 q"
  shows "finite_f64 (f64_mul (f64_of_int 2) q)" and "f64_sign (f64_mul (f64_of_int 2) q) = False"
    and "f64_scaled (f64_mul (f64_of_int 2) q) \<le> 2 * f64_unit"
    and "f64_mag (f64_mul (f64_of_int 2) q) = round_mag (2 * f64_unit * scaled_mag (f64_mag q)) f64_unit"
proof -
  have two: "finite_f64 (f64_of_int 2)" "scaled_mag (f64_mag (f64_of_int 2)) = 2 * f64_unit"
    using of_int_value [of 2] by (simp_all add: f64_scaled_def)
  note q = assms [unfolded unit_f64_def]
  show mag: "f64_mag (f64_mul (f64_of_int 2) q) = round_mag (2 * f64_unit * scaled_mag (f64_mag q)) f64_unit"
    and sign: "f64_sign (f64_mul (f64_of_int 2) q) = False"
    using mul_mag [OF two(1), of q] q two(2) by simp_all
  have "round_mag (2 * f64_unit * scaled_mag (f64_mag q)) f64_unit \<le> round_mag (2 * f64_unit * f64_unit) f64_unit"
    using q by (intro round_mag_mono_num mult_left_mono) (auto simp: f64_scaled_def)
  also have "\<dots> = round_mag (2 * f64_unit) 1" using round_mag_scale [of f64_unit "2 * f64_unit" 1] by simp
  also have "\<dots> = f64_mag (f64_of_int 2)" by (simp add: f64_mag_of_int)
  finally have le: "f64_mag (f64_mul (f64_of_int 2) q) \<le> f64_mag (f64_of_int 2)" by (simp add: mag)
  then show "finite_f64 (f64_mul (f64_of_int 2) q)" using two(1) by (simp add: finite_f64_def)
  show "f64_scaled (f64_mul (f64_of_int 2) q) \<le> 2 * f64_unit"
    using scaled_mag_mono [OF _ le] two f64_mag_range(1) sign by (simp add: f64_scaled_def finite_f64_def)
qed

lemma key_bounds:
  assumes "finite_f64 a" and "finite_f64 b" and "f64_mag x \<le> inf_mag" and "f64_key a \<le> f64_key x" and "f64_key x \<le> f64_key b"
  shows "finite_f64 x" and "f64_scaled a \<le> f64_scaled x" and "f64_scaled x \<le> f64_scaled b"
  using assms key_le_scaled [of a x] key_le_scaled [of x b] f64_mag_range(1) [of x] f64_mag_range(1) [of a] f64_mag_range(1) [of b]
  by (auto simp: finite_f64_def f64_key_def split: if_splits)

lemma scale_arg_range:
  assumes "unit_f64 q"
  shows "finite_f64 (scale_arg q)" and "\<bar>f64_scaled (scale_arg q)\<bar> \<le> f64_unit"
proof -
  have one: "finite_f64 (f64_of_int 1)" "f64_scaled (f64_of_int 1) = f64_unit" "finite_f64 (f64_of_int (-1))" "f64_scaled (f64_of_int (-1)) = - f64_unit"
    using of_int_value [of 1] of_int_value [of "-1"] by simp_all
  note t = twice [OF assms]
  have "0 \<le> f64_scaled (f64_mul (f64_of_int 2) q)" using t(2) by (simp add: f64_scaled_def scaled_mag_nonneg)
  then have "round_key (- f64_unit) \<le> f64_key (scale_arg q) \<and> f64_key (scale_arg q) \<le> round_key f64_unit"
    using sub_key(1) [OF t(1) one(1)] one(2) t(3) by (auto simp: scale_arg_def intro!: round_key_mono)
  then have "f64_key (f64_of_int (-1)) \<le> f64_key (scale_arg q)" "f64_key (scale_arg q) \<le> f64_key (f64_of_int 1)"
    using round_key_scaled [of "f64_of_int 1"] round_key_scaled [of "f64_of_int (-1)"] one by (simp_all add: finite_f64_def)
  from key_bounds [OF one(3,1) sub_key(2) [OF t(1) one(1), folded scale_arg_def] this]
  show "finite_f64 (scale_arg q)" and "\<bar>f64_scaled (scale_arg q)\<bar> \<le> f64_unit" using one by auto
qed

lemma scale_arg_mono:
  assumes "unit_f64 q" and "unit_f64 r" and "f64_mag q \<le> f64_mag r"
  shows "f64_scaled (scale_arg q) \<le> f64_scaled (scale_arg r)"
proof -
  have one: "finite_f64 (f64_of_int 1)" using of_int_value [of 1] by simp
  note tq = twice [OF assms(1)] and tr = twice [OF assms(2)]
  have "scaled_mag (f64_mag q) \<le> scaled_mag (f64_mag r)"
    using scaled_mag_mono [of "f64_mag q" "f64_mag r"] assms f64_mag_range(1) by (simp add: unit_f64_def finite_f64_def)
  then have "f64_mag (f64_mul (f64_of_int 2) q) \<le> f64_mag (f64_mul (f64_of_int 2) r)"
    unfolding tq(4) tr(4) by (intro round_mag_mono_num mult_left_mono) simp_all
  then have "f64_scaled (f64_mul (f64_of_int 2) q) \<le> f64_scaled (f64_mul (f64_of_int 2) r)"
    using scaled_mag_mono [of "f64_mag (f64_mul (f64_of_int 2) q)" "f64_mag (f64_mul (f64_of_int 2) r)"] tq(2) tr(1,2) f64_mag_range(1)
    by (simp add: f64_scaled_def finite_f64_def)
  then have "f64_key (scale_arg q) \<le> f64_key (scale_arg r)"
    using sub_key(1) [OF tq(1) one] sub_key(1) [OF tr(1) one] by (simp add: scale_arg_def round_key_mono)
  then show ?thesis
    using key_le_scaled [of "scale_arg q" "scale_arg r"] scale_arg_range(1) [OF assms(1)] scale_arg_range(1) [OF assms(2)]
    by (simp add: finite_f64_def)
qed

abbreviation scale_at :: "runtime_lib \<Rightarrow> f64 \<Rightarrow> f64" where
  "scale_at lib q \<equiv> tdigest_scale lib q (f64_of_int tdigest_default_compression)"

lemma scale_at_eq:
  assumes "unit_f64 q"
  shows "scale_at lib q = f64_mul scale_factor (lib_asin lib (scale_arg q))"
proof -
  note q = assms [unfolded unit_f64_def]
  have one: "finite_f64 (f64_of_int 1)" "f64_scaled (f64_of_int 1) = f64_unit" using of_int_value [of 1] by simp_all
  have "\<not> f64_lt (f64_of_int 1) q"
    using f64_le_scaled [OF conjunct1 [OF q] one(1)] q one(2) by (auto simp: f64_lt_def f64_le_def)
  moreover have "\<not> f64_lt q f64_zero"
    using q f64_mag_range(1) [of q] by (simp add: f64_lt_def f64_key_def f64_zero_def f64_sign_def f64_mag_def)
  ultimately show ?thesis by (simp add: tdigest_scale_def Let_def scale_factor_def scale_arg_def)
qed

text \<open>The scale function stays within 25.1 and increases, up to an error of \<open>2 ^ -15\<close>.\<close>

lemma scale_product:
  assumes "asin_ok (lib_asin lib)" and "unit_f64 q"
  shows "finite_f64 (scale_at lib q)"
    and "\<bar>f64_scaled (scale_at lib q) * f64_unit - f64_scaled scale_factor * f64_scaled (lib_asin lib (scale_arg q))\<bar> \<le> f64_unit * 2 ^ 1026"
    and "10 * \<bar>f64_scaled (scale_at lib q)\<bar> \<le> 251 * f64_unit"
proof -
  define a c where "a = lib_asin lib (scale_arg q)" and "c = f64_scaled scale_factor"
  have a: "finite_f64 a" "\<bar>f64_scaled a\<bar> * 40 \<le> 63 * f64_unit"
    using assms(1) scale_arg_range [OF assms(2)] by (auto simp: asin_ok_def a_def)
  have c: "0 \<le> c" "100 * c \<le> 1592 * f64_unit"
    using scale_factor_value(2,3) f64_unit_pos(1) unfolding c_def by linarith+
  have "(100 * c) * (\<bar>f64_scaled a\<bar> * 40) \<le> (1592 * f64_unit) * (63 * f64_unit)"
    using c(1) by (intro mult_mono [OF c(2) a(2)]) simp_all
  then have prod: "4000 * \<bar>c * f64_scaled a\<bar> \<le> 100296 * (f64_unit * f64_unit)"
    using c(1) by (simp add: abs_mult ac_simps)
  have lt: "\<bar>c * f64_scaled a\<bar> < f64_unit * 2 ^ (53 + 1026)"
  proof -
    have "(2::int) ^ (53 + 1026) = 32 * f64_unit" by (simp add: f64_unit_def)
    then have "f64_unit * 2 ^ (53 + 1026) = 32 * (f64_unit * f64_unit)" by simp
    moreover have "0 < f64_unit * f64_unit" by simp
    ultimately show ?thesis using prod by linarith
  qed
  note e = mul_error [OF scale_factor_value(1) a(1), folded c_def, OF lt] scale_at_eq [OF assms(2), of lib, folded a_def]
  show "finite_f64 (scale_at lib q)" using e by simp
  show err: "\<bar>f64_scaled (scale_at lib q) * f64_unit - f64_scaled scale_factor * f64_scaled (lib_asin lib (scale_arg q))\<bar> \<le> f64_unit * 2 ^ 1026"
    using e by (simp add: a_def c_def)
  define k where "k = f64_scaled (scale_at lib q)"
  have "f64_unit * 2 ^ 1026 * 1000 \<le> f64_unit * f64_unit" by (simp add: f64_unit_def)
  moreover have "\<bar>k * f64_unit\<bar> \<le> \<bar>c * f64_scaled a\<bar> + f64_unit * 2 ^ 1026" using err by (simp add: a_def c_def k_def)
  ultimately have "4000 * \<bar>k * f64_unit\<bar> \<le> 100300 * (f64_unit * f64_unit)" using prod by linarith
  then have "(4000 * \<bar>k\<bar>) * f64_unit \<le> (100300 * f64_unit) * f64_unit" by (simp add: abs_mult ac_simps)
  then have "4000 * \<bar>k\<bar> \<le> 100300 * f64_unit" by (rule mult_right_le_imp_le) simp
  then show "10 * \<bar>f64_scaled (scale_at lib q)\<bar> \<le> 251 * f64_unit" unfolding k_def by linarith
qed

lemma scale_mono:
  assumes "asin_ok (lib_asin lib)" and "unit_f64 q" and "unit_f64 r" and "f64_mag q \<le> f64_mag r"
  shows "f64_scaled (scale_at lib q) \<le> f64_scaled (scale_at lib r) + 2 ^ 1059"
proof -
  define a b c where "a = f64_scaled (lib_asin lib (scale_arg q))" and "b = f64_scaled (lib_asin lib (scale_arg r))" and "c = f64_scaled scale_factor"
  have c: "0 \<le> c" "c \<le> 16 * f64_unit"
    using scale_factor_value(2,3) f64_unit_pos(1) unfolding c_def by linarith+
  have "a \<le> b + 2 ^ 1054"
    using assms(1) scale_arg_range [OF assms(2)] scale_arg_range [OF assms(3)] scale_arg_mono [OF assms(2-4)]
    by (auto simp: asin_ok_def a_def b_def)
  then have "c * a \<le> c * (b + 2 ^ 1054)" using c(1) by (rule mult_left_mono)
  also have "\<dots> \<le> c * b + (16 * f64_unit) * 2 ^ 1054" using c(2) by (simp add: distrib_left)
  finally have "c * a \<le> c * b + f64_unit * 2 ^ 1058" by simp
  moreover have "f64_unit * 2 ^ 1026 * 2 \<le> f64_unit * (2 ^ 1059 - 2 ^ 1058)" by (rule order_trans [OF _ mult_left_mono [of "2 ^ 1027"]]) simp_all
  ultimately have "f64_scaled (scale_at lib q) * f64_unit \<le> f64_scaled (scale_at lib r) * f64_unit + f64_unit * 2 ^ 1059"
    using scale_product(2) [OF assms(1,2)] scale_product(2) [OF assms(1,3)] unfolding a_def [symmetric] b_def [symmetric] c_def [symmetric] right_diff_distrib
    by linarith
  then have "f64_scaled (scale_at lib q) * f64_unit \<le> (f64_scaled (scale_at lib r) + 2 ^ 1059) * f64_unit" by (simp add: distrib_left mult.commute [of _ f64_unit])
  then show ?thesis by (rule mult_right_le_imp_le) simp
qed

section \<open>Two clusters span more than one step of the scale\<close>

text \<open>One, less the error of the scale function.\<close>

definition scale_step :: int where
  "scale_step = f64_unit - 2 ^ 1059"

lemma scale_step_bound: "999 * f64_unit \<le> 1000 * scale_step"
  by (simp add: scale_step_def f64_unit_def)

lemma count_points_Cons: "count_points (c # cs) = points_in c + count_points cs"
  by (simp add: count_points_def)

lemma compress_loop_size:
  assumes "asin_ok (lib_asin lib)" and "\<And>c. c \<in> set ps \<Longrightarrow> exact_weight c"
    and "0 \<le> cum" and "cum + count_points ps = tot" and "0 < tot" and "tot < exact_bound" and "unit_f64 q0"
    and "10 * (int (length acc div 2) * scale_step) - 251 * f64_unit \<le> 10 * f64_scaled (scale_at lib q0)"
    and "\<And>x. cum \<le> x \<Longrightarrow> x \<le> tot \<Longrightarrow> 10 * (int ((length acc + 1) div 2) * scale_step) - 251 * f64_unit \<le> 10 * f64_scaled (scale_at lib (share tot x))"
  shows "length (compress_loop lib (f64_of_int tdigest_default_compression) (f64_of_int tot) acc cur (f64_of_int cum) q0 ps) \<le> 101"
  using assms(2-)
proof (induction ps arbitrary: acc cur cum q0)
  case Nil
  then have "unit_f64 (share tot tot)" using share_unit [of tot tot] by simp
  then have "10 * f64_scaled (scale_at lib (share tot tot)) \<le> 251 * f64_unit" using scale_product(3) [OF assms(1)] by fastforce
  moreover have "cum \<le> tot" using Nil.prems(3) by (simp add: count_points_def)
  ultimately have le: "10 * (int ((length acc + 1) div 2) * scale_step) \<le> 502 * f64_unit"
    using Nil.prems(8) [of tot] by linarith
  have "(length acc + 1) div 2 \<le> 50"
  proof (rule ccontr)
    assume "\<not> (length acc + 1) div 2 \<le> 50"
    then have "51 \<le> int ((length acc + 1) div 2)" by linarith
    moreover have "0 \<le> scale_step" using scale_step_bound f64_unit_pos(1) by linarith
    ultimately have "51 * scale_step \<le> int ((length acc + 1) div 2) * scale_step" by (rule mult_right_mono)
    then show False using le scale_step_bound f64_unit_pos(1) by linarith
  qed
  then show ?case by simp
next
  case (Cons p ps)
  have w: "0 < points_in p" "points_in p < exact_bound" "weight p = f64_of_int (points_in p)"
    using exact_weight_points Cons.prems(1) by auto
  have rest: "0 \<le> count_points ps" using Cons.prems(1) by (auto intro: count_points_nonneg)
  have tot: "cum + points_in p + count_points ps = tot" using Cons.prems(3) by (simp add: count_points_Cons)
  have cum': "f64_add (f64_of_int cum) (weight p) = f64_of_int (cum + points_in p)"
    unfolding w(3) using Cons.prems(2,5) tot w rest by (intro exact_add) auto
  have range: "0 \<le> cum" "cum \<le> tot" "0 \<le> cum + points_in p" "cum + points_in p \<le> tot" using Cons.prems(2) tot w(1) rest by auto
  define q1 where "q1 = share tot (cum + points_in p)"
  have q1: "unit_f64 q1" using share_unit range(3,4) Cons.prems(4,5) by (simp add: q1_def)
  have div: "f64_div (f64_of_int (cum + points_in p)) (f64_of_int tot) = q1" by (simp only: share_def q1_def)
  define fits where "fits \<longleftrightarrow> f64_le (f64_sub (scale_at lib q1) (scale_at lib q0)) (f64_of_int 1)"
  show ?case
  proof (cases fits)
    case True
    have "length (compress_loop lib (f64_of_int tdigest_default_compression) (f64_of_int tot) acc c (f64_of_int (cum + points_in p)) q0 ps) \<le> 101" for c
      by (rule Cons.IH) (use Cons.prems tot w(1) range in auto)
    then show ?thesis using True by (simp add: Let_def div cum' fits_def)
  next
    case False
    have "\<not> f64_scaled (scale_at lib q1) - f64_scaled (scale_at lib q0) \<le> f64_scaled (f64_of_int 1)"
      using sub_le [OF scale_product(1) [OF assms(1) q1] scale_product(1) [OF assms(1) Cons.prems(6)] of_int_value(1)] False by (auto simp: fits_def)
    then have grow: "f64_scaled (scale_at lib q0) + f64_unit \<le> f64_scaled (scale_at lib q1)" using of_int_value(2) [of 1] by simp
    have later: "f64_scaled (scale_at lib q0) + scale_step \<le> f64_scaled (scale_at lib (share tot x))" if "cum + points_in p \<le> x" "x \<le> tot" for x
    proof -
      have "f64_scaled (scale_at lib q1) \<le> f64_scaled (scale_at lib (share tot x)) + 2 ^ 1059"
        unfolding q1_def using that range(3) Cons.prems(4,5) by (intro scale_mono assms(1) share_unit share_mono) simp_all
      then show ?thesis using grow by (simp add: scale_step_def)
    qed
    have "length (compress_loop lib (f64_of_int tdigest_default_compression) (f64_of_int tot) (acc @ [cur]) p
        (f64_of_int (cum + points_in p)) (share tot cum) ps) \<le> 101"
    proof (rule Cons.IH)
      show "unit_f64 (share tot cum)" using share_unit range(1,2) Cons.prems(4,5) by simp
      show "10 * (int (length (acc @ [cur]) div 2) * scale_step) - 251 * f64_unit \<le> 10 * f64_scaled (scale_at lib (share tot cum))"
        using Cons.prems(8) [of cum] range(2) by simp
      show "10 * (int ((length (acc @ [cur]) + 1) div 2) * scale_step) - 251 * f64_unit \<le> 10 * f64_scaled (scale_at lib (share tot x))"
        if "cum + points_in p \<le> x" "x \<le> tot" for x
        using later [OF that] Cons.prems(7) by (simp add: distrib_right)
    qed (use Cons.prems tot range in auto)
    moreover have "f64_div (f64_of_int cum) (f64_of_int tot) = share tot cum" by (simp add: share_def)
    ultimately show ?thesis using False by (simp add: Let_def div cum' fits_def)
  qed
qed

section \<open>The size of a digest\<close>

lemma total_weight_exact:
  assumes "\<And>c. c \<in> set cs \<Longrightarrow> exact_weight c" and "count_points cs < exact_bound"
  shows "total_weight cs = f64_of_int (count_points cs)"
proof -
  have "fold (\<lambda>c s. f64_add s (weight c)) cs (f64_of_int k) = f64_of_int (k + count_points cs)"
    if "0 \<le> k" "k + count_points cs < exact_bound" for k
    using assms(1) that
  proof (induction cs arbitrary: k)
    case (Cons c cs)
    have c: "0 < points_in c" "weight c = f64_of_int (points_in c)" "0 \<le> count_points cs"
      using exact_weight_points Cons.prems(1) by (auto intro: count_points_nonneg)
    then have "f64_add (f64_of_int k) (weight c) = f64_of_int (k + points_in c)"
      unfolding c(2) using Cons.prems(2,3) by (intro exact_add) (auto simp: count_points_Cons)
    then show ?case using Cons.IH [of "k + points_in c"] Cons.prems c(1) by (simp add: count_points_Cons add.assoc)
  qed (simp add: count_points_def)
  from this [of 0] show ?thesis
    using assms(2) by (simp add: total_weight_def f64_zero_def f64_of_int_def f64_of_ratio_def round_mag_small mk_f64_def)
qed

lemma unit_zero: "unit_f64 f64_zero"
  by (simp add: unit_f64_def finite_f64_def f64_zero_def f64_mag_def f64_sign_def f64_scaled_def)

text \<open>A digest built by the code: its compression is the default, its weights are counts, and it is small.\<close>

definition td_small :: "tdigest \<Rightarrow> bool" where
  "td_small t \<longleftrightarrow> td_ok t \<and> compression t = f64_of_int tdigest_default_compression
     \<and> length (centroids t) \<le> 101 \<and> length (td_buffer t) < tdigest_buffer_cap"

lemma compress_small:
  assumes "lib_sorts lib" and "asin_ok (lib_asin lib)" and "td_ok t" and "td_count t < exact_bound"
    and "compression t = f64_of_int tdigest_default_compression"
  shows "length (centroids (compress lib t)) \<le> 101 \<and> compression (compress lib t) = compression t"
proof (cases "compress_points t")
  case Nil
  then show ?thesis by (simp add: compress_def)
next
  case (Cons c cs)
  define qs where "qs = lib_sort lib (compress_points t)"
  have m: "mset qs = mset (compress_points t)" using assms(1) by (simp add: lib_sorts_def qs_def)
  then obtain p ps where qs: "qs = p # ps" using Cons by (cases qs) auto
  have "map points_in (map (\<lambda>v. \<lparr>mean = v, weight = f64_of_int 1\<rparr>) (td_buffer t)) = map (\<lambda>_. 1) (td_buffer t)" by simp
  then have "count_points (compress_points t) = td_count t"
    by (simp add: compress_points_def td_count_def count_points_def sum_list_triv del: map_map)
  then have cnt: "count_points qs = td_count t" using count_points_mset [OF m] by simp
  have ew: "exact_weight c" if "c \<in> set qs" for c
  proof -
    have "c \<in> set (compress_points t)" using that m by (metis mset_eq_setD)
    then show ?thesis using assms(3) by (auto simp: compress_points_def td_ok_def)
  qed
  have w: "0 < points_in p" "weight p = f64_of_int (points_in p)" using exact_weight_points ew qs by auto
  have rest: "0 \<le> count_points ps" using ew qs by (auto intro: count_points_nonneg)
  have low: "- 251 * f64_unit \<le> 10 * f64_scaled (scale_at lib q)" if "unit_f64 q" for q
    using scale_product(3) [OF assms(2) that] by linarith
  have "length (compress_loop lib (f64_of_int tdigest_default_compression) (f64_of_int (td_count t)) [] p (f64_of_int (points_in p)) f64_zero ps) \<le> 101"
  proof (rule compress_loop_size [OF assms(2)])
    show "10 * (int ((length [] + 1) div 2) * scale_step) - 251 * f64_unit \<le> 10 * f64_scaled (scale_at lib (share (td_count t) x))"
      if "points_in p \<le> x" "x \<le> td_count t" for x
      using low [OF share_unit [of x "td_count t"]] that w(1) assms(4) by simp
  qed (use low [OF unit_zero] w cnt qs rest ew assms(4) unit_zero in \<open>auto simp: count_points_Cons\<close>)
  moreover have "total_weight qs = f64_of_int (td_count t)" using total_weight_exact [of qs] ew cnt assms(4) by simp
  moreover have "lib_sort lib (c # cs) = p # ps" using qs Cons by (simp add: qs_def)
  ultimately show ?thesis using Cons qs w(2) assms(5) by (simp add: compress_def Let_def)
qed

lemma small_new: "td_small new_tdigest"
  by (simp add: td_small_def) (simp add: new_tdigest_def tdigest_buffer_cap_def)

lemma observe_compression [simp]: "compression (observe v t) = compression t"
  by (simp add: observe_def)

lemma flush_small:
  assumes "lib_sorts lib" and "asin_ok (lib_asin lib)" and "td_small t" and "td_count t < exact_bound"
  shows "td_small (flush_pending lib t)"
  using compress_small [OF assms(1,2), of t] flush_count [OF assms(1), of t] assms(3,4)
  by (auto simp: td_small_def flush_pending_def tdigest_buffer_cap_def)

lemma add_small:
  assumes "lib_sorts lib" and "asin_ok (lib_asin lib)" and "td_small t" and "td_count t + 1 < exact_bound"
  shows "td_small (tdigest_add lib v t)"
proof (cases "is_nan v")
  case False
  define t2 where "t2 = (observe v t)\<lparr>td_buffer := td_buffer t @ [v]\<rparr>"
  have t2: "td_ok t2" "td_count t2 = td_count t + 1" "compression t2 = f64_of_int tdigest_default_compression"
      "length (centroids t2) \<le> 101"
    using assms(3) by (simp_all add: td_small_def td_ok_def td_count_def t2_def)
  have "td_small (compress lib t2)"
    using compress_small [OF assms(1,2) t2(1)] compress_count [OF assms(1) t2(1)] t2 assms(4)
    by (simp add: td_small_def tdigest_buffer_cap_def)
  then show ?thesis using False t2 assms(3) by (simp add: tdigest_add_def Let_def td_small_def flip: t2_def) (simp add: t2_def)
qed (use assms(3) in \<open>simp add: tdigest_add_def\<close>)

lemma merge_small:
  assumes "lib_sorts lib" and "asin_ok (lib_asin lib)" and "td_small t" and "td_small u" and "td_count t + td_count u < exact_bound"
  shows "td_small (fst (tdigest_merge lib t u))" and "td_small (snd (tdigest_merge lib t u))"
proof -
  have ok: "td_ok t" "td_ok u" using assms(3,4) by (simp_all add: td_small_def)
  have c: "td_count t < exact_bound" "td_count u < exact_bound"
    using td_count_nonneg [OF ok(1)] td_count_nonneg [OF ok(2)] assms(5) by simp_all
  define t1 u1 where "t1 = flush_pending lib t" and "u1 = flush_pending lib u"
  have s: "td_small t1" "td_small u1" "td_count t1 = td_count t" "td_count u1 = td_count u" "td_buffer t1 = []" "td_buffer u1 = []"
    using flush_small [OF assms(1,2,3) c(1)] flush_small [OF assms(1,2,4) c(2)] flush_count [OF assms(1) ok(1) c(1)] flush_count [OF assms(1) ok(2) c(2)]
    by (simp_all add: t1_def u1_def)
  show "td_small (snd (tdigest_merge lib t u))" using s(2) by (simp add: tdigest_merge_def Let_def u1_def)
  obtain t3 where t3: "fst (tdigest_merge lib t u) = compress lib t3" "centroids t3 = centroids t1 @ centroids u1" "td_buffer t3 = []"
      "compression t3 = compression t1"
    using s(5) by (simp add: tdigest_merge_def Let_def flip: t1_def u1_def)
  have "td_ok t3" "td_count t3 = td_count t + td_count u" "compression t3 = f64_of_int tdigest_default_compression"
    using s t3 by (auto simp: td_small_def td_ok_def td_count_def count_points_def)
  then show "td_small (fst (tdigest_merge lib t u))"
    using compress_small [OF assms(1,2), of t3] compress_count [OF assms(1), of t3] assms(5) t3(1)
    by (simp add: td_small_def tdigest_buffer_cap_def)
qed

text \<open>The digests the program can build from \<open>n\<close> values: by adding, by merging, and by asking for a quantile.\<close>

inductive built_digest :: "runtime_lib \<Rightarrow> nat \<Rightarrow> tdigest \<Rightarrow> bool" for lib where
  built_new: "built_digest lib 0 new_tdigest"
| built_add: "built_digest lib n t \<Longrightarrow> built_digest lib (Suc n) (tdigest_add lib v t)"
| built_merge: "built_digest lib n t \<Longrightarrow> built_digest lib m u \<Longrightarrow> built_digest lib (n + m) (fst (tdigest_merge lib t u))"
| built_merged: "built_digest lib n t \<Longrightarrow> built_digest lib m u \<Longrightarrow> built_digest lib (n + m) (snd (tdigest_merge lib t u))"
| built_quantile: "built_digest lib n t \<Longrightarrow> built_digest lib n (snd (quantile lib q t))"

lemma built_small:
  assumes "lib_sorts lib" and "asin_ok (lib_asin lib)" and "built_digest lib n t" and "int n < exact_bound"
  shows "td_small t \<and> td_count t \<le> int n"
  using assms(3,4)
proof (induction rule: built_digest.induct)
  case built_new
  then show ?case by (simp add: small_new)
next
  case (built_add n t v)
  then have "td_small t" "td_count t \<le> int n" by simp_all
  then show ?case
    using add_small [OF assms(1,2)] tdigest_add_count [OF assms(1), of t v] built_add.prems by (auto simp: td_small_def)
next
  case (built_merge n t m u)
  then have "td_small t" "td_count t \<le> int n" "td_small u" "td_count u \<le> int m" by simp_all
  then show ?case
    using merge_small(1) [OF assms(1,2)] tdigest_merge_count [OF assms(1), of t u] built_merge.prems by (auto simp: td_small_def)
next
  case (built_merged n t m u)
  then have u: "td_small t" "td_count t \<le> int n" "td_small u" "td_count u \<le> int m" by simp_all
  moreover have "snd (tdigest_merge lib t u) = flush_pending lib u" by (simp add: tdigest_merge_def Let_def)
  ultimately show ?case
    using flush_small [OF assms(1,2), of u] flush_count [OF assms(1), of u] built_merged.prems by (auto simp: td_small_def)
next
  case (built_quantile n t q)
  moreover have "snd (quantile lib q t) = flush_pending lib t" by (simp add: quantile_def Let_def)
  ultimately show ?case
    using flush_small [OF assms(1,2), of t] flush_count [OF assms(1), of t] by (auto simp: td_small_def)
qed

text \<open>
  C37. A t-digest is small: whatever fewer than \<open>2 ^ 53\<close> values it was built from, by adding, merging and querying in any
  order, it has at most 101 centroids and fewer than 1024 buffered values.
\<close>

theorem tdigest_size:
  assumes "lib_sorts lib" and "asin_ok (lib_asin lib)" and "built_digest lib n t" and "n < 2 ^ 53"
  shows "length (centroids t) \<le> 101 \<and> length (td_buffer t) < 1024"
proof -
  have "int n < exact_bound" using assms(4) by (simp add: exact_bound_def)
  then show ?thesis using built_small [OF assms(1-3)] by (simp add: td_small_def tdigest_buffer_cap_def)
qed

text \<open>The identity, which satisfies what is asked of the arcsine, to apply the bound to.\<close>

lemma sample_asin_ok: "asin_ok (lib_asin sample_lib)"
  using f64_unit_pos(1) by (auto simp: asin_ok_def sample_lib_def)

theorem tdigest_size_witness:
  "length (centroids (fst (tdigest_merge sample_lib (tdigest_add sample_lib f64_zero new_tdigest) new_tdigest))) \<le> 101"
  using tdigest_size [OF sample_lib_sorts sample_asin_ok built_merge [OF built_add [OF built_new] built_new]] by simp

section \<open>Infinite values\<close>

text \<open>
  \<open>Add\<close> keeps a NaN out of a digest, but clustering makes one: the weighted mean of a cluster that takes in both
  infinities is a NaN, which from then on is sorted among the means.
\<close>

lemma weighted_infinity:
  assumes "exact_weight c" and "is_inf x"
  shows "f64_mul x (weight c) = x"
proof -
  obtain n where n: "0 < n" "n < exact_bound" "weight c = f64_of_int n" using assms(1) by (auto simp: exact_weight_def)
  have v: "finite_f64 (weight c)" "f64_scaled (weight c) = n * f64_unit" "\<not> f64_sign (weight c)"
    using of_int_value [of n] n by (simp_all add: exact_bound_def)
  then have "\<not> is_zero (weight c)" using n(1) by (auto simp: is_zero_def f64_scaled_def)
  moreover have "\<not> is_nan x" "\<not> is_zero x" using assms(2) by (simp_all add: is_inf_def is_nan_def is_zero_def inf_mag_def)
  ultimately have "f64_mul x (weight c) = f64_inf (f64_sign x)" using assms(2) v by (simp add: f64_mul_def Let_def)
  then show ?thesis using is_inf_eq [OF assms(2)] by simp
qed

lemma infinities_make_nan:
  assumes "exact_weight cur" and "mean cur = f64_inf True" and "exact_weight p" and "mean p = f64_inf False"
    and "f64_le (f64_sub (tdigest_scale lib (f64_div (f64_add cum (weight p)) tot) delta) (tdigest_scale lib q0 delta)) (f64_of_int 1)"
  shows "\<exists>c. compress_loop lib delta tot acc cur cum q0 [p] = acc @ [c] \<and> is_nan (mean c)"
proof -
  have "f64_add (f64_mul (mean cur) (weight cur)) (f64_mul (mean p) (weight p)) = f64_nan"
    using weighted_infinity [OF assms(1), of "f64_inf True"] weighted_infinity [OF assms(3), of "f64_inf False"] assms(2,4)
    by (simp add: f64_add_def)
  then show ?thesis using assms(5) by (simp add: Let_def f64_div_def)
qed

end
